theory Spec2Isabelle
  imports Main "HOL-Library.Multiset"
begin

section \<open>Go primitives used by the concurrency examples\<close>

text \<open>
  Go's \<^verbatim>\<open>%\<close> on integers truncates towards zero: the remainder carries the sign of
  the dividend.  The examples only compare a remainder with zero.
\<close>

definition go_rem :: "int \<Rightarrow> int \<Rightarrow> int" where
  "go_rem a b = sgn a * (\<bar>a\<bar> mod \<bar>b\<bar>)"

text \<open>
  A channel is its buffer (oldest value first), its capacity and whether it has been
  closed.  The three operations follow the language:
  \<^item> a receive takes the oldest buffered value; on an empty channel it yields the
    closed indication (\<^verbatim>\<open>ok == false\<close>, the end of a \<^verbatim>\<open>range\<close> loop) if the
    channel is closed and blocks otherwise;
  \<^item> a send on a closed channel panics; otherwise it appends to the buffer when there
    is room and blocks when there is none;
  \<^item> closing a closed channel panics.
\<close>

record 'a chan =
  buf :: "'a list"
  cap :: nat
  closed :: bool

datatype 'a recv_result = Received 'a "'a chan" | RecvClosed | RecvBlocks

datatype 'a send_result = Sent "'a chan" | SendBlocks | SendPanics

definition make_chan :: "nat \<Rightarrow> 'a chan" where
  "make_chan n = \<lparr>buf = [], cap = n, closed = False\<rparr>"

definition chan_recv :: "'a chan \<Rightarrow> 'a recv_result" where
  "chan_recv c =
     (case buf c of
        x # xs \<Rightarrow> Received x (c\<lparr>buf := xs\<rparr>)
      | [] \<Rightarrow> if closed c then RecvClosed else RecvBlocks)"

definition chan_send :: "'a chan \<Rightarrow> 'a \<Rightarrow> 'a send_result" where
  "chan_send c v =
     (if closed c then SendPanics
      else if length (buf c) < cap c then Sent (c\<lparr>buf := buf c @ [v]\<rparr>)
      else SendBlocks)"

definition chan_close :: "'a chan \<Rightarrow> 'a chan option" where
  "chan_close c = (if closed c then None else Some (c\<lparr>closed := True\<rparr>))"

text \<open>
  A worker goroutine of the form \<^verbatim>\<open>for job := range jobs { ... }\<close> is either waiting
  for a job, holding the job it has just received, or past the end of its loop.
\<close>

datatype 'j wstate = Idle | Busy 'j | Exited

text \<open>The jobs held by the workers, and the number of workers that have not ended.\<close>

fun inflight :: "'j wstate list \<Rightarrow> 'j multiset" where
  "inflight [] = {#}"
| "inflight (Busy j # ws) = add_mset j (inflight ws)"
| "inflight (Idle # ws) = inflight ws"
| "inflight (Exited # ws) = inflight ws"

fun live :: "'j wstate list \<Rightarrow> nat" where
  "live [] = 0"
| "live (Exited # ws) = live ws"
| "live (Idle # ws) = Suc (live ws)"
| "live (Busy j # ws) = Suc (live ws)"

text \<open>
  A producer goroutine that sends a list of values and then closes the channel is the
  values it has still to send; \<open>None\<close> is the producer that has closed the channel and
  returned.
\<close>

fun remaining :: "'a list option \<Rightarrow> 'a list" where
  "remaining (Some js) = js"
| "remaining None = []"

text \<open>
  One scheduling decision: the goroutine that takes the next step.  \<open>TimerFires\<close> is the
  expiry of a pending \<^verbatim>\<open>time.After\<close> in the main goroutine's \<^verbatim>\<open>select\<close>.  Calls to
  \<^verbatim>\<open>time.Sleep\<close> and to \<^verbatim>\<open>fmt.Printf\<close> order nothing between goroutines and are not
  steps of their own.
\<close>

datatype event = MainStep | WorkerStep nat | ProducerStep | TimerFires

section \<open>WorkerPoolWithErrorHandling\<close>

text \<open>
  \<^verbatim>\<open>type Job struct { ID int; Data string }\<close> and
  \<^verbatim>\<open>type Result struct { JobID int; Value string; Error error }\<close>.
  The only error value the function builds is \<^verbatim>\<open>fmt.Errorf("job %d failed", job.ID)\<close>;
  \<open>None\<close> stands for Go's \<^verbatim>\<open>nil\<close> error and the empty string for the zero \<^verbatim>\<open>Value\<close>.
\<close>

record Job =
  ID :: int
  Data :: string

datatype go_error = JobFailed int

record Result =
  JobID :: int
  Value :: string
  Error :: "go_error option"

text \<open>The body of the worker's loop: the result it builds for one job.\<close>

definition processJob :: "Job \<Rightarrow> Result" where
  "processJob job =
     (if go_rem (ID job) 3 = 0
      then \<lparr>JobID = ID job, Value = [], Error = Some (JobFailed (ID job))\<rparr>
      else \<lparr>JobID = ID job, Value = ''processed-'' @ Data job, Error = None\<rparr>)"

text \<open>
  The main goroutine sends the jobs, closes \<^verbatim>\<open>jobs\<close>, receives \<^verbatim>\<open>numJobs\<close> results and
  returns.  \<open>Sending js\<close> holds the jobs still to send (\<open>Sending []\<close> is the point just
  before \<^verbatim>\<open>close(jobs)\<close>); \<open>Collecting r\<close> holds the number of receives still to do.
\<close>

datatype eh_main = Sending "Job list" | Collecting nat | Returned

record eh_state =
  eh_jobs :: "Job chan"
  eh_results :: "Result chan"
  eh_workers :: "Job wstate list"
  eh_mainpc :: eh_main
  eh_printed :: "Result list"
  eh_panicked :: bool

definition eh_init :: "nat \<Rightarrow> Job list \<Rightarrow> eh_state" where
  "eh_init numWorkers js =
     \<lparr>eh_jobs = make_chan (length js), eh_results = make_chan (length js),
      eh_workers = replicate numWorkers Idle, eh_mainpc = Sending js,
      eh_printed = [], eh_panicked = False\<rparr>"

definition eh_worker :: "nat \<Rightarrow> eh_state \<Rightarrow> eh_state" where
  "eh_worker w s =
     (if length (eh_workers s) \<le> w then s
      else case eh_workers s ! w of
        Idle \<Rightarrow>
          (case chan_recv (eh_jobs s) of
             Received job c \<Rightarrow> s\<lparr>eh_jobs := c, eh_workers := (eh_workers s)[w := Busy job]\<rparr>
           | RecvClosed \<Rightarrow> s\<lparr>eh_workers := (eh_workers s)[w := Exited]\<rparr>
           | RecvBlocks \<Rightarrow> s)
      | Busy job \<Rightarrow>
          (case chan_send (eh_results s) (processJob job) of
             Sent c \<Rightarrow> s\<lparr>eh_results := c, eh_workers := (eh_workers s)[w := Idle]\<rparr>
           | SendBlocks \<Rightarrow> s
           | SendPanics \<Rightarrow> s\<lparr>eh_panicked := True\<rparr>)
      | Exited \<Rightarrow> s)"

definition eh_main_step :: "nat \<Rightarrow> eh_state \<Rightarrow> eh_state" where
  "eh_main_step numJobs s =
     (case eh_mainpc s of
        Sending (job # rest) \<Rightarrow>
          (case chan_send (eh_jobs s) job of
             Sent c \<Rightarrow> s\<lparr>eh_jobs := c, eh_mainpc := Sending rest\<rparr>
           | SendBlocks \<Rightarrow> s
           | SendPanics \<Rightarrow> s\<lparr>eh_panicked := True\<rparr>)
      | Sending [] \<Rightarrow>
          (case chan_close (eh_jobs s) of
             Some c \<Rightarrow> s\<lparr>eh_jobs := c, eh_mainpc := Collecting numJobs\<rparr>
           | None \<Rightarrow> s\<lparr>eh_panicked := True\<rparr>)
      | Collecting (Suc r) \<Rightarrow>
          (case chan_recv (eh_results s) of
             Received res c \<Rightarrow>
               s\<lparr>eh_results := c, eh_printed := eh_printed s @ [res], eh_mainpc := Collecting r\<rparr>
           | RecvClosed \<Rightarrow>
               s\<lparr>eh_printed := eh_printed s @ [\<lparr>JobID = 0, Value = [], Error = None\<rparr>],
                 eh_mainpc := Collecting r\<rparr>
           | RecvBlocks \<Rightarrow> s)
      | Collecting 0 \<Rightarrow> s\<lparr>eh_mainpc := Returned\<rparr>
      | Returned \<Rightarrow> s)"

text \<open>An unrecovered panic ends the program: no goroutine takes a further step.\<close>

definition eh_step :: "nat \<Rightarrow> eh_state \<Rightarrow> event \<Rightarrow> eh_state" where
  "eh_step numJobs s e =
     (if eh_panicked s then s
      else case e of
        MainStep \<Rightarrow> eh_main_step numJobs s
      | WorkerStep w \<Rightarrow> eh_worker w s
      | _ \<Rightarrow> s)"

definition eh_run :: "nat \<Rightarrow> Job list \<Rightarrow> event list \<Rightarrow> eh_state" where
  "eh_run numWorkers js sched = foldl (eh_step (length js)) (eh_init numWorkers js) sched"

text \<open>The constants of the source: three workers, jobs 1 to 6 with data \<^verbatim>\<open>data-<j>\<close>.\<close>

definition eh_source_jobs :: "Job list" where
  "eh_source_jobs =
     [\<lparr>ID = 1, Data = ''data-1''\<rparr>, \<lparr>ID = 2, Data = ''data-2''\<rparr>, \<lparr>ID = 3, Data = ''data-3''\<rparr>,
      \<lparr>ID = 4, Data = ''data-4''\<rparr>, \<lparr>ID = 5, Data = ''data-5''\<rparr>, \<lparr>ID = 6, Data = ''data-6''\<rparr>]"

definition WorkerPoolWithErrorHandling :: "event list \<Rightarrow> eh_state" where
  "WorkerPoolWithErrorHandling sched = eh_run 3 eh_source_jobs sched"

text \<open>
  What the proofs speak of: the jobs not yet sent, the results delivered, the jobs still
  in the pool, and a bound on the steps still possible.
\<close>

fun eh_unsent :: "eh_main \<Rightarrow> Job list" where
  "eh_unsent (Sending js) = js"
| "eh_unsent _ = []"

fun eh_rank :: "eh_main \<Rightarrow> nat" where
  "eh_rank (Sending js) = 2"
| "eh_rank (Collecting r) = 1"
| "eh_rank Returned = 0"

fun eh_pc_inv :: "nat \<Rightarrow> nat \<Rightarrow> eh_main \<Rightarrow> bool" where
  "eh_pc_inv n p (Sending l) \<longleftrightarrow> p = 0"
| "eh_pc_inv n p (Collecting r) \<longleftrightarrow> r + p = n"
| "eh_pc_inv n p Returned \<longleftrightarrow> p = n"

definition eh_delivered :: "eh_state \<Rightarrow> Result multiset" where
  "eh_delivered s = mset (eh_printed s) + mset (buf (eh_results s))"

definition eh_pending :: "eh_state \<Rightarrow> Job multiset" where
  "eh_pending s =
     inflight (eh_workers s) + mset (buf (eh_jobs s)) + mset (eh_unsent (eh_mainpc s))"

definition eh_measure :: "eh_state \<Rightarrow> nat" where
  "eh_measure s =
     4 * length (eh_unsent (eh_mainpc s)) + 3 * length (buf (eh_jobs s))
       + 2 * size (inflight (eh_workers s)) + length (buf (eh_results s))
       + live (eh_workers s) + eh_rank (eh_mainpc s)"

definition eh_inv :: "Job list \<Rightarrow> eh_state \<Rightarrow> bool" where
  "eh_inv js s \<longleftrightarrow>
     \<not> eh_panicked s
     \<and> cap (eh_jobs s) = length js \<and> cap (eh_results s) = length js
     \<and> \<not> closed (eh_results s)
     \<and> eh_delivered s + image_mset processJob (eh_pending s) = image_mset processJob (mset js)
     \<and> (closed (eh_jobs s) \<longleftrightarrow> eh_rank (eh_mainpc s) < 2)
     \<and> (Exited \<in> set (eh_workers s) \<longrightarrow> closed (eh_jobs s) \<and> buf (eh_jobs s) = [])
     \<and> eh_pc_inv (length js) (length (eh_printed s)) (eh_mainpc s)"

text \<open>
  One run of the source's constants: main sends the six jobs and closes \<^verbatim>\<open>jobs\<close>, the
  first worker processes every job, main receives the six results and returns.
\<close>

definition eh_schedule :: "event list" where
  "eh_schedule = replicate 7 MainStep @ replicate 12 (WorkerStep 0) @ replicate 7 MainStep"

section \<open>BasicWorkerPool\<close>

text \<open>
  Jobs and results are \<^verbatim>\<open>int\<close>s; a worker ranges over \<^verbatim>\<open>jobs\<close> and sends \<^verbatim>\<open>job * 2\<close>.
\<close>

definition bw_result :: "int \<Rightarrow> int" where
  "bw_result job = job * 2"

text \<open>
  Main sends the jobs, closes \<^verbatim>\<open>jobs\<close> and receives \<^verbatim>\<open>numJobs\<close> results, as in
  \<^verbatim>\<open>WorkerPoolWithErrorHandling\<close>.
\<close>

datatype bw_main = BwSending "int list" | BwCollecting nat | BwReturned

record bw_state =
  bw_jobs :: "int chan"
  bw_results :: "int chan"
  bw_workers :: "int wstate list"
  bw_mainpc :: bw_main
  bw_printed :: "int list"
  bw_panicked :: bool

definition bw_init :: "nat \<Rightarrow> int list \<Rightarrow> bw_state" where
  "bw_init numWorkers js =
     \<lparr>bw_jobs = make_chan (length js), bw_results = make_chan (length js),
      bw_workers = replicate numWorkers Idle, bw_mainpc = BwSending js,
      bw_printed = [], bw_panicked = False\<rparr>"

definition bw_worker :: "nat \<Rightarrow> bw_state \<Rightarrow> bw_state" where
  "bw_worker w s =
     (if length (bw_workers s) \<le> w then s
      else case bw_workers s ! w of
        Idle \<Rightarrow>
          (case chan_recv (bw_jobs s) of
             Received job c \<Rightarrow> s\<lparr>bw_jobs := c, bw_workers := (bw_workers s)[w := Busy job]\<rparr>
           | RecvClosed \<Rightarrow> s\<lparr>bw_workers := (bw_workers s)[w := Exited]\<rparr>
           | RecvBlocks \<Rightarrow> s)
      | Busy job \<Rightarrow>
          (case chan_send (bw_results s) (bw_result job) of
             Sent c \<Rightarrow> s\<lparr>bw_results := c, bw_workers := (bw_workers s)[w := Idle]\<rparr>
           | SendBlocks \<Rightarrow> s
           | SendPanics \<Rightarrow> s\<lparr>bw_panicked := True\<rparr>)
      | Exited \<Rightarrow> s)"

definition bw_main_step :: "nat \<Rightarrow> bw_state \<Rightarrow> bw_state" where
  "bw_main_step numJobs s =
     (case bw_mainpc s of
        BwSending (job # rest) \<Rightarrow>
          (case chan_send (bw_jobs s) job of
             Sent c \<Rightarrow> s\<lparr>bw_jobs := c, bw_mainpc := BwSending rest\<rparr>
           | SendBlocks \<Rightarrow> s
           | SendPanics \<Rightarrow> s\<lparr>bw_panicked := True\<rparr>)
      | BwSending [] \<Rightarrow>
          (case chan_close (bw_jobs s) of
             Some c \<Rightarrow> s\<lparr>bw_jobs := c, bw_mainpc := BwCollecting numJobs\<rparr>
           | None \<Rightarrow> s\<lparr>bw_panicked := True\<rparr>)
      | BwCollecting (Suc r) \<Rightarrow>
          (case chan_recv (bw_results s) of
             Received res c \<Rightarrow>
               s\<lparr>bw_results := c, bw_printed := bw_printed s @ [res], bw_mainpc := BwCollecting r\<rparr>
           | RecvClosed \<Rightarrow>
               s\<lparr>bw_printed := bw_printed s @ [0],
                 bw_mainpc := BwCollecting r\<rparr>
           | RecvBlocks \<Rightarrow> s)
      | BwCollecting 0 \<Rightarrow> s\<lparr>bw_mainpc := BwReturned\<rparr>
      | BwReturned \<Rightarrow> s)"

text \<open>An unrecovered panic ends the program: no goroutine takes a further step.\<close>

definition bw_step :: "nat \<Rightarrow> bw_state \<Rightarrow> event \<Rightarrow> bw_state" where
  "bw_step numJobs s e =
     (if bw_panicked s then s
      else case e of
        MainStep \<Rightarrow> bw_main_step numJobs s
      | WorkerStep w \<Rightarrow> bw_worker w s
      | _ \<Rightarrow> s)"

definition bw_run :: "nat \<Rightarrow> int list \<Rightarrow> event list \<Rightarrow> bw_state" where
  "bw_run numWorkers js sched = foldl (bw_step (length js)) (bw_init numWorkers js) sched"

text \<open>The constants of the source: three workers, jobs 1 to 10.\<close>

definition BasicWorkerPool :: "event list \<Rightarrow> bw_state" where
  "BasicWorkerPool sched = bw_run 3 [1, 2, 3, 4, 5, 6, 7, 8, 9, 10] sched"

text \<open>
  What the proofs speak of: the jobs not yet sent, the results delivered, the jobs still
  in the pool, and a bound on the steps still possible.
\<close>

fun bw_unsent :: "bw_main \<Rightarrow> int list" where
  "bw_unsent (BwSending js) = js"
| "bw_unsent _ = []"

fun bw_rank :: "bw_main \<Rightarrow> nat" where
  "bw_rank (BwSending js) = 2"
| "bw_rank (BwCollecting r) = 1"
| "bw_rank BwReturned = 0"

fun bw_pc_inv :: "nat \<Rightarrow> nat \<Rightarrow> bw_main \<Rightarrow> bool" where
  "bw_pc_inv n p (BwSending l) \<longleftrightarrow> p = 0"
| "bw_pc_inv n p (BwCollecting r) \<longleftrightarrow> r + p = n"
| "bw_pc_inv n p BwReturned \<longleftrightarrow> p = n"

definition bw_delivered :: "bw_state \<Rightarrow> int multiset" where
  "bw_delivered s = mset (bw_printed s) + mset (buf (bw_results s))"

definition bw_pending :: "bw_state \<Rightarrow> int multiset" where
  "bw_pending s =
     inflight (bw_workers s) + mset (buf (bw_jobs s)) + mset (bw_unsent (bw_mainpc s))"

definition bw_measure :: "bw_state \<Rightarrow> nat" where
  "bw_measure s =
     4 * length (bw_unsent (bw_mainpc s)) + 3 * length (buf (bw_jobs s))
       + 2 * size (inflight (bw_workers s)) + length (buf (bw_results s))
       + live (bw_workers s) + bw_rank (bw_mainpc s)"

definition bw_inv :: "int list \<Rightarrow> bw_state \<Rightarrow> bool" where
  "bw_inv js s \<longleftrightarrow>
     \<not> bw_panicked s
     \<and> cap (bw_jobs s) = length js \<and> cap (bw_results s) = length js
     \<and> \<not> closed (bw_results s)
     \<and> bw_delivered s + image_mset bw_result (bw_pending s) = image_mset bw_result (mset js)
     \<and> (closed (bw_jobs s) \<longleftrightarrow> bw_rank (bw_mainpc s) < 2)
     \<and> (Exited \<in> set (bw_workers s) \<longrightarrow> closed (bw_jobs s) \<and> buf (bw_jobs s) = [])
     \<and> bw_pc_inv (length js) (length (bw_printed s)) (bw_mainpc s)"

text \<open>
  One run of the source's constants: main sends the ten jobs and closes \<^verbatim>\<open>jobs\<close>, the
  third worker processes every job, main receives the ten results and returns, and the
  three workers find \<^verbatim>\<open>jobs\<close> closed.
\<close>

definition bw_schedule :: "event list" where
  "bw_schedule =
     replicate 11 MainStep @ replicate 20 (WorkerStep 2) @ replicate 11 MainStep
       @ [WorkerStep 0, WorkerStep 1, WorkerStep 2]"

section \<open>WorkerPoolWithMetrics\<close>

text \<open>
  Jobs and results are \<^verbatim>\<open>int\<close>s.  A worker counts the jobs it processed and the jobs
  that failed; a job with \<^verbatim>\<open>job%4 == 0\<close> fails, and for such a job the worker sends
  nothing on \<^verbatim>\<open>results\<close>.  When its loop ends the worker sends its counters on
  \<^verbatim>\<open>metrics\<close> (the elapsed time \<^verbatim>\<open>TotalTime\<close> is not modelled).  The end of the loop
  and the send of the counters are one step: an empty closed channel stays empty and
  closed, so nothing can come between them.
\<close>

record Metrics =
  JobsProcessed :: int
  Errors :: int

text \<open>
  The main goroutine sends the jobs and closes \<^verbatim>\<open>jobs\<close>; then, \<^verbatim>\<open>numJobs\<close> times, it
  either receives a result or gives up when \<^verbatim>\<open>time.After\<close> fires; then it closes
  \<^verbatim>\<open>results\<close> (\<open>MtCollecting 0\<close>) and receives one \<^verbatim>\<open>Metrics\<close> value per worker.
\<close>

datatype mt_main = MtSending "int list" | MtCollecting nat | MtMetrics nat | MtReturned

record mt_state =
  mt_jobs :: "int chan"
  mt_results :: "int chan"
  mt_metrics :: "Metrics chan"
  mt_workers :: "int wstate list"
  mt_processed :: "int list"
  mt_errors :: "int list"
  mt_mainpc :: mt_main
  mt_printed :: "int list"
  mt_printed_metrics :: "Metrics list"
  mt_panicked :: bool

definition mt_init :: "nat \<Rightarrow> int list \<Rightarrow> mt_state" where
  "mt_init numWorkers js =
     \<lparr>mt_jobs = make_chan (length js), mt_results = make_chan (length js),
      mt_metrics = make_chan numWorkers,
      mt_workers = replicate numWorkers Idle,
      mt_processed = replicate numWorkers 0, mt_errors = replicate numWorkers 0,
      mt_mainpc = MtSending js, mt_printed = [], mt_printed_metrics = [],
      mt_panicked = False\<rparr>"

definition mt_worker :: "nat \<Rightarrow> mt_state \<Rightarrow> mt_state" where
  "mt_worker w s =
     (if length (mt_workers s) \<le> w then s
      else case mt_workers s ! w of
        Idle \<Rightarrow>
          (case chan_recv (mt_jobs s) of
             Received job c \<Rightarrow> s\<lparr>mt_jobs := c, mt_workers := (mt_workers s)[w := Busy job]\<rparr>
           | RecvClosed \<Rightarrow>
               (case chan_send (mt_metrics s)
                       \<lparr>JobsProcessed = mt_processed s ! w, Errors = mt_errors s ! w\<rparr> of
                  Sent c \<Rightarrow> s\<lparr>mt_metrics := c, mt_workers := (mt_workers s)[w := Exited]\<rparr>
                | SendBlocks \<Rightarrow> s
                | SendPanics \<Rightarrow> s\<lparr>mt_panicked := True\<rparr>)
           | RecvBlocks \<Rightarrow> s)
      | Busy job \<Rightarrow>
          (if go_rem job 4 = 0
           then s\<lparr>mt_errors := (mt_errors s)[w := mt_errors s ! w + 1],
                  mt_workers := (mt_workers s)[w := Idle]\<rparr>
           else case chan_send (mt_results s) (job * 5) of
                  Sent c \<Rightarrow>
                    s\<lparr>mt_results := c,
                      mt_processed := (mt_processed s)[w := mt_processed s ! w + 1],
                      mt_workers := (mt_workers s)[w := Idle]\<rparr>
                | SendBlocks \<Rightarrow> s
                | SendPanics \<Rightarrow> s\<lparr>mt_panicked := True\<rparr>)
      | Exited \<Rightarrow> s)"

definition mt_main_step :: "nat \<Rightarrow> nat \<Rightarrow> mt_state \<Rightarrow> mt_state" where
  "mt_main_step numWorkers numJobs s =
     (case mt_mainpc s of
        MtSending (job # rest) \<Rightarrow>
          (case chan_send (mt_jobs s) job of
             Sent c \<Rightarrow> s\<lparr>mt_jobs := c, mt_mainpc := MtSending rest\<rparr>
           | SendBlocks \<Rightarrow> s
           | SendPanics \<Rightarrow> s\<lparr>mt_panicked := True\<rparr>)
      | MtSending [] \<Rightarrow>
          (case chan_close (mt_jobs s) of
             Some c \<Rightarrow> s\<lparr>mt_jobs := c, mt_mainpc := MtCollecting numJobs\<rparr>
           | None \<Rightarrow> s\<lparr>mt_panicked := True\<rparr>)
      | MtCollecting (Suc r) \<Rightarrow>
          (case chan_recv (mt_results s) of
             Received res c \<Rightarrow>
               s\<lparr>mt_results := c, mt_printed := mt_printed s @ [res], mt_mainpc := MtCollecting r\<rparr>
           | RecvClosed \<Rightarrow> s\<lparr>mt_printed := mt_printed s @ [0], mt_mainpc := MtCollecting r\<rparr>
           | RecvBlocks \<Rightarrow> s)
      | MtCollecting 0 \<Rightarrow>
          (case chan_close (mt_results s) of
             Some c \<Rightarrow> s\<lparr>mt_results := c, mt_mainpc := MtMetrics numWorkers\<rparr>
           | None \<Rightarrow> s\<lparr>mt_panicked := True\<rparr>)
      | MtMetrics (Suc k) \<Rightarrow>
          (case chan_recv (mt_metrics s) of
             Received m c \<Rightarrow>
               s\<lparr>mt_metrics := c, mt_printed_metrics := mt_printed_metrics s @ [m],
                 mt_mainpc := MtMetrics k\<rparr>
           | RecvClosed \<Rightarrow>
               s\<lparr>mt_printed_metrics := mt_printed_metrics s @ [\<lparr>JobsProcessed = 0, Errors = 0\<rparr>],
                 mt_mainpc := MtMetrics k\<rparr>
           | RecvBlocks \<Rightarrow> s)
      | MtMetrics 0 \<Rightarrow> s\<lparr>mt_mainpc := MtReturned\<rparr>
      | MtReturned \<Rightarrow> s)"

text \<open>
  The timeout branch of the collecting \<^verbatim>\<open>select\<close>.  The timer is started when the
  \<^verbatim>\<open>select\<close> is entered, so it can win only while \<^verbatim>\<open>results\<close> has nothing to receive.
\<close>

definition mt_timeout :: "mt_state \<Rightarrow> mt_state" where
  "mt_timeout s =
     (case mt_mainpc s of
        MtCollecting (Suc r) \<Rightarrow>
          (if buf (mt_results s) = [] then s\<lparr>mt_mainpc := MtCollecting r\<rparr> else s)
      | _ \<Rightarrow> s)"

definition mt_step :: "nat \<Rightarrow> nat \<Rightarrow> mt_state \<Rightarrow> event \<Rightarrow> mt_state" where
  "mt_step numWorkers numJobs s e =
     (if mt_panicked s then s
      else case e of
        MainStep \<Rightarrow> mt_main_step numWorkers numJobs s
      | WorkerStep w \<Rightarrow> mt_worker w s
      | TimerFires \<Rightarrow> mt_timeout s
      | ProducerStep \<Rightarrow> s)"

definition mt_run :: "nat \<Rightarrow> int list \<Rightarrow> event list \<Rightarrow> mt_state" where
  "mt_run numWorkers js sched =
     foldl (mt_step numWorkers (length js)) (mt_init numWorkers js) sched"

definition WorkerPoolWithMetrics :: "event list \<Rightarrow> mt_state" where
  "WorkerPoolWithMetrics sched = mt_run 3 [1, 2, 3, 4, 5, 6, 7, 8, 9] sched"

text \<open>The results a run has put on the stream, and the jobs it still holds.\<close>

fun mt_unsent :: "mt_main \<Rightarrow> int list" where
  "mt_unsent (MtSending js) = js"
| "mt_unsent _ = []"

definition mt_delivered :: "mt_state \<Rightarrow> int multiset" where
  "mt_delivered s = mset (mt_printed s) + mset (buf (mt_results s))"

definition mt_pending :: "mt_state \<Rightarrow> int multiset" where
  "mt_pending s =
     inflight (mt_workers s) + mset (buf (mt_jobs s)) + mset (mt_unsent (mt_mainpc s))"

definition mt_succeeds :: "int \<Rightarrow> bool" where
  "mt_succeeds job \<longleftrightarrow> go_rem job 4 \<noteq> 0"

definition mt_expected :: "int multiset \<Rightarrow> int multiset" where
  "mt_expected js = image_mset (\<lambda>job. job * 5) (filter_mset mt_succeeds js)"

fun mt_before_close :: "mt_main \<Rightarrow> bool" where
  "mt_before_close (MtSending l) = True"
| "mt_before_close (MtCollecting r) = True"
| "mt_before_close _ = False"

definition mt_inv :: "int list \<Rightarrow> mt_state \<Rightarrow> bool" where
  "mt_inv js s \<longleftrightarrow>
     mt_delivered s + mt_expected (mt_pending s) = mt_expected (mset js)
     \<and> (mt_before_close (mt_mainpc s) \<longrightarrow> \<not> closed (mt_results s))"

text \<open>
  One run of the source's constants: main sends the nine jobs and closes \<^verbatim>\<open>jobs\<close>; the
  first worker processes every job; the three workers end; main receives seven results,
  times out twice, closes \<^verbatim>\<open>results\<close>, receives the three metrics and returns.
\<close>

definition mt_schedule :: "event list" where
  "mt_schedule =
     replicate 10 MainStep @ replicate 18 (WorkerStep 0)
       @ [WorkerStep 0, WorkerStep 1, WorkerStep 2]
       @ replicate 7 MainStep @ [TimerFires, TimerFires] @ replicate 5 MainStep"

text \<open>
  A run in which the first worker has taken job 1 when main's nine timers fire and main
  closes \<^verbatim>\<open>results\<close>; the worker then sends on the closed channel.
\<close>

definition mt_early_close_schedule :: "event list" where
  "mt_early_close_schedule =
     replicate 10 MainStep @ [WorkerStep 0] @ replicate 9 TimerFires @ [MainStep, WorkerStep 0]"

section \<open>WorkerPoolWithBatching: one worker's accumulator\<close>

text \<open>
  A worker appends every job it receives to \<^verbatim>\<open>batch\<close>; when the length reaches
  \<^verbatim>\<open>batchSize\<close> it sends the batch and starts a fresh slice.  After the jobs channel is
  closed and drained it sends the residual batch only if \<^verbatim>\<open>len(batch) > 0\<close>.
  \<open>emitted\<close> is the sequence of batches the worker has sent on \<^verbatim>\<open>results\<close>
  (capacity 10, never full for the seven jobs of the source).
\<close>

record batcher =
  batch :: "int list"
  emitted :: "int list list"

definition batch_init :: batcher where
  "batch_init = \<lparr>batch = [], emitted = []\<rparr>"

definition batch_step :: "nat \<Rightarrow> batcher \<Rightarrow> int \<Rightarrow> batcher" where
  "batch_step batchSize s job =
     (let b = batch s @ [job]
      in if length b = batchSize
         then \<lparr>batch = [], emitted = emitted s @ [b]\<rparr>
         else \<lparr>batch = b, emitted = emitted s\<rparr>)"

definition batch_flush :: "batcher \<Rightarrow> int list list" where
  "batch_flush s = (if length (batch s) > 0 then emitted s @ [batch s] else emitted s)"

definition batching_worker :: "nat \<Rightarrow> int list \<Rightarrow> int list list" where
  "batching_worker batchSize js = batch_flush (foldl (batch_step batchSize) batch_init js)"

text \<open>The accumulator is never full between two steps, and every batch sent is in range.\<close>

definition batch_inv :: "nat \<Rightarrow> batcher \<Rightarrow> bool" where
  "batch_inv n s \<longleftrightarrow>
     length (batch s) < n \<and> (\<forall>b \<in> set (emitted s). 0 < length b \<and> length b \<le> n)"

section \<open>WorkerPoolWithPriority\<close>

text \<open>
  \<^verbatim>\<open>type PriorityJob struct { ID int; Priority int; Data string }\<close>.  A worker sends
  \<^verbatim>\<open>fmt.Sprintf("HIGH-%d: %s", job.ID, job.Data)\<close> or the same with \<^verbatim>\<open>LOW\<close>; the text is
  fixed by the lane and the job, which is what \<open>served\<close> records.
\<close>

record PriorityJob =
  pj_ID :: int
  pj_Priority :: int
  pj_Data :: string

datatype lane = High | Low

type_synonym served = "lane \<times> PriorityJob"

text \<open>
  The two channel variables are shared by the workers, and a worker that sees a channel
  closed sets the variable to \<^verbatim>\<open>nil\<close>; a receive from a \<^verbatim>\<open>nil\<close> channel is never ready.
  One iteration of a worker's loop is the outer \<^verbatim>\<open>select\<close> (the high lane, else
  \<^verbatim>\<open>default\<close>) and, in the \<^verbatim>\<open>default\<close> branch, the inner \<^verbatim>\<open>select\<close> (the low lane or a
  50ms timer).  A worker blocked in the inner \<^verbatim>\<open>select\<close> waits on the channel value it
  read when it entered: \<open>WaitingLow True\<close> on the low channel, \<open>WaitingLow False\<close> on
  \<^verbatim>\<open>nil\<close>.  After the iteration the worker returns if both variables are \<^verbatim>\<open>nil\<close>.
  The send on \<^verbatim>\<open>results\<close> (capacity 10, at most six jobs) is taken with the receive
  that precedes it.
\<close>

datatype pq_wstate = AtSelect | WaitingLow bool | Finished

record pq_state =
  pq_highc :: "PriorityJob chan"
  pq_lowc :: "PriorityJob chan"
  pq_high_nil :: bool
  pq_low_nil :: bool
  pq_workers :: "pq_wstate list"
  pq_high_todo :: "PriorityJob list option"
  pq_low_todo :: "PriorityJob list option"
  pq_served :: "served list"
  pq_panicked :: bool



text \<open>The end of an iteration: \<^verbatim>\<open>if highPriorityJobs == nil && lowPriorityJobs == nil { return }\<close>.\<close>

definition pq_end_iteration :: "nat \<Rightarrow> pq_state \<Rightarrow> pq_state" where
  "pq_end_iteration w s =
     s\<lparr>pq_workers := (pq_workers s)[w := (if pq_high_nil s \<and> pq_low_nil s then Finished
                                             else AtSelect)]\<rparr>"

text \<open>The low-lane case of the inner \<^verbatim>\<open>select\<close>, once the low channel is ready.\<close>

definition pq_low_case :: "nat \<Rightarrow> pq_state \<Rightarrow> pq_state option" where
  "pq_low_case w s =
     (case chan_recv (pq_lowc s) of
        Received job c \<Rightarrow>
          Some (pq_end_iteration w (s\<lparr>pq_lowc := c, pq_served := pq_served s @ [(Low, job)]\<rparr>))
      | RecvClosed \<Rightarrow> Some (pq_end_iteration w (s\<lparr>pq_low_nil := True\<rparr>))
      | RecvBlocks \<Rightarrow> None)"

definition pq_inner_select :: "nat \<Rightarrow> pq_state \<Rightarrow> pq_state" where
  "pq_inner_select w s =
     (if pq_low_nil s then s\<lparr>pq_workers := (pq_workers s)[w := WaitingLow False]\<rparr>
      else case pq_low_case w s of
             Some s' \<Rightarrow> s'
           | None \<Rightarrow> s\<lparr>pq_workers := (pq_workers s)[w := WaitingLow True]\<rparr>)"











section \<open>WorkerPoolWithWaitGroup\<close>

text \<open>
  Main adds one to the wait group per worker before it starts the worker, starts a
  producer goroutine that sends the jobs and closes \<^verbatim>\<open>jobs\<close>, waits for the group
  (\<^verbatim>\<open>wg.Wait()\<close>), closes \<^verbatim>\<open>results\<close> and ranges over \<^verbatim>\<open>results\<close>.  A worker sends
  \<^verbatim>\<open>job * job\<close> for every job and calls \<^verbatim>\<open>wg.Done()\<close> (deferred) when its loop ends.
\<close>

datatype wg_main = WgWait | WgClose | WgRange | WgReturned

record wg_state =
  wg_jobs :: "int chan"
  wg_results :: "int chan"
  wg_workers :: "int wstate list"
  wg_count :: nat
  wg_todo :: "int list option"
  wg_mainpc :: wg_main
  wg_printed :: "int list"
  wg_panicked :: bool

definition wg_init :: "nat \<Rightarrow> int list \<Rightarrow> wg_state" where
  "wg_init numWorkers js =
     \<lparr>wg_jobs = make_chan (length js), wg_results = make_chan (length js),
      wg_workers = replicate numWorkers Idle, wg_count = numWorkers,
      wg_todo = Some js, wg_mainpc = WgWait, wg_printed = [], wg_panicked = False\<rparr>"

definition wg_worker :: "nat \<Rightarrow> wg_state \<Rightarrow> wg_state" where
  "wg_worker w s =
     (if length (wg_workers s) \<le> w then s
      else case wg_workers s ! w of
        Idle \<Rightarrow>
          (case chan_recv (wg_jobs s) of
             Received job c \<Rightarrow> s\<lparr>wg_jobs := c, wg_workers := (wg_workers s)[w := Busy job]\<rparr>
           | RecvClosed \<Rightarrow>
               (if wg_count s = 0 then s\<lparr>wg_panicked := True\<rparr>
                else s\<lparr>wg_count := wg_count s - 1, wg_workers := (wg_workers s)[w := Exited]\<rparr>)
           | RecvBlocks \<Rightarrow> s)
      | Busy job \<Rightarrow>
          (case chan_send (wg_results s) (job * job) of
             Sent c \<Rightarrow> s\<lparr>wg_results := c, wg_workers := (wg_workers s)[w := Idle]\<rparr>
           | SendBlocks \<Rightarrow> s
           | SendPanics \<Rightarrow> s\<lparr>wg_panicked := True\<rparr>)
      | Exited \<Rightarrow> s)"

definition wg_producer :: "wg_state \<Rightarrow> wg_state" where
  "wg_producer s =
     (case wg_todo s of
        None \<Rightarrow> s
      | Some [] \<Rightarrow>
          (case chan_close (wg_jobs s) of
             Some c \<Rightarrow> s\<lparr>wg_jobs := c, wg_todo := None\<rparr>
           | None \<Rightarrow> s\<lparr>wg_panicked := True\<rparr>)
      | Some (job # rest) \<Rightarrow>
          (case chan_send (wg_jobs s) job of
             Sent c \<Rightarrow> s\<lparr>wg_jobs := c, wg_todo := Some rest\<rparr>
           | SendBlocks \<Rightarrow> s
           | SendPanics \<Rightarrow> s\<lparr>wg_panicked := True\<rparr>))"

definition wg_main_step :: "wg_state \<Rightarrow> wg_state" where
  "wg_main_step s =
     (case wg_mainpc s of
        WgWait \<Rightarrow> (if wg_count s = 0 then s\<lparr>wg_mainpc := WgClose\<rparr> else s)
      | WgClose \<Rightarrow>
          (case chan_close (wg_results s) of
             Some c \<Rightarrow> s\<lparr>wg_results := c, wg_mainpc := WgRange\<rparr>
           | None \<Rightarrow> s\<lparr>wg_panicked := True\<rparr>)
      | WgRange \<Rightarrow>
          (case chan_recv (wg_results s) of
             Received res c \<Rightarrow> s\<lparr>wg_results := c, wg_printed := wg_printed s @ [res]\<rparr>
           | RecvClosed \<Rightarrow> s\<lparr>wg_mainpc := WgReturned\<rparr>
           | RecvBlocks \<Rightarrow> s)
      | WgReturned \<Rightarrow> s)"

definition wg_step :: "wg_state \<Rightarrow> event \<Rightarrow> wg_state" where
  "wg_step s e =
     (if wg_panicked s then s
      else case e of
        MainStep \<Rightarrow> wg_main_step s
      | WorkerStep w \<Rightarrow> wg_worker w s
      | ProducerStep \<Rightarrow> wg_producer s
      | TimerFires \<Rightarrow> s)"

definition wg_run :: "nat \<Rightarrow> int list \<Rightarrow> event list \<Rightarrow> wg_state" where
  "wg_run numWorkers js sched = foldl wg_step (wg_init numWorkers js) sched"

definition WorkerPoolWithWaitGroup :: "event list \<Rightarrow> wg_state" where
  "WorkerPoolWithWaitGroup sched = wg_run 4 [1, 2, 3, 4, 5, 6, 7, 8] sched"

text \<open>
  A run of the source's constants: the producer sends the eight jobs and closes
  \<^verbatim>\<open>jobs\<close>, the second worker processes them, the four workers end, main closes
  \<^verbatim>\<open>results\<close>, receives the eight results and returns.
\<close>

definition wg_schedule :: "event list" where
  "wg_schedule =
     replicate 9 ProducerStep @ replicate 16 (WorkerStep 1)
       @ [WorkerStep 0, WorkerStep 1, WorkerStep 2, WorkerStep 3] @ replicate 11 MainStep"

fun wg_rank :: "wg_main \<Rightarrow> nat" where
  "wg_rank WgWait = 3"
| "wg_rank WgClose = 2"
| "wg_rank WgRange = 1"
| "wg_rank WgReturned = 0"

definition wg_delivered :: "wg_state \<Rightarrow> int multiset" where
  "wg_delivered s = mset (wg_printed s) + mset (buf (wg_results s))"

definition wg_pending :: "wg_state \<Rightarrow> int multiset" where
  "wg_pending s =
     inflight (wg_workers s) + mset (buf (wg_jobs s)) + mset (remaining (wg_todo s))"

definition wg_measure :: "wg_state \<Rightarrow> nat" where
  "wg_measure s =
     4 * length (remaining (wg_todo s)) + 3 * length (buf (wg_jobs s))
       + 2 * size (inflight (wg_workers s)) + length (buf (wg_results s))
       + live (wg_workers s) + wg_rank (wg_mainpc s) + (if wg_todo s = None then 0 else 1)"

definition wg_inv :: "int list \<Rightarrow> wg_state \<Rightarrow> bool" where
  "wg_inv js s \<longleftrightarrow>
     \<not> wg_panicked s
     \<and> wg_workers s \<noteq> []
     \<and> cap (wg_jobs s) = length js \<and> cap (wg_results s) = length js
     \<and> wg_delivered s + image_mset (\<lambda>j. j * j) (wg_pending s) = image_mset (\<lambda>j. j * j) (mset js)
     \<and> wg_count s = live (wg_workers s)
     \<and> (closed (wg_jobs s) \<longleftrightarrow> wg_todo s = None)
     \<and> (Exited \<in> set (wg_workers s) \<longrightarrow> closed (wg_jobs s) \<and> buf (wg_jobs s) = [])
     \<and> (closed (wg_results s) \<longleftrightarrow> wg_rank (wg_mainpc s) < 2)
     \<and> (wg_rank (wg_mainpc s) < 3 \<longrightarrow> live (wg_workers s) = 0)
     \<and> (wg_rank (wg_mainpc s) = 0 \<longrightarrow> buf (wg_results s) = [])
     \<and> (2 \<le> wg_rank (wg_mainpc s) \<longrightarrow> wg_printed s = [])"

section \<open>FanOutBasic\<close>

text \<open>
  \<^verbatim>\<open>RunAllFanPatternExamples\<close> runs \<^verbatim>\<open>FanOutBasic\<close>.  A producer sends the inputs on
  \<^verbatim>\<open>input\<close> (capacity 10) and closes it.  Each of the fan-out goroutines ranges over
  \<^verbatim>\<open>input\<close>, prints \<^verbatim>\<open>Fan-out k: processing d\<close>, sends \<^verbatim>\<open>d\<close> times its factor on its own
  output channel (capacity 5), and closes that channel when \<^verbatim>\<open>input\<close> is closed and
  drained.  One consumer per output channel prints \<^verbatim>\<open>Output k result: v\<close> for every
  value and calls \<^verbatim>\<open>wg.Done()\<close> when the channel is closed; main waits for the group.
  The source has three lanes with the factors 2, 3 and 4; the model takes the list of
  factors, one lane per factor, lanes counted from 0.  The two logs are the printed
  lines, in the order printed.  The close of a lane's output follows the end of its loop
  at once (nothing can block or intervene there), and is taken with it.
\<close>

datatype fo_event = FoProducer | FoRouter nat | FoConsumer nat | FoMain

record fo_state =
  fo_input :: "int chan"
  fo_outputs :: "int chan list"
  fo_routers :: "int wstate list"
  fo_todo :: "int list option"
  fo_done :: "bool list"
  fo_wg :: nat
  fo_returned :: bool
  fo_processing :: "(nat \<times> int) list"
  fo_printed :: "(nat \<times> int) list"
  fo_panicked :: bool

definition fo_init :: "int list \<Rightarrow> int list \<Rightarrow> fo_state" where
  "fo_init factors js =
     \<lparr>fo_input = make_chan 10, fo_outputs = replicate (length factors) (make_chan 5),
      fo_routers = replicate (length factors) Idle, fo_todo = Some js,
      fo_done = replicate (length factors) False, fo_wg = length factors,
      fo_returned = False, fo_processing = [], fo_printed = [], fo_panicked = False\<rparr>"

definition fo_producer :: "fo_state \<Rightarrow> fo_state" where
  "fo_producer s =
     (case fo_todo s of
        None \<Rightarrow> s
      | Some [] \<Rightarrow>
          (case chan_close (fo_input s) of
             Some c \<Rightarrow> s\<lparr>fo_input := c, fo_todo := None\<rparr>
           | None \<Rightarrow> s\<lparr>fo_panicked := True\<rparr>)
      | Some (d # rest) \<Rightarrow>
          (case chan_send (fo_input s) d of
             Sent c \<Rightarrow> s\<lparr>fo_input := c, fo_todo := Some rest\<rparr>
           | SendBlocks \<Rightarrow> s
           | SendPanics \<Rightarrow> s\<lparr>fo_panicked := True\<rparr>))"

definition fo_router :: "int list \<Rightarrow> nat \<Rightarrow> fo_state \<Rightarrow> fo_state" where
  "fo_router factors k s =
     (if length (fo_routers s) \<le> k then s
      else case fo_routers s ! k of
        Idle \<Rightarrow>
          (case chan_recv (fo_input s) of
             Received d c \<Rightarrow>
               s\<lparr>fo_input := c, fo_routers := (fo_routers s)[k := Busy d],
                 fo_processing := fo_processing s @ [(k, d)]\<rparr>
           | RecvClosed \<Rightarrow>
               (case chan_close (fo_outputs s ! k) of
                  Some c \<Rightarrow>
                    s\<lparr>fo_outputs := (fo_outputs s)[k := c],
                      fo_routers := (fo_routers s)[k := Exited]\<rparr>
                | None \<Rightarrow> s\<lparr>fo_panicked := True\<rparr>)
           | RecvBlocks \<Rightarrow> s)
      | Busy d \<Rightarrow>
          (case chan_send (fo_outputs s ! k) (d * factors ! k) of
             Sent c \<Rightarrow>
               s\<lparr>fo_outputs := (fo_outputs s)[k := c], fo_routers := (fo_routers s)[k := Idle]\<rparr>
           | SendBlocks \<Rightarrow> s
           | SendPanics \<Rightarrow> s\<lparr>fo_panicked := True\<rparr>)
      | Exited \<Rightarrow> s)"

definition fo_consumer :: "nat \<Rightarrow> fo_state \<Rightarrow> fo_state" where
  "fo_consumer k s =
     (if length (fo_done s) \<le> k \<or> fo_done s ! k then s
      else case chan_recv (fo_outputs s ! k) of
        Received v c \<Rightarrow>
          s\<lparr>fo_outputs := (fo_outputs s)[k := c], fo_printed := fo_printed s @ [(k, v)]\<rparr>
      | RecvClosed \<Rightarrow>
          (if fo_wg s = 0 then s\<lparr>fo_panicked := True\<rparr>
           else s\<lparr>fo_done := (fo_done s)[k := True], fo_wg := fo_wg s - 1\<rparr>)
      | RecvBlocks \<Rightarrow> s)"

definition fo_main :: "fo_state \<Rightarrow> fo_state" where
  "fo_main s = (if fo_wg s = 0 then s\<lparr>fo_returned := True\<rparr> else s)"

definition fo_step :: "int list \<Rightarrow> fo_state \<Rightarrow> fo_event \<Rightarrow> fo_state" where
  "fo_step factors s e =
     (if fo_panicked s then s
      else case e of
        FoProducer \<Rightarrow> fo_producer s
      | FoRouter k \<Rightarrow> fo_router factors k s
      | FoConsumer k \<Rightarrow> fo_consumer k s
      | FoMain \<Rightarrow> fo_main s)"

definition fo_run :: "int list \<Rightarrow> int list \<Rightarrow> fo_event list \<Rightarrow> fo_state" where
  "fo_run factors js sched = foldl (fo_step factors) (fo_init factors js) sched"

definition FanOutBasic :: "fo_event list \<Rightarrow> fo_state" where
  "FanOutBasic sched = fo_run [2, 3, 4] [1, 2, 3, 4, 5, 6] sched"

text \<open>The jobs lane \<open>k\<close> has taken from the input, and the values read from its output.\<close>

definition fo_lane :: "nat \<Rightarrow> (nat \<times> int) list \<Rightarrow> int list" where
  "fo_lane k log = map snd (filter (\<lambda>x. fst x = k) log)"

text \<open>
  A run of the source's constants in which the first lane takes jobs 1 and 4, the second
  jobs 2 and 5, the third jobs 3 and 6; then every value is read and main returns.
\<close>

definition fo_schedule :: "fo_event list" where
  "fo_schedule =
     replicate 7 FoProducer
       @ [FoRouter 0, FoRouter 1, FoRouter 2, FoRouter 0, FoRouter 1, FoRouter 2,
          FoRouter 0, FoRouter 1, FoRouter 2, FoRouter 0, FoRouter 1, FoRouter 2,
          FoRouter 0, FoRouter 1, FoRouter 2]
       @ [FoConsumer 0, FoConsumer 0, FoConsumer 0, FoConsumer 1, FoConsumer 1, FoConsumer 1,
          FoConsumer 2, FoConsumer 2, FoConsumer 2, FoMain]"

text \<open>What the proofs speak of.\<close>

fun held :: "int wstate \<Rightarrow> int \<Rightarrow> int list" where
  "held (Busy d) m = [d * m]"
| "held _ m = []"

definition fo_buffered :: "fo_state \<Rightarrow> nat" where
  "fo_buffered s = sum_list (map (\<lambda>c. length (buf c)) (fo_outputs s))"

definition fo_waiting :: "bool list \<Rightarrow> nat" where
  "fo_waiting ds = sum_list (map (\<lambda>b. if b then 0 else 1) ds)"

definition fo_measure :: "fo_state \<Rightarrow> nat" where
  "fo_measure s =
     4 * length (remaining (fo_todo s)) + 3 * length (buf (fo_input s))
       + 2 * size (inflight (fo_routers s)) + fo_buffered s + live (fo_routers s)
       + (if fo_todo s = None then 0 else 1) + fo_waiting (fo_done s)
       + (if fo_returned s then 0 else 1)"

definition fo_lane_inv :: "int list \<Rightarrow> fo_state \<Rightarrow> nat \<Rightarrow> bool" where
  "fo_lane_inv factors s k \<longleftrightarrow>
     fo_lane k (fo_printed s) @ buf (fo_outputs s ! k) @ held (fo_routers s ! k) (factors ! k)
       = map (\<lambda>d. d * factors ! k) (fo_lane k (fo_processing s))
     \<and> cap (fo_outputs s ! k) = 5
     \<and> (closed (fo_outputs s ! k) \<longleftrightarrow> fo_routers s ! k = Exited)
     \<and> (fo_done s ! k \<longrightarrow> closed (fo_outputs s ! k) \<and> buf (fo_outputs s ! k) = [])"

definition fo_inv :: "int list \<Rightarrow> int list \<Rightarrow> fo_state \<Rightarrow> bool" where
  "fo_inv factors js s \<longleftrightarrow>
     \<not> fo_panicked s
     \<and> factors \<noteq> []
     \<and> length (fo_outputs s) = length factors \<and> length (fo_routers s) = length factors
     \<and> length (fo_done s) = length factors
     \<and> cap (fo_input s) = 10
     \<and> mset (map snd (fo_processing s)) + mset (buf (fo_input s)) + mset (remaining (fo_todo s))
         = mset js
     \<and> (\<forall>k < length factors. fo_lane_inv factors s k)
     \<and> (closed (fo_input s) \<longleftrightarrow> fo_todo s = None)
     \<and> (Exited \<in> set (fo_routers s) \<longrightarrow> closed (fo_input s) \<and> buf (fo_input s) = [])
     \<and> fo_wg s = fo_waiting (fo_done s)
     \<and> (fo_returned s \<longrightarrow> fo_wg s = 0)
     \<and> (\<forall>x \<in> set (fo_processing s). fst x < length factors)"

section \<open>WorkerPoolWithDynamicScaling\<close>

text \<open>
  \<^verbatim>\<open>startWorker\<close> adds one to \<^verbatim>\<open>workerCount\<close> under the mutex when it starts to run,
  ranges over \<^verbatim>\<open>jobs\<close> sending \<^verbatim>\<open>job * 6\<close>, and (deferred) takes one from
  \<^verbatim>\<open>workerCount\<close> under the mutex when it ends.  A worker that has been started with
  \<^verbatim>\<open>go startWorker(...)\<close> and has not yet taken the mutex is \<open>DsSpawned\<close>.  Two workers
  are started at the beginning.  The producer sends job \<open>j\<close>, then under the mutex
  starts one more worker if \<^verbatim>\<open>workerCount < maxWorkers && j%3 == 0\<close>, and closes \<^verbatim>\<open>jobs\<close>
  after the last job.  Each section under the mutex is one step.  The worker's id is
  only printed.  The end of a worker's loop and its deferred decrement are one step.
\<close>

datatype ds_wstate = DsSpawned | DsIdle | DsBusy int | DsExited

datatype ds_producer = DsSend "int list" | DsScale int "int list" | DsFinished

datatype ds_event = DsProducer | DsWorker nat | DsMain

record ds_state =
  ds_jobs :: "int chan"
  ds_results :: "int chan"
  ds_workerCount :: int
  ds_workers :: "ds_wstate list"
  ds_producerpc :: ds_producer
  ds_collect :: nat
  ds_printed :: "int list"
  ds_panicked :: bool

definition ds_init :: "int list \<Rightarrow> ds_state" where
  "ds_init js =
     \<lparr>ds_jobs = make_chan (length js), ds_results = make_chan (length js),
      ds_workerCount = 0, ds_workers = [DsSpawned, DsSpawned],
      ds_producerpc = DsSend js, ds_collect = length js, ds_printed = [],
      ds_panicked = False\<rparr>"

definition ds_worker :: "nat \<Rightarrow> ds_state \<Rightarrow> ds_state" where
  "ds_worker w s =
     (if length (ds_workers s) \<le> w then s
      else case ds_workers s ! w of
        DsSpawned \<Rightarrow>
          s\<lparr>ds_workerCount := ds_workerCount s + 1, ds_workers := (ds_workers s)[w := DsIdle]\<rparr>
      | DsIdle \<Rightarrow>
          (case chan_recv (ds_jobs s) of
             Received job c \<Rightarrow> s\<lparr>ds_jobs := c, ds_workers := (ds_workers s)[w := DsBusy job]\<rparr>
           | RecvClosed \<Rightarrow>
               s\<lparr>ds_workerCount := ds_workerCount s - 1,
                 ds_workers := (ds_workers s)[w := DsExited]\<rparr>
           | RecvBlocks \<Rightarrow> s)
      | DsBusy job \<Rightarrow>
          (case chan_send (ds_results s) (job * 6) of
             Sent c \<Rightarrow> s\<lparr>ds_results := c, ds_workers := (ds_workers s)[w := DsIdle]\<rparr>
           | SendBlocks \<Rightarrow> s
           | SendPanics \<Rightarrow> s\<lparr>ds_panicked := True\<rparr>)
      | DsExited \<Rightarrow> s)"

definition ds_producer_step :: "int \<Rightarrow> ds_state \<Rightarrow> ds_state" where
  "ds_producer_step maxWorkers s =
     (case ds_producerpc s of
        DsSend (j # rest) \<Rightarrow>
          (case chan_send (ds_jobs s) j of
             Sent c \<Rightarrow> s\<lparr>ds_jobs := c, ds_producerpc := DsScale j rest\<rparr>
           | SendBlocks \<Rightarrow> s
           | SendPanics \<Rightarrow> s\<lparr>ds_panicked := True\<rparr>)
      | DsScale j rest \<Rightarrow>
          (if ds_workerCount s < maxWorkers \<and> go_rem j 3 = 0
           then s\<lparr>ds_workers := ds_workers s @ [DsSpawned], ds_producerpc := DsSend rest\<rparr>
           else s\<lparr>ds_producerpc := DsSend rest\<rparr>)
      | DsSend [] \<Rightarrow>
          (case chan_close (ds_jobs s) of
             Some c \<Rightarrow> s\<lparr>ds_jobs := c, ds_producerpc := DsFinished\<rparr>
           | None \<Rightarrow> s\<lparr>ds_panicked := True\<rparr>)
      | DsFinished \<Rightarrow> s)"

definition ds_main :: "ds_state \<Rightarrow> ds_state" where
  "ds_main s =
     (case ds_collect s of
        0 \<Rightarrow> s
      | Suc r \<Rightarrow>
          (case chan_recv (ds_results s) of
             Received res c \<Rightarrow>
               s\<lparr>ds_results := c, ds_printed := ds_printed s @ [res], ds_collect := r\<rparr>
           | RecvClosed \<Rightarrow> s\<lparr>ds_printed := ds_printed s @ [0], ds_collect := r\<rparr>
           | RecvBlocks \<Rightarrow> s))"

definition ds_step :: "int \<Rightarrow> ds_state \<Rightarrow> ds_event \<Rightarrow> ds_state" where
  "ds_step maxWorkers s e =
     (if ds_panicked s then s
      else case e of
        DsProducer \<Rightarrow> ds_producer_step maxWorkers s
      | DsWorker w \<Rightarrow> ds_worker w s
      | DsMain \<Rightarrow> ds_main s)"

definition ds_run :: "int \<Rightarrow> int list \<Rightarrow> ds_event list \<Rightarrow> ds_state" where
  "ds_run maxWorkers js sched = foldl (ds_step maxWorkers) (ds_init js) sched"

definition WorkerPoolWithDynamicScaling :: "ds_event list \<Rightarrow> ds_state" where
  "WorkerPoolWithDynamicScaling sched =
     ds_run 5 [1, 2, 3, 4, 5, 6, 7, 8, 9, 10, 11, 12, 13, 14, 15] sched"

text \<open>
  A run in which no worker gets to run before the producer has sent all fifteen jobs
  (thirty producer steps), and then the seven workers started so far register.
\<close>

definition ds_schedule :: "ds_event list" where
  "ds_schedule = replicate 30 DsProducer @ map DsWorker [0, 1, 2, 3, 4, 5, 6]"

text \<open>
  A run in which every worker registers before the producer's next step: the two
  initial workers, then after each scaling step the worker it started, if any.
\<close>

definition ds_prompt_schedule :: "ds_event list" where
  "ds_prompt_schedule =
     [DsWorker 0, DsWorker 1]
       @ concat (map (\<lambda>w. [DsProducer, DsProducer, DsWorker w])
           [2, 2, 2, 3, 3, 3, 4, 4, 4, 4, 4, 4, 4, 4, 4])"

text \<open>The workers that have registered and not ended, and those started but not registered.\<close>

fun ds_is_active :: "ds_wstate \<Rightarrow> int" where
  "ds_is_active DsIdle = 1"
| "ds_is_active (DsBusy j) = 1"
| "ds_is_active DsSpawned = 0"
| "ds_is_active DsExited = 0"

fun ds_is_spawned :: "ds_wstate \<Rightarrow> int" where
  "ds_is_spawned DsSpawned = 1"
| "ds_is_spawned w = 0"

definition ds_active :: "ds_wstate list \<Rightarrow> int" where
  "ds_active ws = sum_list (map ds_is_active ws)"

definition ds_spawned :: "ds_wstate list \<Rightarrow> int" where
  "ds_spawned ws = sum_list (map ds_is_spawned ws)"

text \<open>
  A schedule is prompt when, at every scaling step that could start a worker
  (\<^verbatim>\<open>j%3 == 0\<close>), every worker started before has registered.
\<close>

fun ds_prompt :: "int \<Rightarrow> ds_state \<Rightarrow> ds_event list \<Rightarrow> bool" where
  "ds_prompt maxWorkers s [] = True"
| "ds_prompt maxWorkers s (e # es) =
     ((case (e, ds_producerpc s) of
         (DsProducer, DsScale j rest) \<Rightarrow> go_rem j 3 = 0 \<longrightarrow> ds_spawned (ds_workers s) = 0
       | _ \<Rightarrow> True)
      \<and> ds_prompt maxWorkers (ds_step maxWorkers s e) es)"

section \<open>ChannelCloseDetection\<close>

text \<open>
  The channel is unbuffered: a send completes only together with a receive, so a value
  passes from the sender blocked in its send to the receiver in one step, whichever of
  the two is scheduled.  The goroutine sends its values (1, 2, 3 in the source) and
  closes the channel.  Main loops on \<^verbatim>\<open>value, ok := <-ch\<close>: it prints \<^verbatim>\<open>Received: value\<close>,
  or prints \<^verbatim>\<open>Channel is closed\<close> and breaks when \<^verbatim>\<open>ok\<close> is false.
\<close>

datatype cc_line = ReceivedLine int | ChannelIsClosed

record cc_state =
  cc_ch :: "int chan"
  cc_todo :: "int list option"
  cc_output :: "cc_line list"
  cc_done :: bool
  cc_panicked :: bool

definition cc_init :: "int list \<Rightarrow> cc_state" where
  "cc_init xs =
     \<lparr>cc_ch = make_chan 0, cc_todo = Some xs, cc_output = [], cc_done = False,
      cc_panicked = False\<rparr>"

text \<open>The value passes: the sender moves on and main prints the value.\<close>

definition cc_handoff :: "int \<Rightarrow> int list \<Rightarrow> cc_state \<Rightarrow> cc_state" where
  "cc_handoff v rest s = s\<lparr>cc_todo := Some rest, cc_output := cc_output s @ [ReceivedLine v]\<rparr>"

definition cc_main :: "cc_state \<Rightarrow> cc_state" where
  "cc_main s =
     (if cc_done s then s
      else case chan_recv (cc_ch s) of
        Received v c \<Rightarrow> s\<lparr>cc_ch := c, cc_output := cc_output s @ [ReceivedLine v]\<rparr>
      | RecvClosed \<Rightarrow> s\<lparr>cc_output := cc_output s @ [ChannelIsClosed], cc_done := True\<rparr>
      | RecvBlocks \<Rightarrow>
          (case cc_todo s of
             Some (v # rest) \<Rightarrow> cc_handoff v rest s
           | _ \<Rightarrow> s))"

definition cc_sender :: "cc_state \<Rightarrow> cc_state" where
  "cc_sender s =
     (case cc_todo s of
        None \<Rightarrow> s
      | Some [] \<Rightarrow>
          (case chan_close (cc_ch s) of
             Some c \<Rightarrow> s\<lparr>cc_ch := c, cc_todo := None\<rparr>
           | None \<Rightarrow> s\<lparr>cc_panicked := True\<rparr>)
      | Some (v # rest) \<Rightarrow>
          (if closed (cc_ch s) then s\<lparr>cc_panicked := True\<rparr>
           else if cc_done s then s
           else cc_handoff v rest s))"

definition cc_step :: "cc_state \<Rightarrow> event \<Rightarrow> cc_state" where
  "cc_step s e =
     (if cc_panicked s then s
      else case e of
        MainStep \<Rightarrow> cc_main s
      | ProducerStep \<Rightarrow> cc_sender s
      | _ \<Rightarrow> s)"

definition cc_run :: "int list \<Rightarrow> event list \<Rightarrow> cc_state" where
  "cc_run xs sched = foldl cc_step (cc_init xs) sched"

definition ChannelCloseDetection :: "event list \<Rightarrow> cc_state" where
  "ChannelCloseDetection sched = cc_run [1, 2, 3] sched"

text \<open>
  A run of the source's constants: the three values pass (the first and third when main
  is scheduled, the second when the sender is), the sender closes, main breaks.
\<close>

definition cc_schedule :: "event list" where
  "cc_schedule = [MainStep, ProducerStep, MainStep, ProducerStep, MainStep]"

definition cc_measure :: "cc_state \<Rightarrow> nat" where
  "cc_measure s =
     length (remaining (cc_todo s)) + (if cc_todo s = None then 0 else 1)
       + (if cc_done s then 0 else 1)"

definition cc_inv :: "int list \<Rightarrow> cc_state \<Rightarrow> bool" where
  "cc_inv xs s \<longleftrightarrow>
     \<not> cc_panicked s
     \<and> buf (cc_ch s) = []
     \<and> (closed (cc_ch s) \<longleftrightarrow> cc_todo s = None)
     \<and> (cc_done s \<longrightarrow> closed (cc_ch s))
     \<and> (\<exists>ys. xs = ys @ remaining (cc_todo s)
            \<and> cc_output s = map ReceivedLine ys @ (if cc_done s then [ChannelIsClosed] else []))"

section \<open>GoroutineWithPanicRecovery\<close>

text \<open>
  Main adds one to the wait group and starts a goroutine that defers \<^verbatim>\<open>wg.Done()\<close>, defers
  a function that calls \<^verbatim>\<open>recover()\<close>, prints \<^verbatim>\<open>Goroutine starting...\<close> and panics with
  \<^verbatim>\<open>"Something went wrong!"\<close>.  When a goroutine panics its deferred functions run, last
  deferred first; \<^verbatim>\<open>recover()\<close> in a deferred function returns the panic value and ends
  the panic (it returns \<^verbatim>\<open>nil\<close> when there is none); the function that panicked does
  not go on after the point of the panic: once its deferred functions have run it
  returns.  Main waits for the group and prints its last line.  The header line printed
  first is left out of \<open>pr_output\<close>.
\<close>

datatype pr_pc = PrStart | PrPanicking string | PrRecovered | PrEnded

record pr_state =
  pr_goroutine :: pr_pc
  pr_wg :: nat
  pr_maindone :: bool
  pr_output :: "string list"
  pr_panicked :: bool

definition pr_init :: pr_state where
  "pr_init =
     \<lparr>pr_goroutine = PrStart, pr_wg = 1, pr_maindone = False, pr_output = [],
      pr_panicked = False\<rparr>"

text \<open>The deferred function: \<^verbatim>\<open>if r := recover(); r != nil { fmt.Printf(...) }\<close>.\<close>

definition pr_recover :: "string option \<Rightarrow> string list" where
  "pr_recover r = (case r of Some msg \<Rightarrow> [''Recovered from panic: '' @ msg] | None \<Rightarrow> [])"

definition pr_goroutine_step :: "pr_state \<Rightarrow> pr_state" where
  "pr_goroutine_step s =
     (case pr_goroutine s of
        PrStart \<Rightarrow>
          s\<lparr>pr_output := pr_output s @ [''Goroutine starting...''],
            pr_goroutine := PrPanicking ''Something went wrong!''\<rparr>
      | PrPanicking msg \<Rightarrow>
          s\<lparr>pr_output := pr_output s @ pr_recover (Some msg), pr_goroutine := PrRecovered\<rparr>
      | PrRecovered \<Rightarrow>
          (if pr_wg s = 0 then s\<lparr>pr_panicked := True\<rparr>
           else s\<lparr>pr_wg := pr_wg s - 1, pr_goroutine := PrEnded\<rparr>)
      | PrEnded \<Rightarrow> s)"

definition pr_main_step :: "pr_state \<Rightarrow> pr_state" where
  "pr_main_step s =
     (if \<not> pr_maindone s \<and> pr_wg s = 0
      then s\<lparr>pr_output := pr_output s @ [''Main function continues after panic recovery''],
             pr_maindone := True\<rparr>
      else s)"

definition pr_step :: "pr_state \<Rightarrow> event \<Rightarrow> pr_state" where
  "pr_step s e =
     (if pr_panicked s then s
      else case e of
        MainStep \<Rightarrow> pr_main_step s
      | WorkerStep w \<Rightarrow> (if w = 0 then pr_goroutine_step s else s)
      | _ \<Rightarrow> s)"

definition GoroutineWithPanicRecovery :: "event list \<Rightarrow> pr_state" where
  "GoroutineWithPanicRecovery sched = foldl pr_step pr_init sched"

definition pr_schedule :: "event list" where
  "pr_schedule = [WorkerStep 0, WorkerStep 0, WorkerStep 0, MainStep]"

fun pr_rank :: "pr_pc \<Rightarrow> nat" where
  "pr_rank PrStart = 3"
| "pr_rank (PrPanicking msg) = 2"
| "pr_rank PrRecovered = 1"
| "pr_rank PrEnded = 0"

definition pr_measure :: "pr_state \<Rightarrow> nat" where
  "pr_measure s = pr_rank (pr_goroutine s) + (if pr_maindone s then 0 else 1)"

definition pr_lines :: "string list" where
  "pr_lines =
     [''Goroutine starting...'', ''Recovered from panic: Something went wrong!'',
      ''Main function continues after panic recovery'']"

definition pr_inv :: "pr_state \<Rightarrow> bool" where
  "pr_inv s \<longleftrightarrow>
     \<not> pr_panicked s
     \<and> (case pr_goroutine s of
           PrStart \<Rightarrow> pr_wg s = 1 \<and> pr_output s = [] \<and> \<not> pr_maindone s
         | PrPanicking msg \<Rightarrow>
             msg = ''Something went wrong!'' \<and> pr_wg s = 1 \<and> pr_output s = take 1 pr_lines
             \<and> \<not> pr_maindone s
         | PrRecovered \<Rightarrow> pr_wg s = 1 \<and> pr_output s = take 2 pr_lines \<and> \<not> pr_maindone s
         | PrEnded \<Rightarrow>
             pr_wg s = 0 \<and> pr_output s = (if pr_maindone s then pr_lines else take 2 pr_lines))"

section \<open>WaitGroupWithPanicRecovery\<close>

text \<open>
  Main runs \<^verbatim>\<open>for i := 1; i <= 3; i++\<close>, in each round adding one to the wait group and
  starting a goroutine with \<^verbatim>\<open>id = i\<close>; then it waits for the group and prints its last
  line.  A goroutine defers \<^verbatim>\<open>wg.Done()\<close>, defers a function that calls \<^verbatim>\<open>recover()\<close>,
  prints that it starts, panics with \<^verbatim>\<open>"Something went wrong!"\<close> if \<^verbatim>\<open>id == 2\<close>, and
  otherwise sleeps, prints that it finished and returns.  Whether the function panics or
  returns, its deferred functions run, last deferred first: the recovering function,
  in which \<^verbatim>\<open>recover()\<close> yields the panic value, or \<^verbatim>\<open>nil\<close> when there is no panic,
  and then \<^verbatim>\<open>wg.Done()\<close>.  The header line printed first is left out of \<open>wr_output\<close>.
\<close>

text \<open>The lines printed, with the goroutine's \<^verbatim>\<open>id\<close> and the recovered value.\<close>

datatype wr_line =
  WrStarting int | WrFinished int | WrRecoveredFromPanic int string | WrAllCompleted

text \<open>
  A goroutine is at its first statement, in its \<^verbatim>\<open>time.Sleep\<close>, leaving its function
  with the recovering function still to run (with the panic value, if it panicked),
  about to call \<^verbatim>\<open>wg.Done()\<close>, or ended.
\<close>

datatype wr_pc = WrStart | WrSleeping | WrLeaving "string option" | WrDone | WrEnded

datatype wr_main = WrSpawning int | WrWaiting | WrReturned

record wr_state =
  wr_goroutines :: "(int \<times> wr_pc) list"
  wr_wg :: nat
  wr_mainpc :: wr_main
  wr_output :: "wr_line list"
  wr_panicked :: bool

definition wr_init :: wr_state where
  "wr_init =
     \<lparr>wr_goroutines = [], wr_wg = 0, wr_mainpc = WrSpawning 1, wr_output = [],
      wr_panicked = False\<rparr>"

text \<open>The deferred function: \<^verbatim>\<open>if r := recover(); r != nil { fmt.Printf(...) }\<close>.\<close>

definition wr_recover :: "int \<Rightarrow> string option \<Rightarrow> wr_line list" where
  "wr_recover gid r = (case r of Some msg \<Rightarrow> [WrRecoveredFromPanic gid msg] | None \<Rightarrow> [])"

text \<open>
  One step of the goroutine at position \<open>w\<close>.  \<^verbatim>\<open>wg.Done()\<close> on a counter that is zero
  panics, in a deferred function that nothing recovers.
\<close>

definition wr_goroutine_step :: "nat \<Rightarrow> wr_state \<Rightarrow> wr_state" where
  "wr_goroutine_step w s =
     (if length (wr_goroutines s) \<le> w then s
      else case wr_goroutines s ! w of
        (gid, WrStart) \<Rightarrow>
          s\<lparr>wr_output := wr_output s @ [WrStarting gid],
            wr_goroutines := (wr_goroutines s)
              [w := (gid, if gid = 2 then WrLeaving (Some ''Something went wrong!'')
                         else WrSleeping)]\<rparr>
      | (gid, WrSleeping) \<Rightarrow>
          s\<lparr>wr_output := wr_output s @ [WrFinished gid],
            wr_goroutines := (wr_goroutines s)[w := (gid, WrLeaving None)]\<rparr>
      | (gid, WrLeaving r) \<Rightarrow>
          s\<lparr>wr_output := wr_output s @ wr_recover gid r,
            wr_goroutines := (wr_goroutines s)[w := (gid, WrDone)]\<rparr>
      | (gid, WrDone) \<Rightarrow>
          (if wr_wg s = 0 then s\<lparr>wr_panicked := True\<rparr>
           else s\<lparr>wr_wg := wr_wg s - 1,
                  wr_goroutines := (wr_goroutines s)[w := (gid, WrEnded)]\<rparr>)
      | (gid, WrEnded) \<Rightarrow> s)"

definition wr_main_step :: "wr_state \<Rightarrow> wr_state" where
  "wr_main_step s =
     (case wr_mainpc s of
        WrSpawning i \<Rightarrow>
          (if i \<le> 3
           then s\<lparr>wr_wg := wr_wg s + 1, wr_goroutines := wr_goroutines s @ [(i, WrStart)],
                  wr_mainpc := WrSpawning (i + 1)\<rparr>
           else s\<lparr>wr_mainpc := WrWaiting\<rparr>)
      | WrWaiting \<Rightarrow>
          (if wr_wg s = 0
           then s\<lparr>wr_output := wr_output s @ [WrAllCompleted], wr_mainpc := WrReturned\<rparr>
           else s)
      | WrReturned \<Rightarrow> s)"

text \<open>An unrecovered panic ends the program: no goroutine takes a further step.\<close>

definition wr_step :: "wr_state \<Rightarrow> event \<Rightarrow> wr_state" where
  "wr_step s e =
     (if wr_panicked s then s
      else case e of
        MainStep \<Rightarrow> wr_main_step s
      | WorkerStep w \<Rightarrow> wr_goroutine_step w s
      | _ \<Rightarrow> s)"

definition WaitGroupWithPanicRecovery :: "event list \<Rightarrow> wr_state" where
  "WaitGroupWithPanicRecovery sched = foldl wr_step wr_init sched"

text \<open>
  One run: main starts the three goroutines; the second starts, panics, recovers and
  ends; the first and the third start, sleep, finish and end; main returns.
\<close>

definition wr_schedule :: "event list" where
  "wr_schedule =
     replicate 4 MainStep @ replicate 3 (WorkerStep 1) @ replicate 4 (WorkerStep 0)
       @ replicate 4 (WorkerStep 2) @ [MainStep]"

text \<open>
  What the proofs speak of: the lines a goroutine has printed when it is at a point of
  its code, the goroutines that have not ended, and a bound on the steps still possible.
\<close>

fun wr_printed :: "int \<times> wr_pc \<Rightarrow> wr_line multiset" where
  "wr_printed (gid, WrStart) = {#}"
| "wr_printed (gid, WrSleeping) = {#WrStarting gid#}"
| "wr_printed (gid, WrLeaving (Some msg)) = {#WrStarting gid#}"
| "wr_printed (gid, WrLeaving None) = {#WrStarting gid, WrFinished gid#}"
| "wr_printed (gid, WrDone) =
     (if gid = 2 then {#WrStarting gid, WrRecoveredFromPanic gid ''Something went wrong!''#}
      else {#WrStarting gid, WrFinished gid#})"
| "wr_printed (gid, WrEnded) =
     (if gid = 2 then {#WrStarting gid, WrRecoveredFromPanic gid ''Something went wrong!''#}
      else {#WrStarting gid, WrFinished gid#})"

fun wr_ok :: "int \<times> wr_pc \<Rightarrow> bool" where
  "wr_ok (gid, WrSleeping) \<longleftrightarrow> gid \<noteq> 2"
| "wr_ok (gid, WrLeaving r) \<longleftrightarrow> r = (if gid = 2 then Some ''Something went wrong!'' else None)"
| "wr_ok (gid, pc) \<longleftrightarrow> True"

fun wr_alive :: "int \<times> wr_pc \<Rightarrow> nat" where
  "wr_alive (gid, WrEnded) = 0"
| "wr_alive (gid, pc) = 1"

fun wr_rank :: "int \<times> wr_pc \<Rightarrow> nat" where
  "wr_rank (gid, WrStart) = 4"
| "wr_rank (gid, WrSleeping) = 3"
| "wr_rank (gid, WrLeaving r) = 2"
| "wr_rank (gid, WrDone) = 1"
| "wr_rank (gid, WrEnded) = 0"

fun wr_main_rank :: "wr_main \<Rightarrow> nat" where
  "wr_main_rank (WrSpawning i) = 5 * nat (4 - i) + 2"
| "wr_main_rank WrWaiting = 1"
| "wr_main_rank WrReturned = 0"

definition wr_measure :: "wr_state \<Rightarrow> nat" where
  "wr_measure s = wr_main_rank (wr_mainpc s) + sum_list (map wr_rank (wr_goroutines s))"

fun wr_main_inv :: "wr_main \<Rightarrow> (int \<times> wr_pc) list \<Rightarrow> bool" where
  "wr_main_inv (WrSpawning i) gs \<longleftrightarrow> 1 \<le> i \<and> i \<le> 4 \<and> map fst gs = [1..i - 1]"
| "wr_main_inv WrWaiting gs \<longleftrightarrow> map fst gs = [1, 2, 3]"
| "wr_main_inv WrReturned gs \<longleftrightarrow> map fst gs = [1, 2, 3]"

definition wr_inv :: "wr_state \<Rightarrow> bool" where
  "wr_inv s \<longleftrightarrow>
     \<not> wr_panicked s
     \<and> wr_main_inv (wr_mainpc s) (wr_goroutines s)
     \<and> list_all wr_ok (wr_goroutines s)
     \<and> wr_wg s = sum_list (map wr_alive (wr_goroutines s))
     \<and> mset (wr_output s)
        = sum_list (map wr_printed (wr_goroutines s))
          + (if wr_mainpc s = WrReturned then {#WrAllCompleted#} else {#})
     \<and> (wr_mainpc s = WrReturned
        \<longrightarrow> wr_wg s = 0 \<and> wr_output s \<noteq> [] \<and> last (wr_output s) = WrAllCompleted)"

text \<open>The lines of a complete run, in any order.\<close>

definition wr_lines :: "wr_line multiset" where
  "wr_lines =
     {#WrStarting 1, WrFinished 1, WrStarting 2,
       WrRecoveredFromPanic 2 ''Something went wrong!'', WrStarting 3, WrFinished 3,
       WrAllCompleted#}"

section \<open>Cancellation tokens\<close>

text \<open>
  The context examples build their tokens with \<^verbatim>\<open>context.WithCancel\<close>,
  \<^verbatim>\<open>context.WithTimeout\<close> and \<^verbatim>\<open>context.WithDeadline\<close> and read them with \<^verbatim>\<open>Done()\<close> and
  \<^verbatim>\<open>Err()\<close>; the package behind these calls is not among the sources.  The definitions of
  this section follow the specification's account of it (data model, section 4.7):
  a tree of tokens, each with an optional deadline of its own and an \<^verbatim>\<open>Err()\<close> that is
  \<^verbatim>\<open>nil\<close>, \<^verbatim>\<open>Cancelled\<close> or \<^verbatim>\<open>DeadlineExceeded\<close>.  Times are in milliseconds.  A token is
  addressed by the path from the root: the list of child positions.
\<close>

text \<open>Modelled from the spec: the two reasons \<^verbatim>\<open>Err()\<close> reports (\<open>None\<close> is \<^verbatim>\<open>nil\<close>).\<close>

datatype ctx_err = Cancelled | DeadlineExceeded

text \<open>
  Modelled from the spec: a token of the context package, with its own deadline, its
  \<^verbatim>\<open>Err()\<close> and its derived child tokens.
\<close>

datatype token = Token (tk_deadline: "nat option") (tk_err: "ctx_err option") (tk_children: "token list")

text \<open>Modelled from the spec: \<^verbatim>\<open>context.Background()\<close>, the root: no deadline, never cancelled.\<close>

definition Background :: token where
  "Background = Token None None []"

text \<open>
  Modelled from the spec: firing a token marks it and, depth first, all its descendants
  cancelled; a token that is cancelled already keeps the reason it has.
\<close>

fun cancel_all :: "ctx_err \<Rightarrow> token \<Rightarrow> token" where
  "cancel_all e (Token d err cs) =
     Token d (Some (case err of None \<Rightarrow> e | Some x \<Rightarrow> x)) (map (cancel_all e) cs)"

text \<open>Modelled from the spec: the token at a path, if the path leads to one.\<close>

fun lookup :: "token \<Rightarrow> nat list \<Rightarrow> token option" where
  "lookup t [] = Some t"
| "lookup t (i # p) =
     (if i < length (tk_children t) then lookup (tk_children t ! i) p else None)"

text \<open>Modelled from the spec: \<^verbatim>\<open>Err()\<close> of the token at a path.\<close>

definition Err :: "token \<Rightarrow> nat list \<Rightarrow> ctx_err option" where
  "Err t p = (case lookup t p of Some n \<Rightarrow> tk_err n | None \<Rightarrow> None)"

text \<open>Modelled from the spec: an operation applied to the token at a path.\<close>

fun update_at :: "(token \<Rightarrow> token) \<Rightarrow> nat list \<Rightarrow> token \<Rightarrow> token" where
  "update_at f [] t = f t"
| "update_at f (i # p) t =
     (if i < length (tk_children t)
      then Token (tk_deadline t) (tk_err t)
             ((tk_children t)[i := update_at f p (tk_children t ! i)])
      else t)"

text \<open>Modelled from the spec: the \<^verbatim>\<open>cancelFunc\<close> of the token at a path.\<close>

definition cancel :: "nat list \<Rightarrow> token \<Rightarrow> token" where
  "cancel p t = update_at (cancel_all Cancelled) p t"

text \<open>
  Modelled from the spec: a new child of a token.  A child of a token that is cancelled
  already is cancelled from the start, with the parent's reason; a child whose deadline
  has passed already is \<^verbatim>\<open>DeadlineExceeded\<close> from the start.
\<close>

definition add_child :: "nat option \<Rightarrow> nat \<Rightarrow> token \<Rightarrow> token" where
  "add_child deadline now t =
     Token (tk_deadline t) (tk_err t)
       (tk_children t
          @ [Token deadline
               (case tk_err t of
                  Some e \<Rightarrow> Some e
                | None \<Rightarrow>
                    (case deadline of
                       Some dl \<Rightarrow> if dl \<le> now then Some DeadlineExceeded else None
                     | None \<Rightarrow> None))
               []])"

text \<open>Modelled from the spec: \<^verbatim>\<open>WithCancel(parent)\<close>, the parent given by its path.\<close>

definition WithCancel :: "nat list \<Rightarrow> nat \<Rightarrow> token \<Rightarrow> token" where
  "WithCancel parent now t = update_at (add_child None now) parent t"

text \<open>Modelled from the spec: \<^verbatim>\<open>WithDeadline(parent, t)\<close>, the parent given by its path.\<close>

definition WithDeadline :: "nat list \<Rightarrow> nat \<Rightarrow> nat \<Rightarrow> token \<Rightarrow> token" where
  "WithDeadline parent deadline now t = update_at (add_child (Some deadline) now) parent t"

text \<open>Modelled from the spec: \<^verbatim>\<open>WithTimeout(parent, d)\<close> is \<^verbatim>\<open>WithDeadline(parent, now + d)\<close>.\<close>

definition WithTimeout :: "nat list \<Rightarrow> nat \<Rightarrow> nat \<Rightarrow> token \<Rightarrow> token" where
  "WithTimeout parent timeout now t = WithDeadline parent (now + timeout) now t"

text \<open>Modelled from the spec: whether a deadline has been reached at a time.\<close>

definition reached :: "nat option \<Rightarrow> nat \<Rightarrow> bool" where
  "reached d now = (case d of Some dl \<Rightarrow> dl \<le> now | None \<Rightarrow> False)"

text \<open>
  Modelled from the spec: the passing of time.  Every token whose own deadline has been
  reached fires with \<^verbatim>\<open>DeadlineExceeded\<close>, and with it all its descendants.
\<close>

fun expire :: "nat \<Rightarrow> token \<Rightarrow> token" where
  "expire now (Token d err cs) =
     (if reached d now then cancel_all DeadlineExceeded (Token d err cs)
      else Token d err (map (expire now) cs))"

text \<open>Modelled from the spec: the earlier of two optional deadlines.\<close>

fun min_deadline :: "nat option \<Rightarrow> nat option \<Rightarrow> nat option" where
  "min_deadline None b = b"
| "min_deadline a None = a"
| "min_deadline (Some a) (Some b) = Some (min a b)"

text \<open>
  Modelled from the spec: the effective deadline of the token at a path,
  \<^verbatim>\<open>min(own deadline, ancestors' deadlines)\<close>.
\<close>

fun effective_deadline :: "token \<Rightarrow> nat list \<Rightarrow> nat option" where
  "effective_deadline t [] = tk_deadline t"
| "effective_deadline t (i # p) =
     (if i < length (tk_children t)
      then min_deadline (tk_deadline t) (effective_deadline (tk_children t ! i) p)
      else None)"

text \<open>Modelled from the spec: a tree in which no token is cancelled.\<close>

fun fresh :: "token \<Rightarrow> bool" where
  "fresh (Token d err cs) \<longleftrightarrow> err = None \<and> list_all fresh cs"

text \<open>
  Modelled from the spec: the calls a program can make on its tokens, and the passing
  of time, applied in any order from the background token at time 0.
\<close>

datatype ctx_op =
  OpWithCancel "nat list" | OpWithDeadline "nat list" nat | OpWithTimeout "nat list" nat
  | OpCancel "nat list" | OpSleep nat

text \<open>Modelled from the spec: the current time and the tree of all tokens derived so far.\<close>

record ctx_state =
  ctx_now :: nat
  ctx_tree :: token

text \<open>Modelled from the spec: at time 0 there is the background token alone.\<close>

definition ctx_init :: ctx_state where
  "ctx_init = \<lparr>ctx_now = 0, ctx_tree = Background\<rparr>"

text \<open>
  Modelled from the spec: one call, or the passing of \<open>dt\<close> milliseconds, after which every
  deadline reached by then has fired.
\<close>

fun ctx_apply :: "ctx_state \<Rightarrow> ctx_op \<Rightarrow> ctx_state" where
  "ctx_apply s (OpWithCancel p) = s\<lparr>ctx_tree := WithCancel p (ctx_now s) (ctx_tree s)\<rparr>"
| "ctx_apply s (OpWithDeadline p d) = s\<lparr>ctx_tree := WithDeadline p d (ctx_now s) (ctx_tree s)\<rparr>"
| "ctx_apply s (OpWithTimeout p d) = s\<lparr>ctx_tree := WithTimeout p d (ctx_now s) (ctx_tree s)\<rparr>"
| "ctx_apply s (OpCancel p) = s\<lparr>ctx_tree := cancel p (ctx_tree s)\<rparr>"
| "ctx_apply s (OpSleep dt) =
     s\<lparr>ctx_now := ctx_now s + dt, ctx_tree := expire (ctx_now s + dt) (ctx_tree s)\<rparr>"

text \<open>Modelled from the spec: a sequence of calls and waits, from the start.\<close>

definition ctx_run :: "ctx_op list \<Rightarrow> ctx_state" where
  "ctx_run ops = foldl ctx_apply ctx_init ops"

text \<open>Modelled from the spec: below a cancelled token every token is cancelled.\<close>

fun down_closed :: "token \<Rightarrow> bool" where
  "down_closed (Token d err cs) \<longleftrightarrow>
     list_all down_closed cs \<and> (err \<noteq> None \<longrightarrow> list_all (\<lambda>c. tk_err c \<noteq> None) cs)"

text \<open>
  \<^verbatim>\<open>ContextWithNestedCancellation\<close>, from time 0: the parent is derived from the background
  with \<^verbatim>\<open>WithCancel\<close> (path \<open>[0]\<close>), the child from the parent with a timeout of 500ms
  (path \<open>[0, 0]\<close>); the function waits for the child's \<^verbatim>\<open>Done()\<close>, which comes at 500ms,
  and on return the deferred \<^verbatim>\<open>childCancel\<close> and \<^verbatim>\<open>parentCancel\<close> run.  The goroutine it
  starts only reads the child token.
\<close>

definition nested_calls :: "ctx_op list" where
  "nested_calls = [OpWithCancel [], OpWithTimeout [0] 500, OpSleep 500]"

definition nested_deferred :: "ctx_op list" where
  "nested_deferred = [OpCancel [0, 0], OpCancel [0]]"

definition ContextWithNestedCancellation :: ctx_state where
  "ContextWithNestedCancellation = ctx_run (nested_calls @ nested_deferred)"

text \<open>
  \<^verbatim>\<open>ContextWithCancellation\<close>: one token derived from the background with
  \<^verbatim>\<open>WithCancel\<close>, read by three goroutines, and cancelled by main after 300ms.
\<close>

definition ContextWithCancellation :: ctx_state where
  "ContextWithCancellation = ctx_run [OpWithCancel [], OpSleep 300, OpCancel [0]]"

text \<open>A parent with a deadline at 300ms and a child of it with a deadline at 500ms.\<close>

definition two_deadlines :: token where
  "two_deadlines = WithDeadline [0] 500 0 (WithDeadline [] 300 0 Background)"

text \<open>
  What the proofs speak of: an operation on trees keeps errors when every token with a
  non-nil error is still there afterwards, with the same error.
\<close>

definition keeps_errors :: "(token \<Rightarrow> token) \<Rightarrow> bool" where
  "keeps_errors f \<longleftrightarrow>
     (\<forall>t r n. lookup t r = Some n \<and> tk_err n \<noteq> None
        \<longrightarrow> (\<exists>n'. lookup (f t) r = Some n' \<and> tk_err n' = tk_err n))"

section \<open>Facts about the primitives\<close>

lemma go_rem_eq_0_iff: "go_rem a b = 0 \<longleftrightarrow> b dvd a"
proof -
  have "go_rem a b = 0 \<longleftrightarrow> a = 0 \<or> \<bar>a\<bar> mod \<bar>b\<bar> = 0"
    by (simp add: go_rem_def sgn_eq_0_iff)
  also have "\<dots> \<longleftrightarrow> a = 0 \<or> \<bar>b\<bar> dvd \<bar>a\<bar>"
    by (simp add: dvd_eq_mod_eq_0)
  also have "\<dots> \<longleftrightarrow> b dvd a"
    by auto
  finally show ?thesis .
qed

lemma chan_recv_cases:
  "(\<exists>x xs. buf c = x # xs \<and> chan_recv c = Received x (c\<lparr>buf := xs\<rparr>))
   \<or> (buf c = [] \<and> closed c \<and> chan_recv c = RecvClosed)
   \<or> (buf c = [] \<and> \<not> closed c \<and> chan_recv c = RecvBlocks)"
  by (cases "buf c") (simp_all add: chan_recv_def)

lemma chan_send_cases:
  "(closed c \<and> chan_send c v = SendPanics)
   \<or> (\<not> closed c \<and> length (buf c) < cap c \<and> chan_send c v = Sent (c\<lparr>buf := buf c @ [v]\<rparr>))
   \<or> (\<not> closed c \<and> cap c \<le> length (buf c) \<and> chan_send c v = SendBlocks)"
  by (simp add: chan_send_def)

lemma inflight_Busy:
  "w < length ws \<Longrightarrow> ws ! w = Idle \<Longrightarrow> inflight (ws[w := Busy j]) = add_mset j (inflight ws)"
proof (induction ws arbitrary: w)
  case Nil
  then show ?case by simp
next
  case (Cons a ws)
  then show ?case by (cases w; cases a) simp_all
qed

lemma inflight_Idle:
  "w < length ws \<Longrightarrow> ws ! w = Busy j \<Longrightarrow> add_mset j (inflight (ws[w := Idle])) = inflight ws"
proof (induction ws arbitrary: w)
  case Nil
  then show ?case by simp
next
  case (Cons a ws)
  then show ?case by (cases w; cases a) simp_all
qed

lemma inflight_Exited:
  "w < length ws \<Longrightarrow> ws ! w = Idle \<Longrightarrow> inflight (ws[w := Exited]) = inflight ws"
proof (induction ws arbitrary: w)
  case Nil
  then show ?case by simp
next
  case (Cons a ws)
  then show ?case by (cases w; cases a) simp_all
qed

lemma live_Busy:
  "w < length ws \<Longrightarrow> ws ! w = Idle \<Longrightarrow> live (ws[w := Busy j]) = live ws"
proof (induction ws arbitrary: w)
  case Nil
  then show ?case by simp
next
  case (Cons a ws)
  then show ?case by (cases w; cases a) simp_all
qed

lemma live_Idle:
  "w < length ws \<Longrightarrow> ws ! w = Busy j \<Longrightarrow> live (ws[w := Idle]) = live ws"
proof (induction ws arbitrary: w)
  case Nil
  then show ?case by simp
next
  case (Cons a ws)
  then show ?case by (cases w; cases a) simp_all
qed

lemma live_Exited:
  "w < length ws \<Longrightarrow> ws ! w = Idle \<Longrightarrow> Suc (live (ws[w := Exited])) = live ws"
proof (induction ws arbitrary: w)
  case Nil
  then show ?case by simp
next
  case (Cons a ws)
  then show ?case by (cases w; cases a) simp_all
qed

lemma Exited_update:
  "x \<noteq> Exited \<Longrightarrow> Exited \<in> set (ws[w := x]) \<Longrightarrow> Exited \<in> set ws"
  using set_update_subset_insert [of ws w x] by auto

lemma inflight_empty_no_Busy: "inflight ws = {#} \<Longrightarrow> Busy j \<notin> set ws"
proof (induction ws)
  case Nil
  then show ?case by simp
next
  case (Cons a ws)
  then show ?case by (cases a) simp_all
qed

lemma inflight_nonempty_Busy:
  "inflight ws \<noteq> {#} \<Longrightarrow> \<exists>w j. w < length ws \<and> ws ! w = Busy j"
proof (induction ws)
  case Nil
  then show ?case by simp
next
  case (Cons a ws)
  show ?case
  proof (cases a)
    case (Busy j)
    then have "0 < length (a # ws) \<and> (a # ws) ! 0 = Busy j" by simp
    then show ?thesis by blast
  next
    case Idle
    with Cons obtain w j where "w < length ws \<and> ws ! w = Busy j" by auto
    then have "Suc w < length (a # ws) \<and> (a # ws) ! Suc w = Busy j" by simp
    then show ?thesis by blast
  next
    case Exited
    with Cons obtain w j where "w < length ws \<and> ws ! w = Busy j" by auto
    then have "Suc w < length (a # ws) \<and> (a # ws) ! Suc w = Busy j" by simp
    then show ?thesis by blast
  qed
qed

lemma all_Idle_if:
  "inflight ws = {#} \<Longrightarrow> Exited \<notin> set ws \<Longrightarrow> w < length ws \<Longrightarrow> ws ! w = Idle"
proof -
  assume a: "inflight ws = {#}" "Exited \<notin> set ws" "w < length ws"
  show "ws ! w = Idle"
  proof (cases "ws ! w")
    case Idle
    then show ?thesis .
  next
    case (Busy j)
    with a(3) have "Busy j \<in> set ws" by (metis nth_mem)
    with inflight_empty_no_Busy [OF a(1)] show ?thesis by blast
  next
    case Exited
    with a(3) have "Exited \<in> set ws" by (metis nth_mem)
    with a(2) show ?thesis by blast
  qed
qed

lemma inflight_replicate_Idle: "inflight (replicate n Idle) = {#}"
  by (induction n) simp_all

lemma live_replicate_Idle: "live (replicate n Idle) = n"
  by (induction n) simp_all

lemma live_0_inflight: "live ws = 0 \<Longrightarrow> inflight ws = {#}"
proof (induction ws)
  case Nil
  then show ?case by simp
next
  case (Cons a ws)
  then show ?case by (cases a) simp_all
qed

lemma live_0_Exited: "live ws = 0 \<Longrightarrow> ws \<noteq> [] \<Longrightarrow> Exited \<in> set ws"
  by (cases ws) (auto elim: live.elims)

lemma live_pos_nth: "w < length ws \<Longrightarrow> ws ! w \<noteq> Exited \<Longrightarrow> 0 < live ws"
proof (induction ws arbitrary: w)
  case Nil
  then show ?case by simp
next
  case (Cons a ws)
  then show ?case by (cases w; cases a) auto
qed

lemma live_pos_ex: "0 < live ws \<Longrightarrow> \<exists>w. w < length ws \<and> ws ! w \<noteq> Exited"
proof (induction ws)
  case Nil
  then show ?case by simp
next
  case (Cons a ws)
  show ?case
  proof (cases "a = Exited")
    case False
    then have "0 < length (a # ws) \<and> (a # ws) ! 0 \<noteq> Exited" by simp
    then show ?thesis by blast
  next
    case True
    with Cons obtain w where "w < length ws \<and> ws ! w \<noteq> Exited" by auto
    then have "Suc w < length (a # ws) \<and> (a # ws) ! Suc w \<noteq> Exited" by simp
    then show ?thesis by blast
  qed
qed

lemma sum_list_map_update:
  fixes f :: "'a \<Rightarrow> 'b::comm_monoid_add"
  shows "k < length xs \<Longrightarrow> sum_list (map f (xs[k := y])) + f (xs ! k) = sum_list (map f xs) + f y"
proof (induction xs arbitrary: k)
  case Nil
  then show ?case by simp
next
  case (Cons a xs)
  then show ?case by (cases k) (simp_all add: ac_simps)
qed

section \<open>WorkerPoolWithErrorHandling: invariant, progress, termination\<close>

lemma eh_inv_init: "eh_inv js (eh_init n js)"
  by (simp add: eh_inv_def eh_init_def make_chan_def eh_delivered_def eh_pending_def
      inflight_replicate_Idle)

lemma eh_inv_size:
  assumes "eh_inv js s"
  shows "length (eh_printed s) + length (buf (eh_results s)) + size (inflight (eh_workers s))
           + length (buf (eh_jobs s)) + length (eh_unsent (eh_mainpc s)) = length js"
proof -
  from assms have "eh_delivered s + image_mset processJob (eh_pending s)
      = image_mset processJob (mset js)"
    by (simp add: eh_inv_def)
  then have "size (eh_delivered s + image_mset processJob (eh_pending s))
      = size (image_mset processJob (mset js))"
    by simp
  then show ?thesis
    by (simp add: eh_delivered_def eh_pending_def)
qed

lemma eh_inv_worker:
  assumes inv: "eh_inv js s"
  shows "eh_inv js (eh_worker w s)"
proof (cases "w < length (eh_workers s)")
  case False
  with inv show ?thesis by (simp add: eh_worker_def)
next
  case len: True
  show ?thesis
  proof (cases "eh_workers s ! w")
    case Exited
    with inv len show ?thesis by (simp add: eh_worker_def)
  next
    case Idle
    consider (got) x xs where "buf (eh_jobs s) = x # xs"
        "chan_recv (eh_jobs s) = Received x ((eh_jobs s)\<lparr>buf := xs\<rparr>)"
      | (cl) "buf (eh_jobs s) = []" "closed (eh_jobs s)" "chan_recv (eh_jobs s) = RecvClosed"
      | (bl) "chan_recv (eh_jobs s) = RecvBlocks"
      using chan_recv_cases [of "eh_jobs s"] by blast
    then show ?thesis
    proof cases
      case got
      have ex: "Exited \<notin> set (eh_workers s)"
        using inv got(1) by (auto simp: eh_inv_def)
      have ex': "Exited \<notin> set ((eh_workers s)[w := Busy x])"
        using ex Exited_update [of "Busy x" "eh_workers s" w] by auto
      have step: "eh_worker w s
          = s\<lparr>eh_jobs := (eh_jobs s)\<lparr>buf := xs\<rparr>, eh_workers := (eh_workers s)[w := Busy x]\<rparr>"
        using len Idle got(2) by (simp add: eh_worker_def)
      show ?thesis
        unfolding step using inv got(1) ex' inflight_Busy [OF len Idle, of x]
        by (auto simp: eh_inv_def eh_delivered_def eh_pending_def)
    next
      case cl
      have step: "eh_worker w s = s\<lparr>eh_workers := (eh_workers s)[w := Exited]\<rparr>"
        using len Idle cl(3) by (simp add: eh_worker_def)
      show ?thesis
        unfolding step using inv cl(1,2) inflight_Exited [OF len Idle]
        by (auto simp: eh_inv_def eh_delivered_def eh_pending_def)
    next
      case bl
      with inv len Idle show ?thesis by (simp add: eh_worker_def)
    qed
  next
    case (Busy j)
    have nc: "\<not> closed (eh_results s)" and capr: "cap (eh_results s) = length js"
      using inv by (simp_all add: eh_inv_def)
    have "inflight (eh_workers s) \<noteq> {#}"
      using inflight_Idle [OF len Busy] by auto
    then have "0 < size (inflight (eh_workers s))"
      by (simp add: nonempty_has_size)
    with eh_inv_size [OF inv] have room: "length (buf (eh_results s)) < cap (eh_results s)"
      using capr by linarith
    have step: "eh_worker w s
        = s\<lparr>eh_results := (eh_results s)\<lparr>buf := buf (eh_results s) @ [processJob j]\<rparr>,
             eh_workers := (eh_workers s)[w := Idle]\<rparr>"
      using len Busy nc room by (simp add: eh_worker_def chan_send_def)
    have ex: "Exited \<in> set ((eh_workers s)[w := Idle]) \<Longrightarrow> Exited \<in> set (eh_workers s)"
      using Exited_update [of Idle "eh_workers s" w] by simp
    have infl: "inflight (eh_workers s) = add_mset j (inflight ((eh_workers s)[w := Idle]))"
      using inflight_Idle [OF len Busy] by simp
    show ?thesis
      unfolding step using inv ex
      by (auto simp: eh_inv_def eh_delivered_def eh_pending_def infl)
  qed
qed

lemma eh_inv_main:
  assumes inv: "eh_inv js s"
  shows "eh_inv js (eh_main_step (length js) s)"
proof (cases "eh_mainpc s")
  case Returned
  with inv show ?thesis by (simp add: eh_main_step_def)
next
  case (Collecting r)
  show ?thesis
  proof (cases r)
    case 0
    with inv Collecting show ?thesis
      by (simp add: eh_main_step_def eh_inv_def eh_delivered_def eh_pending_def)
  next
    case (Suc r')
    have nc: "\<not> closed (eh_results s)" using inv by (simp add: eh_inv_def)
    show ?thesis
    proof (cases "buf (eh_results s)")
      case Nil
      with nc inv Collecting Suc show ?thesis
        by (simp add: eh_main_step_def chan_recv_def)
    next
      case (Cons x xs)
      have step: "eh_main_step (length js) s
          = s\<lparr>eh_results := (eh_results s)\<lparr>buf := xs\<rparr>, eh_printed := eh_printed s @ [x],
               eh_mainpc := Collecting r'\<rparr>"
        using Collecting Suc Cons by (simp add: eh_main_step_def chan_recv_def)
      show ?thesis
        unfolding step using inv Collecting Suc Cons
        by (auto simp: eh_inv_def eh_delivered_def eh_pending_def)
    qed
  qed
next
  case (Sending l)
  have nc: "\<not> closed (eh_jobs s)" and capj: "cap (eh_jobs s) = length js"
    and ex: "Exited \<notin> set (eh_workers s)"
    using inv Sending by (auto simp: eh_inv_def)
  show ?thesis
  proof (cases l)
    case Nil
    have step: "eh_main_step (length js) s
        = s\<lparr>eh_jobs := (eh_jobs s)\<lparr>closed := True\<rparr>, eh_mainpc := Collecting (length js)\<rparr>"
      using Sending Nil nc by (simp add: eh_main_step_def chan_close_def)
    show ?thesis
      unfolding step using inv Sending Nil ex
      by (auto simp: eh_inv_def eh_delivered_def eh_pending_def)
  next
    case (Cons j rest)
    from eh_inv_size [OF inv] Sending Cons
    have room: "length (buf (eh_jobs s)) < cap (eh_jobs s)"
      using capj by simp
    have step: "eh_main_step (length js) s
        = s\<lparr>eh_jobs := (eh_jobs s)\<lparr>buf := buf (eh_jobs s) @ [j]\<rparr>, eh_mainpc := Sending rest\<rparr>"
      using Sending Cons nc room by (simp add: eh_main_step_def chan_send_def)
    show ?thesis
      unfolding step using inv Sending Cons ex
      by (auto simp: eh_inv_def eh_delivered_def eh_pending_def)
  qed
qed

lemma eh_inv_step: "eh_inv js s \<Longrightarrow> eh_inv js (eh_step (length js) s e)"
  by (cases e) (simp_all add: eh_step_def eh_inv_worker eh_inv_main)

lemma eh_inv_foldl: "eh_inv js s \<Longrightarrow> eh_inv js (foldl (eh_step (length js)) s sched)"
  by (induction sched arbitrary: s) (simp_all add: eh_inv_step)

lemma eh_inv_run: "eh_inv js (eh_run n js sched)"
  unfolding eh_run_def by (rule eh_inv_foldl [OF eh_inv_init])

lemma eh_worker_cases:
  assumes inv: "eh_inv js s"
  shows "eh_worker w s = s
    \<or> (\<exists>x xs. w < length (eh_workers s) \<and> eh_workers s ! w = Idle \<and> buf (eh_jobs s) = x # xs
          \<and> eh_worker w s
              = s\<lparr>eh_jobs := (eh_jobs s)\<lparr>buf := xs\<rparr>, eh_workers := (eh_workers s)[w := Busy x]\<rparr>)
    \<or> (w < length (eh_workers s) \<and> eh_workers s ! w = Idle \<and> buf (eh_jobs s) = []
          \<and> eh_worker w s = s\<lparr>eh_workers := (eh_workers s)[w := Exited]\<rparr>)
    \<or> (\<exists>j. w < length (eh_workers s) \<and> eh_workers s ! w = Busy j
          \<and> eh_worker w s
              = s\<lparr>eh_results := (eh_results s)\<lparr>buf := buf (eh_results s) @ [processJob j]\<rparr>,
                   eh_workers := (eh_workers s)[w := Idle]\<rparr>)"
proof (cases "w < length (eh_workers s)")
  case False
  then show ?thesis by (simp add: eh_worker_def)
next
  case len: True
  show ?thesis
  proof (cases "eh_workers s ! w")
    case Exited
    with len show ?thesis by (simp add: eh_worker_def)
  next
    case Idle
    show ?thesis
    proof (cases "buf (eh_jobs s)")
      case Nil
      with len Idle show ?thesis by (simp add: eh_worker_def chan_recv_def)
    next
      case (Cons x xs)
      with len Idle show ?thesis by (simp add: eh_worker_def chan_recv_def)
    qed
  next
    case (Busy j)
    have nc: "\<not> closed (eh_results s)" and capr: "cap (eh_results s) = length js"
      using inv by (simp_all add: eh_inv_def)
    have "inflight (eh_workers s) \<noteq> {#}"
      using inflight_Idle [OF len Busy] by auto
    then have "0 < size (inflight (eh_workers s))"
      by (simp add: nonempty_has_size)
    with eh_inv_size [OF inv] have room: "length (buf (eh_results s)) < cap (eh_results s)"
      using capr by linarith
    show ?thesis
      using len Busy nc room by (simp add: eh_worker_def chan_send_def)
  qed
qed

lemma eh_worker_Busy:
  assumes inv: "eh_inv js s" and len: "w < length (eh_workers s)"
    and Busy: "eh_workers s ! w = Busy j"
  shows "eh_worker w s
    = s\<lparr>eh_results := (eh_results s)\<lparr>buf := buf (eh_results s) @ [processJob j]\<rparr>,
         eh_workers := (eh_workers s)[w := Idle]\<rparr>"
proof -
  have nc: "\<not> closed (eh_results s)" and capr: "cap (eh_results s) = length js"
    using inv by (simp_all add: eh_inv_def)
  have "inflight (eh_workers s) \<noteq> {#}"
    using inflight_Idle [OF len Busy] by auto
  then have "0 < size (inflight (eh_workers s))"
    by (simp add: nonempty_has_size)
  with eh_inv_size [OF inv] have room: "length (buf (eh_results s)) < cap (eh_results s)"
    using capr by linarith
  show ?thesis
    using len Busy nc room by (simp add: eh_worker_def chan_send_def)
qed

lemma eh_main_cases:
  assumes inv: "eh_inv js s"
  shows "eh_main_step (length js) s = s
    \<or> (\<exists>j rest. eh_mainpc s = Sending (j # rest)
          \<and> eh_main_step (length js) s
              = s\<lparr>eh_jobs := (eh_jobs s)\<lparr>buf := buf (eh_jobs s) @ [j]\<rparr>,
                   eh_mainpc := Sending rest\<rparr>)
    \<or> (eh_mainpc s = Sending []
          \<and> eh_main_step (length js) s
              = s\<lparr>eh_jobs := (eh_jobs s)\<lparr>closed := True\<rparr>, eh_mainpc := Collecting (length js)\<rparr>)
    \<or> (\<exists>r x xs. eh_mainpc s = Collecting (Suc r) \<and> buf (eh_results s) = x # xs
          \<and> eh_main_step (length js) s
              = s\<lparr>eh_results := (eh_results s)\<lparr>buf := xs\<rparr>, eh_printed := eh_printed s @ [x],
                   eh_mainpc := Collecting r\<rparr>)
    \<or> (eh_mainpc s = Collecting 0 \<and> eh_main_step (length js) s = s\<lparr>eh_mainpc := Returned\<rparr>)"
proof (cases "eh_mainpc s")
  case Returned
  then show ?thesis by (simp add: eh_main_step_def)
next
  case (Collecting r)
  have nc: "\<not> closed (eh_results s)" using inv by (simp add: eh_inv_def)
  show ?thesis
  proof (cases r)
    case 0
    with Collecting show ?thesis by (simp add: eh_main_step_def)
  next
    case (Suc r')
    show ?thesis
    proof (cases "buf (eh_results s)")
      case Nil
      with nc Collecting Suc show ?thesis by (simp add: eh_main_step_def chan_recv_def)
    next
      case (Cons x xs)
      with Collecting Suc show ?thesis by (simp add: eh_main_step_def chan_recv_def)
    qed
  qed
next
  case (Sending l)
  have nc: "\<not> closed (eh_jobs s)" and capj: "cap (eh_jobs s) = length js"
    using inv Sending by (auto simp: eh_inv_def)
  show ?thesis
  proof (cases l)
    case Nil
    with Sending nc show ?thesis by (simp add: eh_main_step_def chan_close_def)
  next
    case (Cons j rest)
    from eh_inv_size [OF inv] Sending Cons
    have room: "length (buf (eh_jobs s)) < cap (eh_jobs s)"
      using capj by simp
    with Sending Cons nc show ?thesis by (simp add: eh_main_step_def chan_send_def)
  qed
qed

lemma eh_measure_worker:
  assumes inv: "eh_inv js s" and ch: "eh_worker w s \<noteq> s"
  shows "eh_measure (eh_worker w s) < eh_measure s"
proof -
  consider
    (take) x xs where "w < length (eh_workers s)" "eh_workers s ! w = Idle"
      "buf (eh_jobs s) = x # xs"
      "eh_worker w s
         = s\<lparr>eh_jobs := (eh_jobs s)\<lparr>buf := xs\<rparr>, eh_workers := (eh_workers s)[w := Busy x]\<rparr>"
  | (exit) "w < length (eh_workers s)" "eh_workers s ! w = Idle"
      "eh_worker w s = s\<lparr>eh_workers := (eh_workers s)[w := Exited]\<rparr>"
  | (emit) j where "w < length (eh_workers s)" "eh_workers s ! w = Busy j"
      "eh_worker w s
         = s\<lparr>eh_results := (eh_results s)\<lparr>buf := buf (eh_results s) @ [processJob j]\<rparr>,
              eh_workers := (eh_workers s)[w := Idle]\<rparr>"
    using eh_worker_cases [OF inv, of w] ch by blast
  then show ?thesis
  proof cases
    case take
    show ?thesis
      unfolding take(4) using take(3) inflight_Busy [OF take(1,2), of x] live_Busy [OF take(1,2), of x]
      by (simp add: eh_measure_def)
  next
    case exit
    show ?thesis
      unfolding exit(3) using inflight_Exited [OF exit(1,2)] live_Exited [OF exit(1,2)]
      by (simp add: eh_measure_def)
  next
    case emit
    have "size (inflight (eh_workers s)) = Suc (size (inflight ((eh_workers s)[w := Idle])))"
      using inflight_Idle [OF emit(1,2)] by (metis size_add_mset)
    then show ?thesis
      unfolding emit(3) using live_Idle [OF emit(1,2)]
      by (simp add: eh_measure_def)
  qed
qed

lemma eh_measure_main:
  assumes inv: "eh_inv js s" and ch: "eh_main_step (length js) s \<noteq> s"
  shows "eh_measure (eh_main_step (length js) s) < eh_measure s"
  using eh_main_cases [OF inv] ch
  by (auto simp: eh_measure_def)

lemma eh_measure_step:
  assumes inv: "eh_inv js s" and ch: "eh_step (length js) s e \<noteq> s"
  shows "eh_measure (eh_step (length js) s e) < eh_measure s"
proof (cases e)
  case MainStep
  with ch eh_measure_main [OF inv] show ?thesis
    by (auto simp: eh_step_def split: if_splits)
next
  case (WorkerStep w)
  with ch eh_measure_worker [OF inv, of w] show ?thesis
    by (auto simp: eh_step_def split: if_splits)
next
  case ProducerStep
  with ch show ?thesis by (simp add: eh_step_def)
next
  case TimerFires
  with ch show ?thesis by (simp add: eh_step_def)
qed

lemma eh_returned:
  assumes inv: "eh_inv js s" and ret: "eh_mainpc s = Returned"
  shows "mset (eh_printed s) = image_mset processJob (mset js)"
proof -
  from inv ret have "length (eh_printed s) = length js"
    by (simp add: eh_inv_def)
  with eh_inv_size [OF inv] have "buf (eh_results s) = []" "inflight (eh_workers s) = {#}"
    "buf (eh_jobs s) = []" "eh_unsent (eh_mainpc s) = []"
    by simp_all
  moreover from inv have "eh_delivered s + image_mset processJob (eh_pending s)
      = image_mset processJob (mset js)"
    by (simp add: eh_inv_def)
  ultimately show ?thesis
    by (simp add: eh_delivered_def eh_pending_def)
qed

lemma eh_progress:
  assumes inv: "eh_inv js s" and nw: "eh_workers s \<noteq> []" and nr: "eh_mainpc s \<noteq> Returned"
  shows "\<exists>e. eh_step (length js) s e \<noteq> s"
proof -
  have np: "\<not> eh_panicked s" using inv by (simp add: eh_inv_def)
  have main_moves: "eh_mainpc (eh_main_step (length js) s) \<noteq> eh_mainpc s
      \<Longrightarrow> eh_step (length js) s MainStep \<noteq> s"
    using np by (auto simp: eh_step_def)
  have worker_moves: "eh_workers (eh_worker w s) \<noteq> eh_workers s
      \<Longrightarrow> eh_step (length js) s (WorkerStep w) \<noteq> s" for w
    using np by (auto simp: eh_step_def)
  show ?thesis
  proof (cases "eh_mainpc s")
    case Returned
    with nr show ?thesis by simp
  next
    case (Sending l)
    have nc: "\<not> closed (eh_jobs s)" and capj: "cap (eh_jobs s) = length js"
      using inv Sending by (auto simp: eh_inv_def)
    have "eh_mainpc (eh_main_step (length js) s) \<noteq> eh_mainpc s"
    proof (cases l)
      case Nil
      with Sending nc show ?thesis by (simp add: eh_main_step_def chan_close_def)
    next
      case (Cons j rest)
      from eh_inv_size [OF inv] Sending Cons
      have "length (buf (eh_jobs s)) < cap (eh_jobs s)" using capj by simp
      with Sending Cons nc show ?thesis by (simp add: eh_main_step_def chan_send_def)
    qed
    with main_moves show ?thesis by blast
  next
    case (Collecting r)
    show ?thesis
    proof (cases r)
      case 0
      with Collecting have "eh_mainpc (eh_main_step (length js) s) \<noteq> eh_mainpc s"
        by (simp add: eh_main_step_def)
      with main_moves show ?thesis by blast
    next
      case (Suc r')
      show ?thesis
      proof (cases "buf (eh_results s)")
        case (Cons x xs)
        with Collecting Suc have "eh_mainpc (eh_main_step (length js) s) \<noteq> eh_mainpc s"
          by (simp add: eh_main_step_def chan_recv_def)
        with main_moves show ?thesis by blast
      next
        case Nil
        from inv Collecting Suc have "length (eh_printed s) < length js"
          by (simp add: eh_inv_def)
        with eh_inv_size [OF inv] Nil Collecting
        have pend: "0 < size (inflight (eh_workers s)) + length (buf (eh_jobs s))"
          by (cases "buf (eh_jobs s)") auto
        show ?thesis
        proof (cases "inflight (eh_workers s) = {#}")
          case False
          then obtain w j where wj: "w < length (eh_workers s)" "eh_workers s ! w = Busy j"
            using inflight_nonempty_Busy by blast
          have "eh_workers (eh_worker w s) = (eh_workers s)[w := Idle]"
            using eh_worker_Busy [OF inv wj] by simp
          then have "eh_workers (eh_worker w s) ! w = Idle"
            using wj(1) by simp
          with wj(2) have "eh_workers (eh_worker w s) \<noteq> eh_workers s"
            by (metis wstate.distinct(1))
          with worker_moves show ?thesis by blast
        next
          case True
          with pend obtain x xs where jb: "buf (eh_jobs s) = x # xs"
            by (cases "buf (eh_jobs s)") simp_all
          with inv have "Exited \<notin> set (eh_workers s)"
            by (auto simp: eh_inv_def)
          moreover from nw have l0: "0 < length (eh_workers s)" by simp
          ultimately have idle: "eh_workers s ! 0 = Idle"
            using all_Idle_if [OF True] by blast
          have "eh_workers (eh_worker 0 s) = (eh_workers s)[0 := Busy x]"
            using l0 idle jb by (simp add: eh_worker_def chan_recv_def)
          then have "eh_workers (eh_worker 0 s) ! 0 = Busy x"
            using l0 by simp
          with idle have "eh_workers (eh_worker 0 s) \<noteq> eh_workers s"
            by (metis wstate.distinct(1))
          with worker_moves show ?thesis by blast
        qed
      qed
    qed
  qed
qed

lemma eh_worker_length: "length (eh_workers (eh_worker w s)) = length (eh_workers s)"
  by (simp add: eh_worker_def split: wstate.splits recv_result.splits send_result.splits)

lemma eh_main_length: "length (eh_workers (eh_main_step n s)) = length (eh_workers s)"
  by (simp add: eh_main_step_def
      split: eh_main.splits list.splits nat.splits recv_result.splits send_result.splits
        option.splits)

lemma eh_step_length: "length (eh_workers (eh_step n s e)) = length (eh_workers s)"
  by (cases e) (simp_all add: eh_step_def eh_worker_length eh_main_length)

lemma eh_foldl_length: "length (eh_workers (foldl (eh_step n) s sched)) = length (eh_workers s)"
  by (induction sched arbitrary: s) (simp_all add: eh_step_length)

lemma eh_run_length: "length (eh_workers (eh_run n js sched)) = n"
  by (simp add: eh_run_def eh_foldl_length eh_init_def)

lemma eh_delivered_subset:
  assumes "eh_inv js s"
  shows "eh_delivered s \<subseteq># image_mset processJob (mset js)"
proof -
  from assms have "eh_delivered s + image_mset processJob (eh_pending s)
      = image_mset processJob (mset js)"
    by (simp add: eh_inv_def)
  then show ?thesis by (metis mset_subset_eq_add_left)
qed

section \<open>BasicWorkerPool: invariant, progress, termination\<close>

lemma bw_inv_init: "bw_inv js (bw_init n js)"
  by (simp add: bw_inv_def bw_init_def make_chan_def bw_delivered_def bw_pending_def
      inflight_replicate_Idle)

lemma bw_inv_size:
  assumes "bw_inv js s"
  shows "length (bw_printed s) + length (buf (bw_results s)) + size (inflight (bw_workers s))
           + length (buf (bw_jobs s)) + length (bw_unsent (bw_mainpc s)) = length js"
proof -
  from assms have "bw_delivered s + image_mset bw_result (bw_pending s)
      = image_mset bw_result (mset js)"
    by (simp add: bw_inv_def)
  then have "size (bw_delivered s + image_mset bw_result (bw_pending s))
      = size (image_mset bw_result (mset js))"
    by simp
  then show ?thesis
    by (simp add: bw_delivered_def bw_pending_def)
qed

lemma bw_inv_worker:
  assumes inv: "bw_inv js s"
  shows "bw_inv js (bw_worker w s)"
proof (cases "w < length (bw_workers s)")
  case False
  with inv show ?thesis by (simp add: bw_worker_def)
next
  case len: True
  show ?thesis
  proof (cases "bw_workers s ! w")
    case Exited
    with inv len show ?thesis by (simp add: bw_worker_def)
  next
    case Idle
    consider (got) x xs where "buf (bw_jobs s) = x # xs"
        "chan_recv (bw_jobs s) = Received x ((bw_jobs s)\<lparr>buf := xs\<rparr>)"
      | (cl) "buf (bw_jobs s) = []" "closed (bw_jobs s)" "chan_recv (bw_jobs s) = RecvClosed"
      | (bl) "chan_recv (bw_jobs s) = RecvBlocks"
      using chan_recv_cases [of "bw_jobs s"] by blast
    then show ?thesis
    proof cases
      case got
      have ex: "Exited \<notin> set (bw_workers s)"
        using inv got(1) by (auto simp: bw_inv_def)
      have ex': "Exited \<notin> set ((bw_workers s)[w := Busy x])"
        using ex Exited_update [of "Busy x" "bw_workers s" w] by auto
      have step: "bw_worker w s
          = s\<lparr>bw_jobs := (bw_jobs s)\<lparr>buf := xs\<rparr>, bw_workers := (bw_workers s)[w := Busy x]\<rparr>"
        using len Idle got(2) by (simp add: bw_worker_def)
      show ?thesis
        unfolding step using inv got(1) ex' inflight_Busy [OF len Idle, of x]
        by (auto simp: bw_inv_def bw_delivered_def bw_pending_def)
    next
      case cl
      have step: "bw_worker w s = s\<lparr>bw_workers := (bw_workers s)[w := Exited]\<rparr>"
        using len Idle cl(3) by (simp add: bw_worker_def)
      show ?thesis
        unfolding step using inv cl(1,2) inflight_Exited [OF len Idle]
        by (auto simp: bw_inv_def bw_delivered_def bw_pending_def)
    next
      case bl
      with inv len Idle show ?thesis by (simp add: bw_worker_def)
    qed
  next
    case (Busy j)
    have nc: "\<not> closed (bw_results s)" and capr: "cap (bw_results s) = length js"
      using inv by (simp_all add: bw_inv_def)
    have "inflight (bw_workers s) \<noteq> {#}"
      using inflight_Idle [OF len Busy] by auto
    then have "0 < size (inflight (bw_workers s))"
      by (simp add: nonempty_has_size)
    with bw_inv_size [OF inv] have room: "length (buf (bw_results s)) < cap (bw_results s)"
      using capr by linarith
    have step: "bw_worker w s
        = s\<lparr>bw_results := (bw_results s)\<lparr>buf := buf (bw_results s) @ [bw_result j]\<rparr>,
             bw_workers := (bw_workers s)[w := Idle]\<rparr>"
      using len Busy nc room by (simp add: bw_worker_def chan_send_def)
    have ex: "Exited \<in> set ((bw_workers s)[w := Idle]) \<Longrightarrow> Exited \<in> set (bw_workers s)"
      using Exited_update [of Idle "bw_workers s" w] by simp
    have infl: "inflight (bw_workers s) = add_mset j (inflight ((bw_workers s)[w := Idle]))"
      using inflight_Idle [OF len Busy] by simp
    show ?thesis
      unfolding step using inv ex
      by (auto simp: bw_inv_def bw_delivered_def bw_pending_def infl)
  qed
qed

lemma bw_inv_main:
  assumes inv: "bw_inv js s"
  shows "bw_inv js (bw_main_step (length js) s)"
proof (cases "bw_mainpc s")
  case BwReturned
  with inv show ?thesis by (simp add: bw_main_step_def)
next
  case (BwCollecting r)
  show ?thesis
  proof (cases r)
    case 0
    with inv BwCollecting show ?thesis
      by (simp add: bw_main_step_def bw_inv_def bw_delivered_def bw_pending_def)
  next
    case (Suc r')
    have nc: "\<not> closed (bw_results s)" using inv by (simp add: bw_inv_def)
    show ?thesis
    proof (cases "buf (bw_results s)")
      case Nil
      with nc inv BwCollecting Suc show ?thesis
        by (simp add: bw_main_step_def chan_recv_def)
    next
      case (Cons x xs)
      have step: "bw_main_step (length js) s
          = s\<lparr>bw_results := (bw_results s)\<lparr>buf := xs\<rparr>, bw_printed := bw_printed s @ [x],
               bw_mainpc := BwCollecting r'\<rparr>"
        using BwCollecting Suc Cons by (simp add: bw_main_step_def chan_recv_def)
      show ?thesis
        unfolding step using inv BwCollecting Suc Cons
        by (auto simp: bw_inv_def bw_delivered_def bw_pending_def)
    qed
  qed
next
  case (BwSending l)
  have nc: "\<not> closed (bw_jobs s)" and capj: "cap (bw_jobs s) = length js"
    and ex: "Exited \<notin> set (bw_workers s)"
    using inv BwSending by (auto simp: bw_inv_def)
  show ?thesis
  proof (cases l)
    case Nil
    have step: "bw_main_step (length js) s
        = s\<lparr>bw_jobs := (bw_jobs s)\<lparr>closed := True\<rparr>, bw_mainpc := BwCollecting (length js)\<rparr>"
      using BwSending Nil nc by (simp add: bw_main_step_def chan_close_def)
    show ?thesis
      unfolding step using inv BwSending Nil ex
      by (auto simp: bw_inv_def bw_delivered_def bw_pending_def)
  next
    case (Cons j rest)
    from bw_inv_size [OF inv] BwSending Cons
    have room: "length (buf (bw_jobs s)) < cap (bw_jobs s)"
      using capj by simp
    have step: "bw_main_step (length js) s
        = s\<lparr>bw_jobs := (bw_jobs s)\<lparr>buf := buf (bw_jobs s) @ [j]\<rparr>, bw_mainpc := BwSending rest\<rparr>"
      using BwSending Cons nc room by (simp add: bw_main_step_def chan_send_def)
    show ?thesis
      unfolding step using inv BwSending Cons ex
      by (auto simp: bw_inv_def bw_delivered_def bw_pending_def)
  qed
qed

lemma bw_inv_step: "bw_inv js s \<Longrightarrow> bw_inv js (bw_step (length js) s e)"
  by (cases e) (simp_all add: bw_step_def bw_inv_worker bw_inv_main)

lemma bw_inv_foldl: "bw_inv js s \<Longrightarrow> bw_inv js (foldl (bw_step (length js)) s sched)"
  by (induction sched arbitrary: s) (simp_all add: bw_inv_step)

lemma bw_inv_run: "bw_inv js (bw_run n js sched)"
  unfolding bw_run_def by (rule bw_inv_foldl [OF bw_inv_init])

lemma bw_worker_cases:
  assumes inv: "bw_inv js s"
  shows "bw_worker w s = s
    \<or> (\<exists>x xs. w < length (bw_workers s) \<and> bw_workers s ! w = Idle \<and> buf (bw_jobs s) = x # xs
          \<and> bw_worker w s
              = s\<lparr>bw_jobs := (bw_jobs s)\<lparr>buf := xs\<rparr>, bw_workers := (bw_workers s)[w := Busy x]\<rparr>)
    \<or> (w < length (bw_workers s) \<and> bw_workers s ! w = Idle \<and> buf (bw_jobs s) = []
          \<and> bw_worker w s = s\<lparr>bw_workers := (bw_workers s)[w := Exited]\<rparr>)
    \<or> (\<exists>j. w < length (bw_workers s) \<and> bw_workers s ! w = Busy j
          \<and> bw_worker w s
              = s\<lparr>bw_results := (bw_results s)\<lparr>buf := buf (bw_results s) @ [bw_result j]\<rparr>,
                   bw_workers := (bw_workers s)[w := Idle]\<rparr>)"
proof (cases "w < length (bw_workers s)")
  case False
  then show ?thesis by (simp add: bw_worker_def)
next
  case len: True
  show ?thesis
  proof (cases "bw_workers s ! w")
    case Exited
    with len show ?thesis by (simp add: bw_worker_def)
  next
    case Idle
    show ?thesis
    proof (cases "buf (bw_jobs s)")
      case Nil
      with len Idle show ?thesis by (simp add: bw_worker_def chan_recv_def)
    next
      case (Cons x xs)
      with len Idle show ?thesis by (simp add: bw_worker_def chan_recv_def)
    qed
  next
    case (Busy j)
    have nc: "\<not> closed (bw_results s)" and capr: "cap (bw_results s) = length js"
      using inv by (simp_all add: bw_inv_def)
    have "inflight (bw_workers s) \<noteq> {#}"
      using inflight_Idle [OF len Busy] by auto
    then have "0 < size (inflight (bw_workers s))"
      by (simp add: nonempty_has_size)
    with bw_inv_size [OF inv] have room: "length (buf (bw_results s)) < cap (bw_results s)"
      using capr by linarith
    show ?thesis
      using len Busy nc room by (simp add: bw_worker_def chan_send_def)
  qed
qed

lemma bw_worker_Busy:
  assumes inv: "bw_inv js s" and len: "w < length (bw_workers s)"
    and Busy: "bw_workers s ! w = Busy j"
  shows "bw_worker w s
    = s\<lparr>bw_results := (bw_results s)\<lparr>buf := buf (bw_results s) @ [bw_result j]\<rparr>,
         bw_workers := (bw_workers s)[w := Idle]\<rparr>"
proof -
  have nc: "\<not> closed (bw_results s)" and capr: "cap (bw_results s) = length js"
    using inv by (simp_all add: bw_inv_def)
  have "inflight (bw_workers s) \<noteq> {#}"
    using inflight_Idle [OF len Busy] by auto
  then have "0 < size (inflight (bw_workers s))"
    by (simp add: nonempty_has_size)
  with bw_inv_size [OF inv] have room: "length (buf (bw_results s)) < cap (bw_results s)"
    using capr by linarith
  show ?thesis
    using len Busy nc room by (simp add: bw_worker_def chan_send_def)
qed

lemma bw_main_cases:
  assumes inv: "bw_inv js s"
  shows "bw_main_step (length js) s = s
    \<or> (\<exists>j rest. bw_mainpc s = BwSending (j # rest)
          \<and> bw_main_step (length js) s
              = s\<lparr>bw_jobs := (bw_jobs s)\<lparr>buf := buf (bw_jobs s) @ [j]\<rparr>,
                   bw_mainpc := BwSending rest\<rparr>)
    \<or> (bw_mainpc s = BwSending []
          \<and> bw_main_step (length js) s
              = s\<lparr>bw_jobs := (bw_jobs s)\<lparr>closed := True\<rparr>, bw_mainpc := BwCollecting (length js)\<rparr>)
    \<or> (\<exists>r x xs. bw_mainpc s = BwCollecting (Suc r) \<and> buf (bw_results s) = x # xs
          \<and> bw_main_step (length js) s
              = s\<lparr>bw_results := (bw_results s)\<lparr>buf := xs\<rparr>, bw_printed := bw_printed s @ [x],
                   bw_mainpc := BwCollecting r\<rparr>)
    \<or> (bw_mainpc s = BwCollecting 0 \<and> bw_main_step (length js) s = s\<lparr>bw_mainpc := BwReturned\<rparr>)"
proof (cases "bw_mainpc s")
  case BwReturned
  then show ?thesis by (simp add: bw_main_step_def)
next
  case (BwCollecting r)
  have nc: "\<not> closed (bw_results s)" using inv by (simp add: bw_inv_def)
  show ?thesis
  proof (cases r)
    case 0
    with BwCollecting show ?thesis by (simp add: bw_main_step_def)
  next
    case (Suc r')
    show ?thesis
    proof (cases "buf (bw_results s)")
      case Nil
      with nc BwCollecting Suc show ?thesis by (simp add: bw_main_step_def chan_recv_def)
    next
      case (Cons x xs)
      with BwCollecting Suc show ?thesis by (simp add: bw_main_step_def chan_recv_def)
    qed
  qed
next
  case (BwSending l)
  have nc: "\<not> closed (bw_jobs s)" and capj: "cap (bw_jobs s) = length js"
    using inv BwSending by (auto simp: bw_inv_def)
  show ?thesis
  proof (cases l)
    case Nil
    with BwSending nc show ?thesis by (simp add: bw_main_step_def chan_close_def)
  next
    case (Cons j rest)
    from bw_inv_size [OF inv] BwSending Cons
    have room: "length (buf (bw_jobs s)) < cap (bw_jobs s)"
      using capj by simp
    with BwSending Cons nc show ?thesis by (simp add: bw_main_step_def chan_send_def)
  qed
qed

lemma bw_measure_worker:
  assumes inv: "bw_inv js s" and ch: "bw_worker w s \<noteq> s"
  shows "bw_measure (bw_worker w s) < bw_measure s"
proof -
  consider
    (take) x xs where "w < length (bw_workers s)" "bw_workers s ! w = Idle"
      "buf (bw_jobs s) = x # xs"
      "bw_worker w s
         = s\<lparr>bw_jobs := (bw_jobs s)\<lparr>buf := xs\<rparr>, bw_workers := (bw_workers s)[w := Busy x]\<rparr>"
  | (exit) "w < length (bw_workers s)" "bw_workers s ! w = Idle"
      "bw_worker w s = s\<lparr>bw_workers := (bw_workers s)[w := Exited]\<rparr>"
  | (emit) j where "w < length (bw_workers s)" "bw_workers s ! w = Busy j"
      "bw_worker w s
         = s\<lparr>bw_results := (bw_results s)\<lparr>buf := buf (bw_results s) @ [bw_result j]\<rparr>,
              bw_workers := (bw_workers s)[w := Idle]\<rparr>"
    using bw_worker_cases [OF inv, of w] ch by blast
  then show ?thesis
  proof cases
    case take
    show ?thesis
      unfolding take(4) using take(3) inflight_Busy [OF take(1,2), of x] live_Busy [OF take(1,2), of x]
      by (simp add: bw_measure_def)
  next
    case exit
    show ?thesis
      unfolding exit(3) using inflight_Exited [OF exit(1,2)] live_Exited [OF exit(1,2)]
      by (simp add: bw_measure_def)
  next
    case emit
    have "size (inflight (bw_workers s)) = Suc (size (inflight ((bw_workers s)[w := Idle])))"
      using inflight_Idle [OF emit(1,2)] by (metis size_add_mset)
    then show ?thesis
      unfolding emit(3) using live_Idle [OF emit(1,2)]
      by (simp add: bw_measure_def)
  qed
qed

lemma bw_measure_main:
  assumes inv: "bw_inv js s" and ch: "bw_main_step (length js) s \<noteq> s"
  shows "bw_measure (bw_main_step (length js) s) < bw_measure s"
  using bw_main_cases [OF inv] ch
  by (auto simp: bw_measure_def)

lemma bw_measure_step:
  assumes inv: "bw_inv js s" and ch: "bw_step (length js) s e \<noteq> s"
  shows "bw_measure (bw_step (length js) s e) < bw_measure s"
proof (cases e)
  case MainStep
  with ch bw_measure_main [OF inv] show ?thesis
    by (auto simp: bw_step_def split: if_splits)
next
  case (WorkerStep w)
  with ch bw_measure_worker [OF inv, of w] show ?thesis
    by (auto simp: bw_step_def split: if_splits)
next
  case ProducerStep
  with ch show ?thesis by (simp add: bw_step_def)
next
  case TimerFires
  with ch show ?thesis by (simp add: bw_step_def)
qed

lemma bw_returned:
  assumes inv: "bw_inv js s" and ret: "bw_mainpc s = BwReturned"
  shows "mset (bw_printed s) = image_mset bw_result (mset js)"
proof -
  from inv ret have "length (bw_printed s) = length js"
    by (simp add: bw_inv_def)
  with bw_inv_size [OF inv] have "buf (bw_results s) = []" "inflight (bw_workers s) = {#}"
    "buf (bw_jobs s) = []" "bw_unsent (bw_mainpc s) = []"
    by simp_all
  moreover from inv have "bw_delivered s + image_mset bw_result (bw_pending s)
      = image_mset bw_result (mset js)"
    by (simp add: bw_inv_def)
  ultimately show ?thesis
    by (simp add: bw_delivered_def bw_pending_def)
qed

lemma bw_progress:
  assumes inv: "bw_inv js s" and nw: "bw_workers s \<noteq> []" and nr: "bw_mainpc s \<noteq> BwReturned"
  shows "\<exists>e. bw_step (length js) s e \<noteq> s"
proof -
  have np: "\<not> bw_panicked s" using inv by (simp add: bw_inv_def)
  have main_moves: "bw_mainpc (bw_main_step (length js) s) \<noteq> bw_mainpc s
      \<Longrightarrow> bw_step (length js) s MainStep \<noteq> s"
    using np by (auto simp: bw_step_def)
  have worker_moves: "bw_workers (bw_worker w s) \<noteq> bw_workers s
      \<Longrightarrow> bw_step (length js) s (WorkerStep w) \<noteq> s" for w
    using np by (auto simp: bw_step_def)
  show ?thesis
  proof (cases "bw_mainpc s")
    case BwReturned
    with nr show ?thesis by simp
  next
    case (BwSending l)
    have nc: "\<not> closed (bw_jobs s)" and capj: "cap (bw_jobs s) = length js"
      using inv BwSending by (auto simp: bw_inv_def)
    have "bw_mainpc (bw_main_step (length js) s) \<noteq> bw_mainpc s"
    proof (cases l)
      case Nil
      with BwSending nc show ?thesis by (simp add: bw_main_step_def chan_close_def)
    next
      case (Cons j rest)
      from bw_inv_size [OF inv] BwSending Cons
      have "length (buf (bw_jobs s)) < cap (bw_jobs s)" using capj by simp
      with BwSending Cons nc show ?thesis by (simp add: bw_main_step_def chan_send_def)
    qed
    with main_moves show ?thesis by blast
  next
    case (BwCollecting r)
    show ?thesis
    proof (cases r)
      case 0
      with BwCollecting have "bw_mainpc (bw_main_step (length js) s) \<noteq> bw_mainpc s"
        by (simp add: bw_main_step_def)
      with main_moves show ?thesis by blast
    next
      case (Suc r')
      show ?thesis
      proof (cases "buf (bw_results s)")
        case (Cons x xs)
        with BwCollecting Suc have "bw_mainpc (bw_main_step (length js) s) \<noteq> bw_mainpc s"
          by (simp add: bw_main_step_def chan_recv_def)
        with main_moves show ?thesis by blast
      next
        case Nil
        from inv BwCollecting Suc have "length (bw_printed s) < length js"
          by (simp add: bw_inv_def)
        with bw_inv_size [OF inv] Nil BwCollecting
        have pend: "0 < size (inflight (bw_workers s)) + length (buf (bw_jobs s))"
          by (cases "buf (bw_jobs s)") auto
        show ?thesis
        proof (cases "inflight (bw_workers s) = {#}")
          case False
          then obtain w j where wj: "w < length (bw_workers s)" "bw_workers s ! w = Busy j"
            using inflight_nonempty_Busy by blast
          have "bw_workers (bw_worker w s) = (bw_workers s)[w := Idle]"
            using bw_worker_Busy [OF inv wj] by simp
          then have "bw_workers (bw_worker w s) ! w = Idle"
            using wj(1) by simp
          with wj(2) have "bw_workers (bw_worker w s) \<noteq> bw_workers s"
            by (metis wstate.distinct(1))
          with worker_moves show ?thesis by blast
        next
          case True
          with pend obtain x xs where jb: "buf (bw_jobs s) = x # xs"
            by (cases "buf (bw_jobs s)") simp_all
          with inv have "Exited \<notin> set (bw_workers s)"
            by (auto simp: bw_inv_def)
          moreover from nw have l0: "0 < length (bw_workers s)" by simp
          ultimately have idle: "bw_workers s ! 0 = Idle"
            using all_Idle_if [OF True] by blast
          have "bw_workers (bw_worker 0 s) = (bw_workers s)[0 := Busy x]"
            using l0 idle jb by (simp add: bw_worker_def chan_recv_def)
          then have "bw_workers (bw_worker 0 s) ! 0 = Busy x"
            using l0 by simp
          with idle have "bw_workers (bw_worker 0 s) \<noteq> bw_workers s"
            by (metis wstate.distinct(1))
          with worker_moves show ?thesis by blast
        qed
      qed
    qed
  qed
qed

lemma bw_worker_length: "length (bw_workers (bw_worker w s)) = length (bw_workers s)"
  by (simp add: bw_worker_def split: wstate.splits recv_result.splits send_result.splits)

lemma bw_main_length: "length (bw_workers (bw_main_step n s)) = length (bw_workers s)"
  by (simp add: bw_main_step_def
      split: bw_main.splits list.splits nat.splits recv_result.splits send_result.splits
        option.splits)

lemma bw_step_length: "length (bw_workers (bw_step n s e)) = length (bw_workers s)"
  by (cases e) (simp_all add: bw_step_def bw_worker_length bw_main_length)

lemma bw_foldl_length: "length (bw_workers (foldl (bw_step n) s sched)) = length (bw_workers s)"
  by (induction sched arbitrary: s) (simp_all add: bw_step_length)

lemma bw_run_length: "length (bw_workers (bw_run n js sched)) = n"
  by (simp add: bw_run_def bw_foldl_length bw_init_def)

lemma bw_delivered_subset:
  assumes "bw_inv js s"
  shows "bw_delivered s \<subseteq># image_mset bw_result (mset js)"
proof -
  from assms have "bw_delivered s + image_mset bw_result (bw_pending s)
      = image_mset bw_result (mset js)"
    by (simp add: bw_inv_def)
  then show ?thesis by (metis mset_subset_eq_add_left)
qed


lemma bw_worker_exits:
  assumes inv: "bw_inv js s" and ret: "bw_mainpc s = BwReturned"
    and len: "w < length (bw_workers s)"
  shows "bw_workers (bw_worker w s) ! w = Exited \<and> \<not> bw_panicked (bw_worker w s)"
proof -
  from inv ret have "length (bw_printed s) = length js" and np: "\<not> bw_panicked s"
    and cl: "closed (bw_jobs s)"
    by (simp_all add: bw_inv_def)
  with bw_inv_size [OF inv] have e: "inflight (bw_workers s) = {#}" "buf (bw_jobs s) = []"
    by simp_all
  show ?thesis
  proof (cases "bw_workers s ! w")
    case Exited
    with len np show ?thesis by (simp add: bw_worker_def)
  next
    case Idle
    with len np cl e(2) show ?thesis by (simp add: bw_worker_def chan_recv_def)
  next
    case (Busy j)
    with len have "Busy j \<in> set (bw_workers s)" by (metis nth_mem)
    with inflight_empty_no_Busy [OF e(1)] show ?thesis by blast
  qed
qed

section \<open>WorkerPoolWithMetrics: what reaches the results stream\<close>

lemma mt_expected_add: "mt_expected (A + B) = mt_expected A + mt_expected B"
  by (simp add: mt_expected_def)

lemma mt_expected_add_mset:
  "mt_expected (add_mset j A)
     = (if mt_succeeds j then add_mset (j * 5) (mt_expected A) else mt_expected A)"
  by (simp add: mt_expected_def)

lemma mt_expected_empty: "mt_expected {#} = {#}"
  by (simp add: mt_expected_def)

lemma mt_inv_init: "mt_inv js (mt_init n js)"
  by (simp add: mt_inv_def mt_init_def make_chan_def mt_delivered_def mt_pending_def
      inflight_replicate_Idle)

lemma mt_inv_worker:
  assumes inv: "mt_inv js s"
  shows "mt_inv js (mt_worker w s)"
proof (cases "w < length (mt_workers s)")
  case False
  with inv show ?thesis by (simp add: mt_worker_def)
next
  case len: True
  show ?thesis
  proof (cases "mt_workers s ! w")
    case Exited
    with inv len show ?thesis by (simp add: mt_worker_def)
  next
    case Idle
    consider (got) x xs where "buf (mt_jobs s) = x # xs"
        "chan_recv (mt_jobs s) = Received x ((mt_jobs s)\<lparr>buf := xs\<rparr>)"
      | (cl) "buf (mt_jobs s) = []" "closed (mt_jobs s)" "chan_recv (mt_jobs s) = RecvClosed"
      | (bl) "chan_recv (mt_jobs s) = RecvBlocks"
      using chan_recv_cases [of "mt_jobs s"] by blast
    then show ?thesis
    proof cases
      case got
      have step: "mt_worker w s
          = s\<lparr>mt_jobs := (mt_jobs s)\<lparr>buf := xs\<rparr>, mt_workers := (mt_workers s)[w := Busy x]\<rparr>"
        using len Idle got(2) by (simp add: mt_worker_def)
      show ?thesis
        unfolding step using inv got(1) inflight_Busy [OF len Idle, of x]
        by (auto simp: mt_inv_def mt_delivered_def mt_pending_def)
    next
      case cl
      let ?m = "\<lparr>JobsProcessed = mt_processed s ! w, Errors = mt_errors s ! w\<rparr>"
      consider (p) "chan_send (mt_metrics s) ?m = SendPanics"
        | (ok) c where "chan_send (mt_metrics s) ?m = Sent c"
        | (b) "chan_send (mt_metrics s) ?m = SendBlocks"
        by (cases "chan_send (mt_metrics s) ?m") auto
      then show ?thesis
      proof cases
        case p
        with len Idle cl(3) inv show ?thesis
          by (simp add: mt_worker_def mt_inv_def mt_delivered_def mt_pending_def)
      next
        case ok
        with len Idle cl(3) inv inflight_Exited [OF len Idle] show ?thesis
          by (simp add: mt_worker_def mt_inv_def mt_delivered_def mt_pending_def)
      next
        case b
        with len Idle cl(3) inv show ?thesis
          by (simp add: mt_worker_def)
      qed
    next
      case bl
      with inv len Idle show ?thesis by (simp add: mt_worker_def)
    qed
  next
    case (Busy j)
    have infl: "inflight (mt_workers s) = add_mset j (inflight ((mt_workers s)[w := Idle]))"
      using inflight_Idle [OF len Busy] by simp
    show ?thesis
    proof (cases "go_rem j 4 = 0")
      case True
      then have step: "mt_worker w s
          = s\<lparr>mt_errors := (mt_errors s)[w := mt_errors s ! w + 1],
               mt_workers := (mt_workers s)[w := Idle]\<rparr>"
        using len Busy by (simp add: mt_worker_def)
      show ?thesis
        unfolding step using inv True
        by (simp add: mt_inv_def mt_delivered_def mt_pending_def infl mt_expected_add
            mt_expected_add_mset mt_succeeds_def)
    next
      case False
      consider (p) "chan_send (mt_results s) (j * 5) = SendPanics"
        | (ok) "chan_send (mt_results s) (j * 5)
                  = Sent ((mt_results s)\<lparr>buf := buf (mt_results s) @ [j * 5]\<rparr>)"
        | (b) "chan_send (mt_results s) (j * 5) = SendBlocks"
        using chan_send_cases [of "mt_results s" "j * 5"] by blast
      then show ?thesis
      proof cases
        case p
        with len Busy False inv show ?thesis
          by (simp add: mt_worker_def mt_inv_def mt_delivered_def mt_pending_def)
      next
        case ok
        have step: "mt_worker w s
            = s\<lparr>mt_results := (mt_results s)\<lparr>buf := buf (mt_results s) @ [j * 5]\<rparr>,
                 mt_processed := (mt_processed s)[w := mt_processed s ! w + 1],
                 mt_workers := (mt_workers s)[w := Idle]\<rparr>"
          using len Busy False ok by (simp add: mt_worker_def)
        show ?thesis
          unfolding step using inv False
          by (simp add: mt_inv_def mt_delivered_def mt_pending_def infl mt_expected_add
              mt_expected_add_mset mt_succeeds_def)
      next
        case b
        with len Busy False inv show ?thesis by (simp add: mt_worker_def)
      qed
    qed
  qed
qed

lemma mt_inv_timeout: "mt_inv js s \<Longrightarrow> mt_inv js (mt_timeout s)"
  by (auto simp: mt_timeout_def mt_inv_def mt_delivered_def mt_pending_def
      split: mt_main.splits nat.splits)

lemma mt_inv_main:
  assumes inv: "mt_inv js s"
  shows "mt_inv js (mt_main_step n m s)"
proof (cases "mt_mainpc s")
  case MtReturned
  with inv show ?thesis by (simp add: mt_main_step_def)
next
  case (MtMetrics k)
  show ?thesis
  proof (cases k)
    case 0
    with inv MtMetrics show ?thesis
      by (simp add: mt_main_step_def mt_inv_def mt_delivered_def mt_pending_def)
  next
    case (Suc k')
    with inv MtMetrics show ?thesis
      by (cases "chan_recv (mt_metrics s)")
        (simp_all add: mt_main_step_def mt_inv_def mt_delivered_def mt_pending_def)
  qed
next
  case (MtCollecting r)
  have nc: "\<not> closed (mt_results s)" using inv MtCollecting by (simp add: mt_inv_def)
  show ?thesis
  proof (cases r)
    case 0
    with inv MtCollecting nc show ?thesis
      by (simp add: mt_main_step_def chan_close_def mt_inv_def mt_delivered_def mt_pending_def)
  next
    case (Suc r')
    show ?thesis
    proof (cases "buf (mt_results s)")
      case Nil
      with nc inv MtCollecting Suc show ?thesis
        by (simp add: mt_main_step_def chan_recv_def)
    next
      case (Cons x xs)
      with inv MtCollecting Suc show ?thesis
        by (simp add: mt_main_step_def chan_recv_def mt_inv_def mt_delivered_def mt_pending_def)
    qed
  qed
next
  case (MtSending l)
  show ?thesis
  proof (cases l)
    case Nil
    with inv MtSending show ?thesis
      by (simp add: mt_main_step_def chan_close_def mt_inv_def mt_delivered_def mt_pending_def)
  next
    case (Cons j rest)
    consider (p) "chan_send (mt_jobs s) j = SendPanics"
      | (ok) "chan_send (mt_jobs s) j = Sent ((mt_jobs s)\<lparr>buf := buf (mt_jobs s) @ [j]\<rparr>)"
      | (b) "chan_send (mt_jobs s) j = SendBlocks"
      using chan_send_cases [of "mt_jobs s" j] by blast
    then show ?thesis
    proof cases
      case p
      with inv MtSending Cons show ?thesis
        by (simp add: mt_main_step_def mt_inv_def mt_delivered_def mt_pending_def)
    next
      case ok
      with inv MtSending Cons show ?thesis
        by (simp add: mt_main_step_def mt_inv_def mt_delivered_def mt_pending_def)
    next
      case b
      with inv MtSending Cons show ?thesis by (simp add: mt_main_step_def)
    qed
  qed
qed

lemma mt_inv_step: "mt_inv js s \<Longrightarrow> mt_inv js (mt_step n m s e)"
  by (cases e) (simp_all add: mt_step_def mt_inv_worker mt_inv_main mt_inv_timeout)

lemma mt_inv_foldl: "mt_inv js s \<Longrightarrow> mt_inv js (foldl (mt_step n m) s sched)"
  by (induction sched arbitrary: s) (simp_all add: mt_inv_step)

lemma mt_inv_run: "mt_inv js (mt_run n js sched)"
  unfolding mt_run_def by (rule mt_inv_foldl [OF mt_inv_init])

lemma mt_failed_not_expected:
  assumes "go_rem j 4 = 0"
  shows "j * 5 \<notin># mt_expected A"
proof
  assume "j * 5 \<in># mt_expected A"
  then obtain k where "k \<in># filter_mset mt_succeeds A" "j * 5 = k * 5"
    unfolding mt_expected_def by auto
  then have "mt_succeeds j" by simp
  with assms show False by (simp add: mt_succeeds_def)
qed

section \<open>WorkerPoolWithMetrics: a panic in a worker is not recovered\<close>

lemma mt_metrics_open_worker:
  "\<not> closed (mt_metrics s) \<Longrightarrow> \<not> closed (mt_metrics (mt_worker w s))"
  by (auto simp: mt_worker_def chan_recv_def chan_send_def
      split: wstate.splits list.splits if_splits)

lemma mt_metrics_open_main:
  "\<not> closed (mt_metrics s) \<Longrightarrow> \<not> closed (mt_metrics (mt_main_step n m s))"
  by (auto simp: mt_main_step_def chan_recv_def chan_send_def chan_close_def
      split: mt_main.splits list.splits nat.splits if_splits)

lemma mt_metrics_open_timeout:
  "\<not> closed (mt_metrics s) \<Longrightarrow> \<not> closed (mt_metrics (mt_timeout s))"
  by (auto simp: mt_timeout_def split: mt_main.splits nat.splits)

lemma mt_metrics_open_step:
  "\<not> closed (mt_metrics s) \<Longrightarrow> \<not> closed (mt_metrics (mt_step n m s e))"
  by (cases e)
    (simp_all add: mt_step_def mt_metrics_open_worker mt_metrics_open_main
      mt_metrics_open_timeout)

lemma mt_metrics_open_foldl:
  "\<not> closed (mt_metrics s) \<Longrightarrow> \<not> closed (mt_metrics (foldl (mt_step n m) s sched))"
  by (induction sched arbitrary: s) (simp_all add: mt_metrics_open_step)

lemma mt_metrics_open_run: "\<not> closed (mt_metrics (mt_run n js sched))"
  unfolding mt_run_def
  by (rule mt_metrics_open_foldl) (simp add: mt_init_def make_chan_def)

lemma mt_panicked_foldl: "mt_panicked s \<Longrightarrow> foldl (mt_step n m) s evs = s"
  by (induction evs) (simp_all add: mt_step_def)

lemma mt_run_append:
  "mt_run n js (sched @ evs) = foldl (mt_step n (length js)) (mt_run n js sched) evs"
  by (simp add: mt_run_def)

lemma mt_worker_panics:
  assumes op: "\<not> closed (mt_metrics s)" and np: "\<not> mt_panicked s"
    and p: "mt_panicked (mt_worker w s)"
  shows "mt_worker w s = s\<lparr>mt_panicked := True\<rparr>
     \<and> (\<exists>job. mt_workers s ! w = Busy job \<and> go_rem job 4 \<noteq> 0)
     \<and> closed (mt_results s)"
proof -
  have len: "w < length (mt_workers s)"
  proof (rule ccontr)
    assume "\<not> w < length (mt_workers s)"
    then have "mt_worker w s = s" by (simp add: mt_worker_def)
    with p np show False by simp
  qed
  show ?thesis
  proof (cases "mt_workers s ! w")
    case Idle
    with len op np p show ?thesis
      by (auto simp: mt_worker_def chan_recv_def chan_send_def split: list.splits if_splits)
  next
    case (Busy job)
    with len np p show ?thesis
      by (auto simp: mt_worker_def chan_send_def split: if_splits)
  next
    case Exited
    with len np p show ?thesis by (simp add: mt_worker_def)
  qed
qed

section \<open>WorkerPoolWithBatching: the batches of one worker\<close>

lemma batch_inv_init: "0 < n \<Longrightarrow> batch_inv n batch_init"
  by (simp add: batch_inv_def batch_init_def)

lemma batch_inv_step: "batch_inv n s \<Longrightarrow> batch_inv n (batch_step n s j)"
  by (auto simp: batch_inv_def batch_step_def Let_def)

lemma batch_inv_foldl: "batch_inv n s \<Longrightarrow> batch_inv n (foldl (batch_step n) s js)"
  by (induction js arbitrary: s) (simp_all add: batch_inv_step)

lemma batch_step_content:
  "concat (emitted (batch_step n s j)) @ batch (batch_step n s j)
     = concat (emitted s) @ batch s @ [j]"
  by (simp add: batch_step_def Let_def)

lemma batch_foldl_content:
  "concat (emitted (foldl (batch_step n) s js)) @ batch (foldl (batch_step n) s js)
     = concat (emitted s) @ batch s @ js"
proof (induction js arbitrary: s)
  case Nil
  show ?case by simp
next
  case (Cons j js)
  have "concat (emitted (foldl (batch_step n) (batch_step n s j) js))
          @ batch (foldl (batch_step n) (batch_step n s j) js)
        = (concat (emitted (batch_step n s j)) @ batch (batch_step n s j)) @ js"
    using Cons.IH [of "batch_step n s j"] by simp
  then show ?case by (simp add: batch_step_content)
qed

lemma batch_flush_content: "concat (batch_flush s) = concat (emitted s) @ batch s"
  by (simp add: batch_flush_def)

lemma batch_flush_sizes:
  "batch_inv n s \<Longrightarrow> b \<in> set (batch_flush s) \<Longrightarrow> 0 < length b \<and> length b \<le> n"
  by (auto simp: batch_inv_def batch_flush_def split: if_splits)

lemma batching_worker_concat: "concat (batching_worker n js) = js"
  by (simp add: batching_worker_def batch_flush_content batch_foldl_content batch_init_def)

lemma batching_worker_sizes:
  "0 < n \<Longrightarrow> b \<in> set (batching_worker n js) \<Longrightarrow> 0 < length b \<and> length b \<le> n"
  unfolding batching_worker_def
  by (rule batch_flush_sizes [OF batch_inv_foldl [OF batch_inv_init]])

lemma batch_step_emits:
  "emitted (batch_step n s j) = emitted s
   \<or> (emitted (batch_step n s j) = emitted s @ [batch s @ [j]] \<and> batch (batch_step n s j) = [])"
  by (simp add: batch_step_def Let_def)

section \<open>WorkerPoolWithPriority: strict priority\<close>



lemma pq_low_case_served:
  assumes "pq_low_case w s = Some s'" "pq_served s' \<noteq> pq_served s"
  shows "\<exists>y ys. buf (pq_lowc s) = y # ys \<and> pq_served s' = pq_served s @ [(Low, y)]"
  using assms
  by (cases "buf (pq_lowc s)")
    (auto simp: pq_low_case_def chan_recv_def pq_end_iteration_def split: if_splits)

lemma pq_inner_select_served:
  assumes "pq_served (pq_inner_select w s) \<noteq> pq_served s"
  shows "\<exists>y ys. buf (pq_lowc s) = y # ys \<and> pq_served (pq_inner_select w s) = pq_served s @ [(Low, y)]"
proof (cases "pq_low_nil s")
  case True
  with assms show ?thesis by (simp add: pq_inner_select_def)
next
  case False
  show ?thesis
  proof (cases "pq_low_case w s")
    case None
    with False assms show ?thesis by (simp add: pq_inner_select_def)
  next
    case (Some s')
    with False have "pq_inner_select w s = s'" by (simp add: pq_inner_select_def)
    with assms pq_low_case_served [OF Some] show ?thesis by simp
  qed
qed


section \<open>WorkerPoolWithWaitGroup: invariant, progress, termination\<close>

lemma wg_inv_init: "0 < n \<Longrightarrow> wg_inv js (wg_init n js)"
  by (simp add: wg_inv_def wg_init_def make_chan_def wg_delivered_def wg_pending_def
      inflight_replicate_Idle live_replicate_Idle)

lemma wg_inv_size:
  assumes "wg_inv js s"
  shows "length (wg_printed s) + length (buf (wg_results s)) + size (inflight (wg_workers s))
           + length (buf (wg_jobs s)) + length (remaining (wg_todo s)) = length js"
proof -
  from assms have "wg_delivered s + image_mset (\<lambda>j. j * j) (wg_pending s)
      = image_mset (\<lambda>j. j * j) (mset js)"
    by (simp add: wg_inv_def)
  then have "size (wg_delivered s + image_mset (\<lambda>j. j * j) (wg_pending s))
      = size (image_mset (\<lambda>j. j * j) (mset js))"
    by simp
  then show ?thesis
    by (simp add: wg_delivered_def wg_pending_def)
qed

lemma wg_worker_cases:
  assumes inv: "wg_inv js s"
  shows "wg_worker w s = s
    \<or> (\<exists>x xs. w < length (wg_workers s) \<and> wg_workers s ! w = Idle \<and> buf (wg_jobs s) = x # xs
          \<and> wg_worker w s
              = s\<lparr>wg_jobs := (wg_jobs s)\<lparr>buf := xs\<rparr>, wg_workers := (wg_workers s)[w := Busy x]\<rparr>)
    \<or> (w < length (wg_workers s) \<and> wg_workers s ! w = Idle \<and> buf (wg_jobs s) = []
          \<and> closed (wg_jobs s)
          \<and> wg_worker w s
              = s\<lparr>wg_count := wg_count s - 1, wg_workers := (wg_workers s)[w := Exited]\<rparr>)
    \<or> (\<exists>j. w < length (wg_workers s) \<and> wg_workers s ! w = Busy j
          \<and> wg_worker w s
              = s\<lparr>wg_results := (wg_results s)\<lparr>buf := buf (wg_results s) @ [j * j]\<rparr>,
                   wg_workers := (wg_workers s)[w := Idle]\<rparr>)"
proof (cases "w < length (wg_workers s)")
  case False
  then show ?thesis by (simp add: wg_worker_def)
next
  case len: True
  show ?thesis
  proof (cases "wg_workers s ! w")
    case Exited
    with len show ?thesis by (simp add: wg_worker_def)
  next
    case Idle
    have "0 < live (wg_workers s)" using live_pos_nth [OF len] Idle by simp
    then have cnt: "wg_count s \<noteq> 0" using inv by (simp add: wg_inv_def)
    show ?thesis
    proof (cases "buf (wg_jobs s)")
      case Nil
      with len Idle cnt show ?thesis by (simp add: wg_worker_def chan_recv_def)
    next
      case (Cons x xs)
      with len Idle show ?thesis by (simp add: wg_worker_def chan_recv_def)
    qed
  next
    case (Busy j)
    have "0 < live (wg_workers s)" using live_pos_nth [OF len] Busy by simp
    then have "2 \<le> wg_rank (wg_mainpc s)" using inv by (cases "wg_mainpc s") (auto simp: wg_inv_def)
    then have nc: "\<not> closed (wg_results s)" using inv by (simp add: wg_inv_def)
    have capr: "cap (wg_results s) = length js" using inv by (simp add: wg_inv_def)
    have "inflight (wg_workers s) \<noteq> {#}"
      using inflight_Idle [OF len Busy] by auto
    then have "0 < size (inflight (wg_workers s))"
      by (simp add: nonempty_has_size)
    with wg_inv_size [OF inv] have room: "length (buf (wg_results s)) < cap (wg_results s)"
      using capr by linarith
    show ?thesis
      using len Busy nc room by (simp add: wg_worker_def chan_send_def)
  qed
qed

lemma wg_producer_cases:
  assumes inv: "wg_inv js s"
  shows "wg_producer s = s
    \<or> (\<exists>j rest. wg_todo s = Some (j # rest)
          \<and> wg_producer s
              = s\<lparr>wg_jobs := (wg_jobs s)\<lparr>buf := buf (wg_jobs s) @ [j]\<rparr>, wg_todo := Some rest\<rparr>)
    \<or> (wg_todo s = Some []
          \<and> wg_producer s = s\<lparr>wg_jobs := (wg_jobs s)\<lparr>closed := True\<rparr>, wg_todo := None\<rparr>)"
proof (cases "wg_todo s")
  case None
  then show ?thesis by (simp add: wg_producer_def)
next
  case (Some l)
  have nc: "\<not> closed (wg_jobs s)" and capj: "cap (wg_jobs s) = length js"
    using inv Some by (auto simp: wg_inv_def)
  show ?thesis
  proof (cases l)
    case Nil
    with Some nc show ?thesis by (simp add: wg_producer_def chan_close_def)
  next
    case (Cons j rest)
    from wg_inv_size [OF inv] Some Cons
    have room: "length (buf (wg_jobs s)) < cap (wg_jobs s)"
      using capj by simp
    with Some Cons nc show ?thesis by (simp add: wg_producer_def chan_send_def)
  qed
qed

lemma wg_main_cases:
  assumes inv: "wg_inv js s"
  shows "wg_main_step s = s
    \<or> (wg_mainpc s = WgWait \<and> wg_count s = 0 \<and> wg_main_step s = s\<lparr>wg_mainpc := WgClose\<rparr>)
    \<or> (wg_mainpc s = WgClose
          \<and> wg_main_step s
              = s\<lparr>wg_results := (wg_results s)\<lparr>closed := True\<rparr>, wg_mainpc := WgRange\<rparr>)
    \<or> (\<exists>x xs. wg_mainpc s = WgRange \<and> buf (wg_results s) = x # xs
          \<and> wg_main_step s
              = s\<lparr>wg_results := (wg_results s)\<lparr>buf := xs\<rparr>, wg_printed := wg_printed s @ [x]\<rparr>)
    \<or> (wg_mainpc s = WgRange \<and> buf (wg_results s) = []
          \<and> wg_main_step s = s\<lparr>wg_mainpc := WgReturned\<rparr>)"
proof (cases "wg_mainpc s")
  case WgWait
  then show ?thesis by (simp add: wg_main_step_def)
next
  case WgClose
  with inv have "\<not> closed (wg_results s)" by (simp add: wg_inv_def)
  with WgClose show ?thesis by (simp add: wg_main_step_def chan_close_def)
next
  case WgRange
  with inv have cl: "closed (wg_results s)" by (simp add: wg_inv_def)
  show ?thesis
  proof (cases "buf (wg_results s)")
    case Nil
    with WgRange cl show ?thesis by (simp add: wg_main_step_def chan_recv_def)
  next
    case (Cons x xs)
    with WgRange show ?thesis by (simp add: wg_main_step_def chan_recv_def)
  qed
next
  case WgReturned
  then show ?thesis by (simp add: wg_main_step_def)
qed

lemma wg_inv_worker:
  assumes inv: "wg_inv js s"
  shows "wg_inv js (wg_worker w s)"
proof -
  consider (same) "wg_worker w s = s"
    | (take) x xs where "w < length (wg_workers s)" "wg_workers s ! w = Idle"
        "buf (wg_jobs s) = x # xs"
        "wg_worker w s
           = s\<lparr>wg_jobs := (wg_jobs s)\<lparr>buf := xs\<rparr>, wg_workers := (wg_workers s)[w := Busy x]\<rparr>"
    | (exit) "w < length (wg_workers s)" "wg_workers s ! w = Idle" "buf (wg_jobs s) = []"
        "closed (wg_jobs s)"
        "wg_worker w s
           = s\<lparr>wg_count := wg_count s - 1, wg_workers := (wg_workers s)[w := Exited]\<rparr>"
    | (emit) j where "w < length (wg_workers s)" "wg_workers s ! w = Busy j"
        "wg_worker w s
           = s\<lparr>wg_results := (wg_results s)\<lparr>buf := buf (wg_results s) @ [j * j]\<rparr>,
                wg_workers := (wg_workers s)[w := Idle]\<rparr>"
    using wg_worker_cases [OF inv, of w] by blast
  then show ?thesis
  proof cases
    case same
    with inv show ?thesis by simp
  next
    case take
    have ex: "Exited \<notin> set (wg_workers s)"
      using inv take(3) by (auto simp: wg_inv_def)
    have ex': "Exited \<notin> set ((wg_workers s)[w := Busy x])"
      using ex Exited_update [of "Busy x" "wg_workers s" w] by auto
    have lv: "0 < live (wg_workers s)" using live_pos_nth [OF take(1)] take(2) by simp
    show ?thesis
      unfolding take(4)
      using inv take(3) ex' lv inflight_Busy [OF take(1,2), of x] live_Busy [OF take(1,2), of x]
      by (auto simp: wg_inv_def wg_delivered_def wg_pending_def)
  next
    case exit
    have lv: "0 < live (wg_workers s)" using live_pos_nth [OF exit(1)] exit(2) by simp
    then have r: "wg_rank (wg_mainpc s) = 3" using inv by (cases "wg_mainpc s") (auto simp: wg_inv_def)
    show ?thesis
      unfolding exit(5)
      using inv exit(3,4) r inflight_Exited [OF exit(1,2)] live_Exited [OF exit(1,2)]
      by (auto simp: wg_inv_def wg_delivered_def wg_pending_def)
  next
    case emit
    have lv: "0 < live (wg_workers s)" using live_pos_nth [OF emit(1)] emit(2) by simp
    then have r: "wg_rank (wg_mainpc s) = 3" using inv by (cases "wg_mainpc s") (auto simp: wg_inv_def)
    have ex: "Exited \<in> set ((wg_workers s)[w := Idle]) \<Longrightarrow> Exited \<in> set (wg_workers s)"
      using Exited_update [of Idle "wg_workers s" w] by simp
    have infl: "inflight (wg_workers s) = add_mset j (inflight ((wg_workers s)[w := Idle]))"
      using inflight_Idle [OF emit(1,2)] by simp
    show ?thesis
      unfolding emit(3) using inv ex r live_Idle [OF emit(1,2)]
      by (auto simp: wg_inv_def wg_delivered_def wg_pending_def infl)
  qed
qed

lemma wg_inv_producer:
  assumes inv: "wg_inv js s"
  shows "wg_inv js (wg_producer s)"
proof -
  consider (same) "wg_producer s = s"
    | (send) j rest where "wg_todo s = Some (j # rest)"
        "wg_producer s
           = s\<lparr>wg_jobs := (wg_jobs s)\<lparr>buf := buf (wg_jobs s) @ [j]\<rparr>, wg_todo := Some rest\<rparr>"
    | (close) "wg_todo s = Some []"
        "wg_producer s = s\<lparr>wg_jobs := (wg_jobs s)\<lparr>closed := True\<rparr>, wg_todo := None\<rparr>"
    using wg_producer_cases [OF inv] by blast
  then show ?thesis
  proof cases
    case same
    with inv show ?thesis by simp
  next
    case send
    have ex: "Exited \<notin> set (wg_workers s)" using inv send(1) by (auto simp: wg_inv_def)
    show ?thesis
      unfolding send(2) using inv send(1) ex
      by (auto simp: wg_inv_def wg_delivered_def wg_pending_def)
  next
    case close
    have ex: "Exited \<notin> set (wg_workers s)" using inv close(1) by (auto simp: wg_inv_def)
    show ?thesis
      unfolding close(2) using inv close(1) ex
      by (auto simp: wg_inv_def wg_delivered_def wg_pending_def)
  qed
qed

lemma wg_inv_main:
  assumes inv: "wg_inv js s"
  shows "wg_inv js (wg_main_step s)"
proof -
  consider (same) "wg_main_step s = s"
    | (wait) "wg_mainpc s = WgWait" "wg_count s = 0" "wg_main_step s = s\<lparr>wg_mainpc := WgClose\<rparr>"
    | (close) "wg_mainpc s = WgClose"
        "wg_main_step s = s\<lparr>wg_results := (wg_results s)\<lparr>closed := True\<rparr>, wg_mainpc := WgRange\<rparr>"
    | (recv) x xs where "wg_mainpc s = WgRange" "buf (wg_results s) = x # xs"
        "wg_main_step s
           = s\<lparr>wg_results := (wg_results s)\<lparr>buf := xs\<rparr>, wg_printed := wg_printed s @ [x]\<rparr>"
    | (ret) "wg_mainpc s = WgRange" "buf (wg_results s) = []"
        "wg_main_step s = s\<lparr>wg_mainpc := WgReturned\<rparr>"
    using wg_main_cases [OF inv] by (elim disjE exE conjE) blast+
  then show ?thesis
  proof cases
    case same
    with inv show ?thesis by simp
  next
    case wait
    show ?thesis
      unfolding wait(3) using inv wait(1,2)
      by (auto simp: wg_inv_def wg_delivered_def wg_pending_def)
  next
    case close
    show ?thesis
      unfolding close(2) using inv close(1)
      by (auto simp: wg_inv_def wg_delivered_def wg_pending_def)
  next
    case recv
    show ?thesis
      unfolding recv(3) using inv recv(1,2)
      by (auto simp: wg_inv_def wg_delivered_def wg_pending_def)
  next
    case ret
    show ?thesis
      unfolding ret(3) using inv ret(1,2)
      by (auto simp: wg_inv_def wg_delivered_def wg_pending_def)
  qed
qed

lemma wg_inv_step: "wg_inv js s \<Longrightarrow> wg_inv js (wg_step s e)"
  by (cases e) (simp_all add: wg_step_def wg_inv_worker wg_inv_main wg_inv_producer)

lemma wg_inv_foldl: "wg_inv js s \<Longrightarrow> wg_inv js (foldl wg_step s sched)"
  by (induction sched arbitrary: s) (simp_all add: wg_inv_step)

lemma wg_inv_run: "0 < n \<Longrightarrow> wg_inv js (wg_run n js sched)"
  unfolding wg_run_def by (rule wg_inv_foldl [OF wg_inv_init])

lemma wg_measure_worker:
  assumes inv: "wg_inv js s" and ch: "wg_worker w s \<noteq> s"
  shows "wg_measure (wg_worker w s) < wg_measure s"
proof -
  consider
    (take) x xs where "w < length (wg_workers s)" "wg_workers s ! w = Idle"
      "buf (wg_jobs s) = x # xs"
      "wg_worker w s
         = s\<lparr>wg_jobs := (wg_jobs s)\<lparr>buf := xs\<rparr>, wg_workers := (wg_workers s)[w := Busy x]\<rparr>"
  | (exit) "w < length (wg_workers s)" "wg_workers s ! w = Idle"
      "wg_worker w s
         = s\<lparr>wg_count := wg_count s - 1, wg_workers := (wg_workers s)[w := Exited]\<rparr>"
  | (emit) j where "w < length (wg_workers s)" "wg_workers s ! w = Busy j"
      "wg_worker w s
         = s\<lparr>wg_results := (wg_results s)\<lparr>buf := buf (wg_results s) @ [j * j]\<rparr>,
              wg_workers := (wg_workers s)[w := Idle]\<rparr>"
    using wg_worker_cases [OF inv, of w] ch by blast
  then show ?thesis
  proof cases
    case take
    show ?thesis
      unfolding take(4) using take(3) inflight_Busy [OF take(1,2), of x] live_Busy [OF take(1,2), of x]
      by (simp add: wg_measure_def)
  next
    case exit
    show ?thesis
      unfolding exit(3) using inflight_Exited [OF exit(1,2)] live_Exited [OF exit(1,2)]
      by (simp add: wg_measure_def)
  next
    case emit
    have "size (inflight (wg_workers s)) = Suc (size (inflight ((wg_workers s)[w := Idle])))"
      using inflight_Idle [OF emit(1,2)] by (metis size_add_mset)
    then show ?thesis
      unfolding emit(3) using live_Idle [OF emit(1,2)]
      by (simp add: wg_measure_def)
  qed
qed

lemma wg_measure_producer:
  assumes inv: "wg_inv js s" and ch: "wg_producer s \<noteq> s"
  shows "wg_measure (wg_producer s) < wg_measure s"
  using wg_producer_cases [OF inv] ch
  by (auto simp: wg_measure_def)

lemma wg_measure_main:
  assumes inv: "wg_inv js s" and ch: "wg_main_step s \<noteq> s"
  shows "wg_measure (wg_main_step s) < wg_measure s"
  using wg_main_cases [OF inv] ch
  by (auto simp: wg_measure_def)

lemma wg_measure_step:
  assumes inv: "wg_inv js s" and ch: "wg_step s e \<noteq> s"
  shows "wg_measure (wg_step s e) < wg_measure s"
proof (cases e)
  case MainStep
  with ch wg_measure_main [OF inv] show ?thesis
    by (auto simp: wg_step_def split: if_splits)
next
  case (WorkerStep w)
  with ch wg_measure_worker [OF inv, of w] show ?thesis
    by (auto simp: wg_step_def split: if_splits)
next
  case ProducerStep
  with ch wg_measure_producer [OF inv] show ?thesis
    by (auto simp: wg_step_def split: if_splits)
next
  case TimerFires
  with ch show ?thesis by (simp add: wg_step_def)
qed

lemma wg_drained:
  assumes inv: "wg_inv js s" and lv: "live (wg_workers s) = 0"
  shows "wg_pending s = {#}" "wg_delivered s = image_mset (\<lambda>j. j * j) (mset js)"
proof -
  from inv have ne: "wg_workers s \<noteq> []" by (simp add: wg_inv_def)
  from live_0_Exited [OF lv ne] inv
  have "closed (wg_jobs s)" "buf (wg_jobs s) = []" by (auto simp: wg_inv_def)
  moreover from this inv have "wg_todo s = None" by (simp add: wg_inv_def)
  ultimately show p: "wg_pending s = {#}"
    using live_0_inflight [OF lv] by (simp add: wg_pending_def)
  from inv have "wg_delivered s + image_mset (\<lambda>j. j * j) (wg_pending s)
      = image_mset (\<lambda>j. j * j) (mset js)"
    by (simp add: wg_inv_def)
  with p show "wg_delivered s = image_mset (\<lambda>j. j * j) (mset js)" by simp
qed

lemma wg_closed_results:
  assumes inv: "wg_inv js s" and cl: "closed (wg_results s)"
  shows "live (wg_workers s) = 0"
  using inv cl by (auto simp: wg_inv_def)

lemma wg_returned:
  assumes inv: "wg_inv js s" and ret: "wg_mainpc s = WgReturned"
  shows "mset (wg_printed s) = image_mset (\<lambda>j. j * j) (mset js)"
proof -
  from inv ret have "live (wg_workers s) = 0" "buf (wg_results s) = []"
    by (simp_all add: wg_inv_def)
  with wg_drained(2) [OF inv] show ?thesis by (simp add: wg_delivered_def)
qed

lemma wg_progress:
  assumes inv: "wg_inv js s" and nr: "wg_mainpc s \<noteq> WgReturned"
  shows "\<exists>e. wg_step s e \<noteq> s"
proof -
  have np: "\<not> wg_panicked s" and ne: "wg_workers s \<noteq> []"
    using inv by (simp_all add: wg_inv_def)
  have worker_moves: "wg_workers (wg_worker w s) \<noteq> wg_workers s \<Longrightarrow> ?thesis" for w
  proof -
    assume "wg_workers (wg_worker w s) \<noteq> wg_workers s"
    then have "wg_step s (WorkerStep w) \<noteq> s" using np by (auto simp: wg_step_def)
    then show ?thesis by blast
  qed
  have nth_moves: "w < length (wg_workers s) \<Longrightarrow> wg_workers s ! w = a
      \<Longrightarrow> wg_workers (wg_worker w s) = (wg_workers s)[w := b] \<Longrightarrow> a \<noteq> b \<Longrightarrow> ?thesis" for w a b
  proof -
    assume a: "w < length (wg_workers s)" "wg_workers s ! w = a"
      "wg_workers (wg_worker w s) = (wg_workers s)[w := b]" "a \<noteq> b"
    then have "wg_workers (wg_worker w s) ! w = b" by simp
    with a(2,4) have "wg_workers (wg_worker w s) \<noteq> wg_workers s" by auto
    then show ?thesis by (rule worker_moves)
  qed
  show ?thesis
  proof (cases "wg_todo s")
    case (Some l)
    have "wg_producer s \<noteq> s"
    proof
      assume eq: "wg_producer s = s"
      from wg_producer_cases [OF inv] Some
      have "wg_todo (wg_producer s) \<noteq> wg_todo s \<or> wg_producer s = s"
        by (cases l) auto
      moreover have "wg_todo (wg_producer s) \<noteq> wg_todo s"
      proof -
        have nc: "\<not> closed (wg_jobs s)" and capj: "cap (wg_jobs s) = length js"
          using inv Some by (auto simp: wg_inv_def)
        show ?thesis
        proof (cases l)
          case Nil
          with Some nc show ?thesis by (simp add: wg_producer_def chan_close_def)
        next
          case (Cons j rest)
          from wg_inv_size [OF inv] Some Cons
          have "length (buf (wg_jobs s)) < cap (wg_jobs s)" using capj by simp
          with Some Cons nc show ?thesis by (simp add: wg_producer_def chan_send_def)
        qed
      qed
      ultimately show False using eq by simp
    qed
    then have "wg_step s ProducerStep \<noteq> s" using np by (simp add: wg_step_def)
    then show ?thesis by blast
  next
    case None
    then have cl: "closed (wg_jobs s)" using inv by (simp add: wg_inv_def)
    show ?thesis
    proof (cases "inflight (wg_workers s) = {#}")
      case False
      then obtain w j where wj: "w < length (wg_workers s)" "wg_workers s ! w = Busy j"
        using inflight_nonempty_Busy by blast
      from wg_worker_cases [OF inv, of w] wj
      have "wg_worker w s = s
          \<or> wg_workers (wg_worker w s) = (wg_workers s)[w := Idle]"
        by auto
      moreover have "wg_worker w s \<noteq> s"
      proof -
        have "0 < live (wg_workers s)" using live_pos_nth [OF wj(1)] wj(2) by simp
        then have "2 \<le> wg_rank (wg_mainpc s)"
          using inv by (cases "wg_mainpc s") (auto simp: wg_inv_def)
        then have nc: "\<not> closed (wg_results s)" using inv by (simp add: wg_inv_def)
        have capr: "cap (wg_results s) = length js" using inv by (simp add: wg_inv_def)
        have "0 < size (inflight (wg_workers s))" using False by (simp add: nonempty_has_size)
        with wg_inv_size [OF inv] have room: "length (buf (wg_results s)) < cap (wg_results s)"
          using capr by linarith
        have "wg_workers (wg_worker w s) = (wg_workers s)[w := Idle]"
          using wj nc room by (simp add: wg_worker_def chan_send_def)
        then have "wg_workers (wg_worker w s) ! w = Idle" using wj(1) by simp
        with wj(2) show ?thesis by auto
      qed
      ultimately have "wg_workers (wg_worker w s) = (wg_workers s)[w := Idle]" by blast
      from nth_moves [OF wj this] show ?thesis by simp
    next
      case noBusy: True
      show ?thesis
      proof (cases "buf (wg_jobs s)")
        case (Cons x xs)
        with inv have "Exited \<notin> set (wg_workers s)" by (auto simp: wg_inv_def)
        moreover from ne have l0: "0 < length (wg_workers s)" by simp
        ultimately have idle: "wg_workers s ! 0 = Idle"
          using all_Idle_if [OF noBusy] by blast
        have "wg_workers (wg_worker 0 s) = (wg_workers s)[0 := Busy x]"
          using l0 idle Cons by (simp add: wg_worker_def chan_recv_def)
        from nth_moves [OF l0 idle this] show ?thesis by simp
      next
        case Nil
        show ?thesis
        proof (cases "live (wg_workers s) = 0")
          case False
          then obtain w where w: "w < length (wg_workers s)" "wg_workers s ! w \<noteq> Exited"
            using live_pos_ex by blast
          have "wg_workers s ! w = Idle"
          proof (cases "wg_workers s ! w")
            case (Busy j)
            with w(1) have "Busy j \<in> set (wg_workers s)" by (metis nth_mem)
            with inflight_empty_no_Busy [OF noBusy] show ?thesis by blast
          qed (use w(2) in simp_all)
          moreover have "wg_count s \<noteq> 0" using False inv by (simp add: wg_inv_def)
          ultimately have "wg_workers (wg_worker w s) = (wg_workers s)[w := Exited]"
            using w(1) Nil cl by (simp add: wg_worker_def chan_recv_def)
          from nth_moves [OF w(1) \<open>wg_workers s ! w = Idle\<close> this] show ?thesis by simp
        next
          case True
          then have cnt: "wg_count s = 0" using inv by (simp add: wg_inv_def)
          have "wg_main_step s \<noteq> s"
          proof (cases "wg_mainpc s")
            case WgWait
            with cnt have "wg_mainpc (wg_main_step s) = WgClose" by (simp add: wg_main_step_def)
            with WgWait show ?thesis by auto
          next
            case WgClose
            with inv have "\<not> closed (wg_results s)" by (simp add: wg_inv_def)
            with WgClose have "wg_mainpc (wg_main_step s) = WgRange"
              by (simp add: wg_main_step_def chan_close_def)
            with WgClose show ?thesis by auto
          next
            case WgRange
            with inv have clr: "closed (wg_results s)" by (simp add: wg_inv_def)
            show ?thesis
            proof (cases "buf (wg_results s)")
              case Nil
              with WgRange clr have "wg_mainpc (wg_main_step s) = WgReturned"
                by (simp add: wg_main_step_def chan_recv_def)
              with WgRange show ?thesis by auto
            next
              case (Cons x xs)
              with WgRange have "wg_printed (wg_main_step s) = wg_printed s @ [x]"
                by (simp add: wg_main_step_def chan_recv_def)
              then show ?thesis by auto
            qed
          next
            case WgReturned
            with nr show ?thesis by simp
          qed
          then have "wg_step s MainStep \<noteq> s" using np by (simp add: wg_step_def)
          then show ?thesis by blast
        qed
      qed
    qed
  qed
qed

section \<open>FanOutBasic: each input on one lane\<close>

lemma sum_list_zero_nth:
  fixes f :: "'a \<Rightarrow> nat"
  shows "sum_list (map f xs) = 0 \<Longrightarrow> k < length xs \<Longrightarrow> f (xs ! k) = 0"
  by (induction xs arbitrary: k) (auto simp: nth_Cons split: nat.splits)

lemma sum_list_pos_ex:
  fixes f :: "'a \<Rightarrow> nat"
  shows "0 < sum_list (map f xs) \<Longrightarrow> \<exists>k < length xs. 0 < f (xs ! k)"
proof (induction xs)
  case Nil
  then show ?case by simp
next
  case (Cons a xs)
  show ?case
  proof (cases "0 < f a")
    case True
    then have "0 < length (a # xs) \<and> 0 < f ((a # xs) ! 0)" by simp
    then show ?thesis by blast
  next
    case False
    with Cons obtain k where "k < length xs" "0 < f (xs ! k)" by auto
    then have "Suc k < length (a # xs) \<and> 0 < f ((a # xs) ! Suc k)" by simp
    then show ?thesis by blast
  qed
qed

lemma fo_lane_append:
  "fo_lane k (log @ [(l, v)]) = (if l = k then fo_lane k log @ [v] else fo_lane k log)"
  by (simp add: fo_lane_def)

lemma fo_lane_Nil: "fo_lane k [] = []"
  by (simp add: fo_lane_def)

lemma fo_waiting_replicate: "fo_waiting (replicate n False) = n"
  by (induction n) (simp_all add: fo_waiting_def)

lemma fo_inv_init: "factors \<noteq> [] \<Longrightarrow> fo_inv factors js (fo_init factors js)"
  by (simp add: fo_inv_def fo_lane_inv_def fo_init_def make_chan_def fo_lane_Nil
      fo_waiting_replicate)

lemma fo_waiting_pos: "k < length ds \<Longrightarrow> \<not> ds ! k \<Longrightarrow> 0 < fo_waiting ds"
proof -
  assume a: "k < length ds" "\<not> ds ! k"
  show ?thesis
  proof (rule ccontr)
    assume "\<not> 0 < fo_waiting ds"
    then have "sum_list (map (\<lambda>b. if b then 0 else (1::nat)) ds) = 0"
      by (simp add: fo_waiting_def)
    from sum_list_zero_nth [OF this a(1)] a(2) show False by simp
  qed
qed

lemma fo_waiting_done:
  "k < length ds \<Longrightarrow> \<not> ds ! k \<Longrightarrow> Suc (fo_waiting (ds[k := True])) = fo_waiting ds"
  using sum_list_map_update [of k ds "\<lambda>b. if b then 0 else (1::nat)" True]
  by (simp add: fo_waiting_def)

lemma fo_buffered_update:
  "k < length (fo_outputs s)
   \<Longrightarrow> sum_list (map (\<lambda>c. length (buf c)) ((fo_outputs s)[k := c])) + length (buf (fo_outputs s ! k))
       = fo_buffered s + length (buf c)"
  using sum_list_map_update [of k "fo_outputs s" "\<lambda>c. length (buf c)" c]
  by (simp add: fo_buffered_def)

lemma fo_router_cases:
  assumes inv: "fo_inv factors js s"
  shows "fo_router factors k s = s
    \<or> (\<exists>d ds. k < length factors \<and> fo_routers s ! k = Idle \<and> buf (fo_input s) = d # ds
          \<and> fo_router factors k s
              = s\<lparr>fo_input := (fo_input s)\<lparr>buf := ds\<rparr>,
                   fo_routers := (fo_routers s)[k := Busy d],
                   fo_processing := fo_processing s @ [(k, d)]\<rparr>)
    \<or> (k < length factors \<and> fo_routers s ! k = Idle \<and> buf (fo_input s) = []
          \<and> closed (fo_input s)
          \<and> fo_router factors k s
              = s\<lparr>fo_outputs := (fo_outputs s)[k := (fo_outputs s ! k)\<lparr>closed := True\<rparr>],
                   fo_routers := (fo_routers s)[k := Exited]\<rparr>)
    \<or> (\<exists>d. k < length factors \<and> fo_routers s ! k = Busy d
          \<and> length (buf (fo_outputs s ! k)) < 5
          \<and> fo_router factors k s
              = s\<lparr>fo_outputs := (fo_outputs s)
                     [k := (fo_outputs s ! k)\<lparr>buf := buf (fo_outputs s ! k) @ [d * factors ! k]\<rparr>],
                   fo_routers := (fo_routers s)[k := Idle]\<rparr>)"
proof (cases "k < length (fo_routers s)")
  case False
  then show ?thesis by (simp add: fo_router_def)
next
  case True
  with inv have len: "k < length factors" by (simp add: fo_inv_def)
  with inv have lane: "fo_lane_inv factors s k" by (simp add: fo_inv_def)
  show ?thesis
  proof (cases "fo_routers s ! k")
    case Exited
    with True show ?thesis by (simp add: fo_router_def)
  next
    case Idle
    with lane have nc: "\<not> closed (fo_outputs s ! k)" by (simp add: fo_lane_inv_def)
    show ?thesis
    proof (cases "buf (fo_input s)")
      case Nil
      with True len Idle nc show ?thesis
        by (simp add: fo_router_def chan_recv_def chan_close_def)
    next
      case (Cons d ds)
      with True len Idle show ?thesis by (simp add: fo_router_def chan_recv_def)
    qed
  next
    case (Busy d)
    with lane have nc: "\<not> closed (fo_outputs s ! k)" and c5: "cap (fo_outputs s ! k) = 5"
      by (simp_all add: fo_lane_inv_def)
    with True len Busy show ?thesis
      by (simp add: fo_router_def chan_send_def)
  qed
qed

lemma fo_consumer_cases:
  assumes inv: "fo_inv factors js s"
  shows "fo_consumer k s = s
    \<or> (\<exists>v vs. k < length factors \<and> \<not> fo_done s ! k \<and> buf (fo_outputs s ! k) = v # vs
          \<and> fo_consumer k s
              = s\<lparr>fo_outputs := (fo_outputs s)[k := (fo_outputs s ! k)\<lparr>buf := vs\<rparr>],
                   fo_printed := fo_printed s @ [(k, v)]\<rparr>)
    \<or> (k < length factors \<and> \<not> fo_done s ! k \<and> buf (fo_outputs s ! k) = []
          \<and> closed (fo_outputs s ! k)
          \<and> fo_consumer k s = s\<lparr>fo_done := (fo_done s)[k := True], fo_wg := fo_wg s - 1\<rparr>)"
proof (cases "k < length (fo_done s) \<and> \<not> fo_done s ! k")
  case False
  then show ?thesis by (auto simp: fo_consumer_def)
next
  case True
  with inv have len: "k < length factors" by (simp add: fo_inv_def)
  from True inv have "fo_wg s \<noteq> 0"
    using fo_waiting_pos [of k "fo_done s"] by (simp add: fo_inv_def)
  with True len show ?thesis
    by (cases "buf (fo_outputs s ! k)") (simp_all add: fo_consumer_def chan_recv_def)
qed

lemma fo_producer_cases:
  assumes inv: "fo_inv factors js s"
  shows "fo_producer s = s
    \<or> (\<exists>d rest. fo_todo s = Some (d # rest) \<and> length (buf (fo_input s)) < 10
          \<and> fo_producer s
              = s\<lparr>fo_input := (fo_input s)\<lparr>buf := buf (fo_input s) @ [d]\<rparr>, fo_todo := Some rest\<rparr>)
    \<or> (fo_todo s = Some []
          \<and> fo_producer s = s\<lparr>fo_input := (fo_input s)\<lparr>closed := True\<rparr>, fo_todo := None\<rparr>)"
proof (cases "fo_todo s")
  case None
  then show ?thesis by (simp add: fo_producer_def)
next
  case (Some l)
  have nc: "\<not> closed (fo_input s)" and capi: "cap (fo_input s) = 10"
    using inv Some by (auto simp: fo_inv_def)
  show ?thesis
  proof (cases l)
    case Nil
    with Some nc show ?thesis by (simp add: fo_producer_def chan_close_def)
  next
    case (Cons d rest)
    with Some nc capi show ?thesis by (simp add: fo_producer_def chan_send_def)
  qed
qed

lemma fo_inv_router:
  assumes inv: "fo_inv factors js s"
  shows "fo_inv factors js (fo_router factors k s)"
proof -
  consider (same) "fo_router factors k s = s"
    | (take) d ds where "k < length factors" "fo_routers s ! k = Idle"
        "buf (fo_input s) = d # ds"
        "fo_router factors k s
           = s\<lparr>fo_input := (fo_input s)\<lparr>buf := ds\<rparr>,
                fo_routers := (fo_routers s)[k := Busy d],
                fo_processing := fo_processing s @ [(k, d)]\<rparr>"
    | (exit) "k < length factors" "fo_routers s ! k = Idle" "buf (fo_input s) = []"
        "closed (fo_input s)"
        "fo_router factors k s
           = s\<lparr>fo_outputs := (fo_outputs s)[k := (fo_outputs s ! k)\<lparr>closed := True\<rparr>],
                fo_routers := (fo_routers s)[k := Exited]\<rparr>"
    | (emit) d where "k < length factors" "fo_routers s ! k = Busy d"
        "length (buf (fo_outputs s ! k)) < 5"
        "fo_router factors k s
           = s\<lparr>fo_outputs := (fo_outputs s)
                  [k := (fo_outputs s ! k)\<lparr>buf := buf (fo_outputs s ! k) @ [d * factors ! k]\<rparr>],
                fo_routers := (fo_routers s)[k := Idle]\<rparr>"
    using fo_router_cases [OF inv, of k] by (elim disjE exE conjE) blast+
  then show ?thesis
  proof cases
    case same
    with inv show ?thesis by simp
  next
    case take
    have ex: "Exited \<notin> set (fo_routers s)"
      using inv take(3) by (auto simp: fo_inv_def)
    have ex': "Exited \<notin> set ((fo_routers s)[k := Busy d])"
      using ex Exited_update [of "Busy d" "fo_routers s" k] by auto
    have lanes: "\<forall>i < length factors. fo_lane_inv factors
        (s\<lparr>fo_input := (fo_input s)\<lparr>buf := ds\<rparr>, fo_routers := (fo_routers s)[k := Busy d],
           fo_processing := fo_processing s @ [(k, d)]\<rparr>) i"
    proof (intro allI impI)
      fix i
      assume i: "i < length factors"
      with inv have li: "fo_lane_inv factors s i" and lr: "length (fo_routers s) = length factors"
        by (simp_all add: fo_inv_def)
      show "fo_lane_inv factors
        (s\<lparr>fo_input := (fo_input s)\<lparr>buf := ds\<rparr>, fo_routers := (fo_routers s)[k := Busy d],
           fo_processing := fo_processing s @ [(k, d)]\<rparr>) i"
        using li lr i take(1,2)
        by (cases "i = k") (auto simp: fo_lane_inv_def fo_lane_append)
    qed
    show ?thesis
      unfolding take(4) using inv take(1,3) ex' lanes
      by (auto simp: fo_inv_def)
  next
    case exit
    have lanes: "\<forall>i < length factors. fo_lane_inv factors
        (s\<lparr>fo_outputs := (fo_outputs s)[k := (fo_outputs s ! k)\<lparr>closed := True\<rparr>],
           fo_routers := (fo_routers s)[k := Exited]\<rparr>) i"
    proof (intro allI impI)
      fix i
      assume i: "i < length factors"
      with inv have li: "fo_lane_inv factors s i" and lr: "length (fo_routers s) = length factors"
        and lo: "length (fo_outputs s) = length factors"
        by (simp_all add: fo_inv_def)
      show "fo_lane_inv factors
        (s\<lparr>fo_outputs := (fo_outputs s)[k := (fo_outputs s ! k)\<lparr>closed := True\<rparr>],
           fo_routers := (fo_routers s)[k := Exited]\<rparr>) i"
        using li lr lo i exit(1,2)
        by (cases "i = k") (auto simp: fo_lane_inv_def)
    qed
    have lens: "length ((fo_outputs s)[k := (fo_outputs s ! k)\<lparr>closed := True\<rparr>]) = length factors"
      using inv by (simp add: fo_inv_def)
    show ?thesis
      unfolding exit(5) using inv exit(3,4) lanes
      by (auto simp: fo_inv_def)
  next
    case emit
    have ex: "Exited \<in> set ((fo_routers s)[k := Idle]) \<Longrightarrow> Exited \<in> set (fo_routers s)"
      using Exited_update [of Idle "fo_routers s" k] by simp
    have lanes: "\<forall>i < length factors. fo_lane_inv factors
        (s\<lparr>fo_outputs := (fo_outputs s)
             [k := (fo_outputs s ! k)\<lparr>buf := buf (fo_outputs s ! k) @ [d * factors ! k]\<rparr>],
           fo_routers := (fo_routers s)[k := Idle]\<rparr>) i"
    proof (intro allI impI)
      fix i
      assume i: "i < length factors"
      with inv have li: "fo_lane_inv factors s i" and lr: "length (fo_routers s) = length factors"
        and lo: "length (fo_outputs s) = length factors"
        by (simp_all add: fo_inv_def)
      show "fo_lane_inv factors
        (s\<lparr>fo_outputs := (fo_outputs s)
             [k := (fo_outputs s ! k)\<lparr>buf := buf (fo_outputs s ! k) @ [d * factors ! k]\<rparr>],
           fo_routers := (fo_routers s)[k := Idle]\<rparr>) i"
        using li lr lo i emit(1,2)
        by (cases "i = k") (auto simp: fo_lane_inv_def)
    qed
    show ?thesis
      unfolding emit(4) using inv ex lanes
      by (auto simp: fo_inv_def)
  qed
qed

lemma fo_inv_consumer:
  assumes inv: "fo_inv factors js s"
  shows "fo_inv factors js (fo_consumer k s)"
proof -
  consider (same) "fo_consumer k s = s"
    | (recv) v vs where "k < length factors" "\<not> fo_done s ! k" "buf (fo_outputs s ! k) = v # vs"
        "fo_consumer k s
           = s\<lparr>fo_outputs := (fo_outputs s)[k := (fo_outputs s ! k)\<lparr>buf := vs\<rparr>],
                fo_printed := fo_printed s @ [(k, v)]\<rparr>"
    | (fin) "k < length factors" "\<not> fo_done s ! k" "buf (fo_outputs s ! k) = []"
        "closed (fo_outputs s ! k)"
        "fo_consumer k s = s\<lparr>fo_done := (fo_done s)[k := True], fo_wg := fo_wg s - 1\<rparr>"
    using fo_consumer_cases [OF inv, of k] by (elim disjE exE conjE) blast+
  then show ?thesis
  proof cases
    case same
    with inv show ?thesis by simp
  next
    case recv
    have lanes: "\<forall>i < length factors. fo_lane_inv factors
        (s\<lparr>fo_outputs := (fo_outputs s)[k := (fo_outputs s ! k)\<lparr>buf := vs\<rparr>],
           fo_printed := fo_printed s @ [(k, v)]\<rparr>) i"
    proof (intro allI impI)
      fix i
      assume i: "i < length factors"
      with inv have li: "fo_lane_inv factors s i" and lo: "length (fo_outputs s) = length factors"
        by (simp_all add: fo_inv_def)
      show "fo_lane_inv factors
        (s\<lparr>fo_outputs := (fo_outputs s)[k := (fo_outputs s ! k)\<lparr>buf := vs\<rparr>],
           fo_printed := fo_printed s @ [(k, v)]\<rparr>) i"
        using li lo i recv(1,2,3)
        by (cases "i = k") (auto simp: fo_lane_inv_def fo_lane_append)
    qed
    show ?thesis
      unfolding recv(4) using inv lanes
      by (auto simp: fo_inv_def)
  next
    case fin
    have ld: "k < length (fo_done s)" using inv fin(1) by (simp add: fo_inv_def)
    have lanes: "\<forall>i < length factors. fo_lane_inv factors
        (s\<lparr>fo_done := (fo_done s)[k := True], fo_wg := fo_wg s - 1\<rparr>) i"
    proof (intro allI impI)
      fix i
      assume i: "i < length factors"
      with inv have li: "fo_lane_inv factors s i" and lo: "length (fo_done s) = length factors"
        by (simp_all add: fo_inv_def)
      show "fo_lane_inv factors (s\<lparr>fo_done := (fo_done s)[k := True], fo_wg := fo_wg s - 1\<rparr>) i"
        using li lo i fin(1,3,4)
        by (cases "i = k") (auto simp: fo_lane_inv_def)
    qed
    show ?thesis
      unfolding fin(5) using inv lanes fo_waiting_done [OF ld fin(2)]
      by (auto simp: fo_inv_def)
  qed
qed

lemma fo_inv_producer:
  assumes inv: "fo_inv factors js s"
  shows "fo_inv factors js (fo_producer s)"
proof -
  consider (same) "fo_producer s = s"
    | (send) d rest where "fo_todo s = Some (d # rest)"
        "fo_producer s
           = s\<lparr>fo_input := (fo_input s)\<lparr>buf := buf (fo_input s) @ [d]\<rparr>, fo_todo := Some rest\<rparr>"
    | (close) "fo_todo s = Some []"
        "fo_producer s = s\<lparr>fo_input := (fo_input s)\<lparr>closed := True\<rparr>, fo_todo := None\<rparr>"
    using fo_producer_cases [OF inv] by (elim disjE exE conjE) blast+
  then show ?thesis
  proof cases
    case same
    with inv show ?thesis by simp
  next
    case send
    have ex: "Exited \<notin> set (fo_routers s)" using inv send(1) by (auto simp: fo_inv_def)
    show ?thesis
      unfolding send(2) using inv send(1) ex
      by (auto simp: fo_inv_def fo_lane_inv_def)
  next
    case close
    have ex: "Exited \<notin> set (fo_routers s)" using inv close(1) by (auto simp: fo_inv_def)
    show ?thesis
      unfolding close(2) using inv close(1) ex
      by (auto simp: fo_inv_def fo_lane_inv_def)
  qed
qed

lemma fo_inv_main: "fo_inv factors js s \<Longrightarrow> fo_inv factors js (fo_main s)"
  by (auto simp: fo_main_def fo_inv_def fo_lane_inv_def)

lemma fo_inv_step: "fo_inv factors js s \<Longrightarrow> fo_inv factors js (fo_step factors s e)"
  by (cases e) (simp_all add: fo_step_def fo_inv_router fo_inv_consumer fo_inv_producer fo_inv_main)

lemma fo_inv_foldl:
  "fo_inv factors js s \<Longrightarrow> fo_inv factors js (foldl (fo_step factors) s sched)"
  by (induction sched arbitrary: s) (simp_all add: fo_inv_step)

lemma fo_inv_run: "factors \<noteq> [] \<Longrightarrow> fo_inv factors js (fo_run factors js sched)"
  unfolding fo_run_def by (rule fo_inv_foldl [OF fo_inv_init])

lemma live_0_nth: "live ws = 0 \<Longrightarrow> k < length ws \<Longrightarrow> ws ! k = Exited"
  using live_pos_nth [of k ws] by auto

lemma fo_measure_router:
  assumes inv: "fo_inv factors js s" and ch: "fo_router factors k s \<noteq> s"
  shows "fo_measure (fo_router factors k s) < fo_measure s"
proof -
  have lr: "length (fo_routers s) = length factors" and lo: "length (fo_outputs s) = length factors"
    using inv by (simp_all add: fo_inv_def)
  consider (take) d ds where "k < length factors" "fo_routers s ! k = Idle"
        "buf (fo_input s) = d # ds"
        "fo_router factors k s
           = s\<lparr>fo_input := (fo_input s)\<lparr>buf := ds\<rparr>,
                fo_routers := (fo_routers s)[k := Busy d],
                fo_processing := fo_processing s @ [(k, d)]\<rparr>"
    | (exit) "k < length factors" "fo_routers s ! k = Idle"
        "fo_router factors k s
           = s\<lparr>fo_outputs := (fo_outputs s)[k := (fo_outputs s ! k)\<lparr>closed := True\<rparr>],
                fo_routers := (fo_routers s)[k := Exited]\<rparr>"
    | (emit) d where "k < length factors" "fo_routers s ! k = Busy d"
        "fo_router factors k s
           = s\<lparr>fo_outputs := (fo_outputs s)
                  [k := (fo_outputs s ! k)\<lparr>buf := buf (fo_outputs s ! k) @ [d * factors ! k]\<rparr>],
                fo_routers := (fo_routers s)[k := Idle]\<rparr>"
    using fo_router_cases [OF inv, of k] ch by (elim disjE exE conjE) blast+
  then show ?thesis
  proof cases
    case take
    have k: "k < length (fo_routers s)" using take(1) lr by simp
    show ?thesis
      unfolding take(4)
      using take(3) inflight_Busy [OF k take(2), of d] live_Busy [OF k take(2), of d]
      by (simp add: fo_measure_def fo_buffered_def)
  next
    case exit
    have k: "k < length (fo_routers s)" using exit(1) lr by simp
    have ko: "k < length (fo_outputs s)" using exit(1) lo by simp
    have "sum_list (map (\<lambda>c. length (buf c))
        ((fo_outputs s)[k := (fo_outputs s ! k)\<lparr>closed := True\<rparr>])) = fo_buffered s"
      using fo_buffered_update [OF ko, of "(fo_outputs s ! k)\<lparr>closed := True\<rparr>"] by simp
    then show ?thesis
      unfolding exit(3)
      using inflight_Exited [OF k exit(2)] live_Exited [OF k exit(2)]
      by (simp add: fo_measure_def fo_buffered_def)
  next
    case emit
    have k: "k < length (fo_routers s)" using emit(1) lr by simp
    have ko: "k < length (fo_outputs s)" using emit(1) lo by simp
    have "sum_list (map (\<lambda>c. length (buf c)) ((fo_outputs s)
        [k := (fo_outputs s ! k)\<lparr>buf := buf (fo_outputs s ! k) @ [d * factors ! k]\<rparr>]))
        = Suc (fo_buffered s)"
      using fo_buffered_update [OF ko,
          of "(fo_outputs s ! k)\<lparr>buf := buf (fo_outputs s ! k) @ [d * factors ! k]\<rparr>"]
      by simp
    moreover have "size (inflight (fo_routers s))
        = Suc (size (inflight ((fo_routers s)[k := Idle])))"
      using inflight_Idle [OF k emit(2)] by (metis size_add_mset)
    ultimately show ?thesis
      unfolding emit(3) using live_Idle [OF k emit(2)]
      by (simp add: fo_measure_def fo_buffered_def)
  qed
qed

lemma fo_measure_consumer:
  assumes inv: "fo_inv factors js s" and ch: "fo_consumer k s \<noteq> s"
  shows "fo_measure (fo_consumer k s) < fo_measure s"
proof -
  have lo: "length (fo_outputs s) = length factors" and ld: "length (fo_done s) = length factors"
    using inv by (simp_all add: fo_inv_def)
  consider (recv) v vs where "k < length factors" "buf (fo_outputs s ! k) = v # vs"
        "fo_consumer k s
           = s\<lparr>fo_outputs := (fo_outputs s)[k := (fo_outputs s ! k)\<lparr>buf := vs\<rparr>],
                fo_printed := fo_printed s @ [(k, v)]\<rparr>"
    | (fin) "k < length factors" "\<not> fo_done s ! k"
        "fo_consumer k s = s\<lparr>fo_done := (fo_done s)[k := True], fo_wg := fo_wg s - 1\<rparr>"
    using fo_consumer_cases [OF inv, of k] ch by (elim disjE exE conjE) blast+
  then show ?thesis
  proof cases
    case recv
    have ko: "k < length (fo_outputs s)" using recv(1) lo by simp
    have "Suc (sum_list (map (\<lambda>c. length (buf c))
        ((fo_outputs s)[k := (fo_outputs s ! k)\<lparr>buf := vs\<rparr>]))) = fo_buffered s"
      using fo_buffered_update [OF ko, of "(fo_outputs s ! k)\<lparr>buf := vs\<rparr>"] recv(2) by simp
    then show ?thesis
      unfolding recv(3) by (simp add: fo_measure_def fo_buffered_def)
  next
    case fin
    have kd: "k < length (fo_done s)" using fin(1) ld by simp
    show ?thesis
      unfolding fin(3) using fo_waiting_done [OF kd fin(2)]
      by (simp add: fo_measure_def fo_buffered_def)
  qed
qed

lemma fo_measure_producer:
  assumes inv: "fo_inv factors js s" and ch: "fo_producer s \<noteq> s"
  shows "fo_measure (fo_producer s) < fo_measure s"
  using fo_producer_cases [OF inv] ch
  by (auto simp: fo_measure_def fo_buffered_def)

lemma fo_measure_main:
  assumes ch: "fo_main s \<noteq> s"
  shows "fo_measure (fo_main s) < fo_measure s"
proof -
  from ch have "fo_wg s = 0" "\<not> fo_returned s"
    by (auto simp: fo_main_def split: if_splits)
  then show ?thesis by (simp add: fo_main_def fo_measure_def fo_buffered_def)
qed

lemma fo_measure_step:
  assumes inv: "fo_inv factors js s" and ch: "fo_step factors s e \<noteq> s"
  shows "fo_measure (fo_step factors s e) < fo_measure s"
proof (cases e)
  case FoProducer
  with ch fo_measure_producer [OF inv] show ?thesis
    by (auto simp: fo_step_def split: if_splits)
next
  case (FoRouter k)
  with ch fo_measure_router [OF inv, of k] show ?thesis
    by (auto simp: fo_step_def split: if_splits)
next
  case (FoConsumer k)
  with ch fo_measure_consumer [OF inv, of k] show ?thesis
    by (auto simp: fo_step_def split: if_splits)
next
  case FoMain
  with ch fo_measure_main [of s] show ?thesis
    by (auto simp: fo_step_def split: if_splits)
qed

lemma fo_returned_all:
  assumes inv: "fo_inv factors js s" and ret: "fo_returned s"
  shows "mset (map snd (fo_processing s)) = mset js"
    and "\<forall>k < length factors. fo_lane k (fo_printed s)
            = map (\<lambda>d. d * factors ! k) (fo_lane k (fo_processing s))
          \<and> closed (fo_outputs s ! k)"
proof -
  have ld: "length (fo_done s) = length factors" and lr: "length (fo_routers s) = length factors"
    and ne: "factors \<noteq> []"
    using inv by (simp_all add: fo_inv_def)
  from inv ret have w0: "fo_waiting (fo_done s) = 0" by (simp add: fo_inv_def)
  have dn: "fo_done s ! k" if "k < length factors" for k
  proof (rule ccontr)
    assume "\<not> fo_done s ! k"
    with fo_waiting_pos [of k "fo_done s"] that ld w0 show False by simp
  qed
  have lane: "fo_lane_inv factors s k" if "k < length factors" for k
    using inv that by (simp add: fo_inv_def)
  have ex: "fo_routers s ! k = Exited" if "k < length factors" for k
    using lane [OF that] dn [OF that] by (auto simp: fo_lane_inv_def)
  from ne lr have "0 < length (fo_routers s)" by simp
  moreover from ne have "fo_routers s ! 0 = Exited" using ex [of 0] by simp
  ultimately have "Exited \<in> set (fo_routers s)" by (metis nth_mem)
  with inv have "buf (fo_input s) = []" "fo_todo s = None" by (auto simp: fo_inv_def)
  moreover from inv have "mset (map snd (fo_processing s)) + mset (buf (fo_input s))
      + mset (remaining (fo_todo s)) = mset js"
    by (simp add: fo_inv_def)
  ultimately show "mset (map snd (fo_processing s)) = mset js" by simp
  show "\<forall>k < length factors. fo_lane k (fo_printed s)
            = map (\<lambda>d. d * factors ! k) (fo_lane k (fo_processing s))
          \<and> closed (fo_outputs s ! k)"
  proof (intro allI impI)
    fix k
    assume k: "k < length factors"
    from lane [OF k] dn [OF k] ex [OF k]
    show "fo_lane k (fo_printed s) = map (\<lambda>d. d * factors ! k) (fo_lane k (fo_processing s))
        \<and> closed (fo_outputs s ! k)"
      by (auto simp: fo_lane_inv_def)
  qed
qed

lemma fo_progress:
  assumes inv: "fo_inv factors js s" and nr: "\<not> fo_returned s"
  shows "\<exists>e. fo_step factors s e \<noteq> s"
proof -
  have np: "\<not> fo_panicked s" and ne: "factors \<noteq> []"
    and lo: "length (fo_outputs s) = length factors"
    and lr: "length (fo_routers s) = length factors"
    and ld: "length (fo_done s) = length factors"
    using inv by (simp_all add: fo_inv_def)
  have lane: "fo_lane_inv factors s k" if "k < length factors" for k
    using inv that by (simp add: fo_inv_def)
  have router_moves: "k < length factors \<Longrightarrow> fo_routers s ! k = a
      \<Longrightarrow> fo_routers (fo_router factors k s) = (fo_routers s)[k := b] \<Longrightarrow> a \<noteq> b \<Longrightarrow> ?thesis"
    for k a b
  proof -
    assume a: "k < length factors" "fo_routers s ! k = a"
      "fo_routers (fo_router factors k s) = (fo_routers s)[k := b]" "a \<noteq> b"
    then have "fo_routers (fo_router factors k s) ! k = b" using lr by simp
    with a(2,4) have "fo_router factors k s \<noteq> s" by auto
    then have "fo_step factors s (FoRouter k) \<noteq> s" using np by (simp add: fo_step_def)
    then show ?thesis by blast
  qed
  show ?thesis
  proof (cases "0 < fo_buffered s")
    case True
    then obtain k where k: "k < length (fo_outputs s)" "0 < length (buf (fo_outputs s ! k))"
      unfolding fo_buffered_def using sum_list_pos_ex [of "\<lambda>c. length (buf c)" "fo_outputs s"]
      by blast
    then obtain v vs where b: "buf (fo_outputs s ! k) = v # vs"
      by (cases "buf (fo_outputs s ! k)") auto
    from k lo have kf: "k < length factors" by simp
    from lane [OF kf] b have nd: "\<not> fo_done s ! k" by (auto simp: fo_lane_inv_def)
    have "fo_printed (fo_consumer k s) = fo_printed s @ [(k, v)]"
      using kf ld nd b by (simp add: fo_consumer_def chan_recv_def)
    then have "fo_consumer k s \<noteq> s" by auto
    then have "fo_step factors s (FoConsumer k) \<noteq> s" using np by (simp add: fo_step_def)
    then show ?thesis by blast
  next
    case False
    then have empty: "buf (fo_outputs s ! k) = []" if "k < length factors" for k
      using sum_list_zero_nth [of "\<lambda>c. length (buf c)" "fo_outputs s" k] that lo
      by (simp add: fo_buffered_def)
    show ?thesis
    proof (cases "inflight (fo_routers s) = {#}")
      case False
      then obtain k d where kd: "k < length (fo_routers s)" "fo_routers s ! k = Busy d"
        using inflight_nonempty_Busy by blast
      from kd lr have kf: "k < length factors" by simp
      from lane [OF kf] kd(2) have "\<not> closed (fo_outputs s ! k)" "cap (fo_outputs s ! k) = 5"
        by (simp_all add: fo_lane_inv_def)
      with empty [OF kf] kd
      have "fo_routers (fo_router factors k s) = (fo_routers s)[k := Idle]"
        by (simp add: fo_router_def chan_send_def)
      from router_moves [OF kf kd(2) this] show ?thesis by simp
    next
      case noBusy: True
      show ?thesis
      proof (cases "buf (fo_input s)")
        case (Cons d ds)
        with inv have "Exited \<notin> set (fo_routers s)" by (auto simp: fo_inv_def)
        moreover from ne lr have l0: "0 < length (fo_routers s)" by simp
        ultimately have idle: "fo_routers s ! 0 = Idle"
          using all_Idle_if [OF noBusy] by blast
        have "fo_routers (fo_router factors 0 s) = (fo_routers s)[0 := Busy d]"
          using l0 idle Cons by (simp add: fo_router_def chan_recv_def)
        moreover from ne have "0 < length factors" by simp
        ultimately show ?thesis using router_moves [of 0 Idle "Busy d"] idle by simp
      next
        case Nil
        show ?thesis
        proof (cases "fo_todo s")
          case (Some l)
          have nc: "\<not> closed (fo_input s)" and capi: "cap (fo_input s) = 10"
            using inv Some by (auto simp: fo_inv_def)
          have "fo_todo (fo_producer s) \<noteq> fo_todo s"
            using Some nc capi Nil
            by (cases l) (simp_all add: fo_producer_def chan_close_def chan_send_def)
          then have "fo_producer s \<noteq> s" by auto
          then have "fo_step factors s FoProducer \<noteq> s" using np by (simp add: fo_step_def)
          then show ?thesis by blast
        next
          case None
          then have cl: "closed (fo_input s)" using inv by (simp add: fo_inv_def)
          show ?thesis
          proof (cases "live (fo_routers s) = 0")
            case False
            then obtain k where k: "k < length (fo_routers s)" "fo_routers s ! k \<noteq> Exited"
              using live_pos_ex by blast
            have idle: "fo_routers s ! k = Idle"
            proof (cases "fo_routers s ! k")
              case (Busy j)
              with k(1) have "Busy j \<in> set (fo_routers s)" by (metis nth_mem)
              with inflight_empty_no_Busy [OF noBusy] show ?thesis by blast
            qed (use k(2) in simp_all)
            from k lr have kf: "k < length factors" by simp
            from lane [OF kf] idle have "\<not> closed (fo_outputs s ! k)"
              by (simp add: fo_lane_inv_def)
            then have "fo_routers (fo_router factors k s) = (fo_routers s)[k := Exited]"
              using k(1) idle Nil cl by (simp add: fo_router_def chan_recv_def chan_close_def)
            from router_moves [OF kf idle this] show ?thesis by simp
          next
            case True
            show ?thesis
            proof (cases "fo_waiting (fo_done s) = 0")
              case False
              then have "0 < fo_waiting (fo_done s)" by simp
              then have "0 < sum_list (map (\<lambda>b. if b then 0 else (1::nat)) (fo_done s))"
                unfolding fo_waiting_def .
              from sum_list_pos_ex [OF this] obtain k where k: "k < length (fo_done s)"
                  "0 < (if fo_done s ! k then 0 else (1::nat))"
                by blast
              then have nd: "\<not> fo_done s ! k" by (simp split: if_splits)
              from k ld have kf: "k < length factors" by simp
              have "fo_routers s ! k = Exited" using live_0_nth [OF True] kf lr by simp
              with lane [OF kf] have clo: "closed (fo_outputs s ! k)"
                by (simp add: fo_lane_inv_def)
              have "fo_wg s \<noteq> 0" using False inv by (simp add: fo_inv_def)
              then have "fo_done (fo_consumer k s) = (fo_done s)[k := True]"
                using k(1) nd empty [OF kf] clo by (simp add: fo_consumer_def chan_recv_def)
              then have "fo_done (fo_consumer k s) ! k" using k(1) by simp
              with nd have "fo_consumer k s \<noteq> s" by auto
              then have "fo_step factors s (FoConsumer k) \<noteq> s" using np by (simp add: fo_step_def)
              then show ?thesis by blast
            next
              case w0: True
              then have "fo_wg s = 0" using inv by (simp add: fo_inv_def)
              then have "fo_returned (fo_main s)" by (simp add: fo_main_def)
              with nr have "fo_main s \<noteq> s" by auto
              then have "fo_step factors s FoMain \<noteq> s" using np by (simp add: fo_step_def)
              then show ?thesis by blast
            qed
          qed
        qed
      qed
    qed
  qed
qed

section \<open>WorkerPoolWithDynamicScaling: the worker count\<close>

lemma ds_active_update:
  "w < length ws \<Longrightarrow> ds_active (ws[w := x]) = ds_active ws - ds_is_active (ws ! w) + ds_is_active x"
  using sum_list_map_update [of w ws ds_is_active x] by (simp add: ds_active_def)

lemma ds_spawned_update:
  "w < length ws
   \<Longrightarrow> ds_spawned (ws[w := x]) = ds_spawned ws - ds_is_spawned (ws ! w) + ds_is_spawned x"
  using sum_list_map_update [of w ws ds_is_spawned x] by (simp add: ds_spawned_def)

lemma ds_spawned_nonneg: "0 \<le> ds_spawned ws"
  unfolding ds_spawned_def
proof (induction ws)
  case Nil
  show ?case by simp
next
  case (Cons a ws)
  then show ?case by (cases a) simp_all
qed

lemma ds_active_nonneg: "0 \<le> ds_active ws"
  unfolding ds_active_def
proof (induction ws)
  case Nil
  show ?case by simp
next
  case (Cons a ws)
  then show ?case by (cases a) simp_all
qed

lemma ds_active_all_Exited: "\<forall>w \<in> set ws. w = DsExited \<Longrightarrow> ds_active ws = 0"
  unfolding ds_active_def by (induction ws) simp_all

text \<open>One step: what it does to the count, the registered and the started workers.\<close>

lemma ds_worker_count:
  "ds_workerCount (ds_worker w s) - ds_active (ds_workers (ds_worker w s))
     = ds_workerCount s - ds_active (ds_workers s)"
proof (cases "w < length (ds_workers s)")
  case False
  then show ?thesis by (simp add: ds_worker_def)
next
  case True
  show ?thesis
  proof (cases "ds_workers s ! w")
    case DsSpawned
    with True show ?thesis by (simp add: ds_worker_def ds_active_update)
  next
    case DsIdle
    with True show ?thesis
      by (cases "chan_recv (ds_jobs s)") (simp_all add: ds_worker_def ds_active_update)
  next
    case (DsBusy j)
    with True show ?thesis
      by (cases "chan_send (ds_results s) (j * 6)") (simp_all add: ds_worker_def ds_active_update)
  next
    case DsExited
    with True show ?thesis by (simp add: ds_worker_def)
  qed
qed

lemma ds_worker_bound:
  "ds_workerCount (ds_worker w s) + ds_spawned (ds_workers (ds_worker w s))
     \<le> ds_workerCount s + ds_spawned (ds_workers s)"
proof (cases "w < length (ds_workers s)")
  case False
  then show ?thesis by (simp add: ds_worker_def)
next
  case True
  show ?thesis
  proof (cases "ds_workers s ! w")
    case DsSpawned
    with True show ?thesis by (simp add: ds_worker_def ds_spawned_update)
  next
    case DsIdle
    with True show ?thesis
      by (cases "chan_recv (ds_jobs s)") (simp_all add: ds_worker_def ds_spawned_update)
  next
    case (DsBusy j)
    with True show ?thesis
      by (cases "chan_send (ds_results s) (j * 6)") (simp_all add: ds_worker_def ds_spawned_update)
  next
    case DsExited
    with True show ?thesis by (simp add: ds_worker_def)
  qed
qed

lemma ds_producer_count:
  "ds_workerCount (ds_producer_step m s) = ds_workerCount s
   \<and> ds_active (ds_workers (ds_producer_step m s)) = ds_active (ds_workers s)"
proof (cases "ds_producerpc s")
  case (DsSend l)
  show ?thesis
  proof (cases l)
    case Nil
    with DsSend show ?thesis
      by (cases "chan_close (ds_jobs s)") (simp_all add: ds_producer_step_def)
  next
    case (Cons j rest)
    with DsSend show ?thesis
      by (cases "chan_send (ds_jobs s) j") (simp_all add: ds_producer_step_def)
  qed
next
  case (DsScale j rest)
  then show ?thesis by (simp add: ds_producer_step_def ds_active_def)
next
  case DsFinished
  then show ?thesis by (simp add: ds_producer_step_def)
qed

lemma ds_producer_spawns:
  "ds_producerpc s = DsScale j rest
   \<Longrightarrow> ds_workers (ds_producer_step m s)
       = (if ds_workerCount s < m \<and> go_rem j 3 = 0 then ds_workers s @ [DsSpawned]
          else ds_workers s)"
  by (simp add: ds_producer_step_def)

lemma ds_producer_keeps:
  "(\<forall>j rest. ds_producerpc s \<noteq> DsScale j rest)
   \<Longrightarrow> ds_workers (ds_producer_step m s) = ds_workers s"
proof (cases "ds_producerpc s")
  case (DsSend l)
  show ?thesis
  proof (cases l)
    case Nil
    with DsSend show ?thesis
      by (cases "chan_close (ds_jobs s)") (simp_all add: ds_producer_step_def)
  next
    case (Cons j rest)
    with DsSend show ?thesis
      by (cases "chan_send (ds_jobs s) j") (simp_all add: ds_producer_step_def)
  qed
next
  case (DsScale j rest)
  moreover assume "\<forall>j rest. ds_producerpc s \<noteq> DsScale j rest"
  ultimately show ?thesis by simp
next
  case DsFinished
  then show ?thesis by (simp add: ds_producer_step_def)
qed

lemma ds_main_count:
  "ds_workerCount (ds_main s) = ds_workerCount s \<and> ds_workers (ds_main s) = ds_workers s"
  by (cases "ds_collect s"; cases "chan_recv (ds_results s)") (simp_all add: ds_main_def)

lemma ds_step_count:
  "ds_workerCount (ds_step m s e) - ds_active (ds_workers (ds_step m s e))
     = ds_workerCount s - ds_active (ds_workers s)"
proof (cases e)
  case DsProducer
  then show ?thesis using ds_producer_count [of m s] by (simp add: ds_step_def)
next
  case (DsWorker w)
  then show ?thesis using ds_worker_count [of w s] by (simp add: ds_step_def)
next
  case DsMain
  then show ?thesis using ds_main_count [of s] by (simp add: ds_step_def)
qed

lemma ds_foldl_count:
  "ds_workerCount (foldl (ds_step m) s sched) - ds_active (ds_workers (foldl (ds_step m) s sched))
     = ds_workerCount s - ds_active (ds_workers s)"
  by (induction sched arbitrary: s) (simp_all add: ds_step_count)

lemma ds_run_count: "ds_workerCount (ds_run m js sched) = ds_active (ds_workers (ds_run m js sched))"
  using ds_foldl_count [of m "ds_init js" sched]
  by (simp add: ds_run_def ds_init_def ds_active_def)

lemma ds_step_bound:
  assumes "ds_workerCount s + ds_spawned (ds_workers s) \<le> m"
    and "ds_prompt m s (e # es)"
  shows "ds_workerCount (ds_step m s e) + ds_spawned (ds_workers (ds_step m s e)) \<le> m"
proof (cases "ds_panicked s")
  case True
  with assms(1) show ?thesis by (simp add: ds_step_def)
next
  case np: False
  show ?thesis
  proof (cases e)
    case (DsWorker w)
    with np ds_worker_bound [of w s] assms(1) show ?thesis by (simp add: ds_step_def)
  next
    case DsMain
    with np ds_main_count [of s] assms(1) show ?thesis by (simp add: ds_step_def)
  next
    case DsProducer
    show ?thesis
    proof (cases "\<exists>j rest. ds_producerpc s = DsScale j rest")
      case False
      then have "ds_workers (ds_producer_step m s) = ds_workers s"
        using ds_producer_keeps [of s m] by blast
      with DsProducer np ds_producer_count [of m s] assms(1) show ?thesis
        by (simp add: ds_step_def)
    next
      case True
      then obtain j rest where pc: "ds_producerpc s = DsScale j rest" by blast
      show ?thesis
      proof (cases "ds_workerCount s < m \<and> go_rem j 3 = 0")
        case False
        with ds_producer_spawns [OF pc, of m]
        have "ds_workers (ds_producer_step m s) = ds_workers s" by simp
        with DsProducer np ds_producer_count [of m s] assms(1) show ?thesis
          by (simp add: ds_step_def)
      next
        case True
        with assms(2) DsProducer pc have z: "ds_spawned (ds_workers s) = 0" by simp
        from True ds_producer_spawns [OF pc, of m]
        have "ds_workers (ds_producer_step m s) = ds_workers s @ [DsSpawned]" by simp
        then have "ds_spawned (ds_workers (ds_producer_step m s)) = 1"
          using z by (simp add: ds_spawned_def)
        with DsProducer np ds_producer_count [of m s] True show ?thesis
          by (simp add: ds_step_def)
      qed
    qed
  qed
qed

lemma ds_foldl_bound:
  assumes "ds_workerCount s + ds_spawned (ds_workers s) \<le> m" and "ds_prompt m s sched"
  shows "ds_workerCount (foldl (ds_step m) s sched)
           + ds_spawned (ds_workers (foldl (ds_step m) s sched)) \<le> m"
  using assms
proof (induction sched arbitrary: s)
  case Nil
  then show ?case by simp
next
  case (Cons e es)
  have "ds_workerCount (ds_step m s e) + ds_spawned (ds_workers (ds_step m s e)) \<le> m"
    using ds_step_bound [OF Cons.prems] .
  moreover have "ds_prompt m (ds_step m s e) es" using Cons.prems(2) by simp
  ultimately show ?case using Cons.IH by simp
qed

lemma ds_run_bound:
  assumes "2 \<le> m" and "ds_prompt m (ds_init js) sched"
  shows "ds_workerCount (ds_run m js sched) \<le> m"
proof -
  have "ds_workerCount (ds_init js) + ds_spawned (ds_workers (ds_init js)) \<le> m"
    using assms(1) by (simp add: ds_init_def ds_spawned_def)
  from ds_foldl_bound [OF this assms(2)] ds_spawned_nonneg [of "ds_workers (ds_run m js sched)"]
  show ?thesis by (simp add: ds_run_def)
qed

section \<open>ChannelCloseDetection: the loop ends when the channel is closed\<close>

lemma cc_inv_init: "cc_inv xs (cc_init xs)"
  by (simp add: cc_inv_def cc_init_def make_chan_def)

lemma cc_inv_handoff:
  assumes inv: "cc_inv xs s" and todo: "cc_todo s = Some (v # rest)"
  shows "cc_inv xs (cc_handoff v rest s)"
proof -
  from inv todo have nd: "\<not> cc_done s" by (auto simp: cc_inv_def)
  from inv todo nd obtain ys where ys: "xs = ys @ v # rest" "cc_output s = map ReceivedLine ys"
    by (auto simp: cc_inv_def)
  then have "xs = (ys @ [v]) @ rest
      \<and> cc_output s @ [ReceivedLine v] = map ReceivedLine (ys @ [v])"
    by simp
  then have "\<exists>zs. xs = zs @ rest \<and> cc_output s @ [ReceivedLine v] = map ReceivedLine zs"
    by blast
  with inv todo nd show ?thesis
    by (simp add: cc_inv_def cc_handoff_def)
qed

lemma cc_inv_main:
  assumes inv: "cc_inv xs s"
  shows "cc_inv xs (cc_main s)"
proof (cases "cc_done s")
  case True
  with inv show ?thesis by (simp add: cc_main_def)
next
  case nd: False
  from inv have e: "buf (cc_ch s) = []" by (simp add: cc_inv_def)
  show ?thesis
  proof (cases "closed (cc_ch s)")
    case True
    with e nd have step: "cc_main s
        = s\<lparr>cc_output := cc_output s @ [ChannelIsClosed], cc_done := True\<rparr>"
      by (simp add: cc_main_def chan_recv_def)
    show ?thesis
      unfolding step using inv True nd by (auto simp: cc_inv_def)
  next
    case False
    with inv obtain l where l: "cc_todo s = Some l" by (auto simp: cc_inv_def)
    show ?thesis
    proof (cases l)
      case Nil
      with l False e nd inv show ?thesis by (simp add: cc_main_def chan_recv_def)
    next
      case (Cons v rest)
      with l False e nd have "cc_main s = cc_handoff v rest s"
        by (simp add: cc_main_def chan_recv_def)
      with cc_inv_handoff [OF inv] l Cons show ?thesis by simp
    qed
  qed
qed

lemma cc_inv_sender:
  assumes inv: "cc_inv xs s"
  shows "cc_inv xs (cc_sender s)"
proof (cases "cc_todo s")
  case None
  with inv show ?thesis by (simp add: cc_sender_def)
next
  case (Some l)
  with inv have nc: "\<not> closed (cc_ch s)" and nd: "\<not> cc_done s" by (auto simp: cc_inv_def)
  show ?thesis
  proof (cases l)
    case Nil
    with Some nc have step: "cc_sender s = s\<lparr>cc_ch := (cc_ch s)\<lparr>closed := True\<rparr>, cc_todo := None\<rparr>"
      by (simp add: cc_sender_def chan_close_def)
    show ?thesis
      unfolding step using inv Some Nil nd by (auto simp: cc_inv_def)
  next
    case (Cons v rest)
    with Some nc nd have "cc_sender s = cc_handoff v rest s"
      by (simp add: cc_sender_def)
    with cc_inv_handoff [OF inv] Some Cons show ?thesis by simp
  qed
qed

lemma cc_inv_step: "cc_inv xs s \<Longrightarrow> cc_inv xs (cc_step s e)"
  by (cases e) (simp_all add: cc_step_def cc_inv_main cc_inv_sender)

lemma cc_inv_foldl: "cc_inv xs s \<Longrightarrow> cc_inv xs (foldl cc_step s sched)"
  by (induction sched arbitrary: s) (simp_all add: cc_inv_step)

lemma cc_inv_run: "cc_inv xs (cc_run xs sched)"
  unfolding cc_run_def by (rule cc_inv_foldl [OF cc_inv_init])

lemma cc_done_output:
  assumes inv: "cc_inv xs s" and d: "cc_done s"
  shows "cc_output s = map ReceivedLine xs @ [ChannelIsClosed]"
  using inv d by (auto simp: cc_inv_def)

lemma cc_progress:
  assumes inv: "cc_inv xs s" and nd: "\<not> cc_done s"
  shows "\<exists>e. cc_step s e \<noteq> s"
proof -
  from inv have np: "\<not> cc_panicked s" and e: "buf (cc_ch s) = []" by (simp_all add: cc_inv_def)
  show ?thesis
  proof (cases "cc_todo s")
    case None
    with inv have "closed (cc_ch s)" by (simp add: cc_inv_def)
    with e nd have "cc_done (cc_main s)" by (simp add: cc_main_def chan_recv_def)
    with nd have "cc_main s \<noteq> s" by auto
    then have "cc_step s MainStep \<noteq> s" using np by (simp add: cc_step_def)
    then show ?thesis by blast
  next
    case (Some l)
    with inv have nc: "\<not> closed (cc_ch s)" by (simp add: cc_inv_def)
    have "cc_todo (cc_sender s) \<noteq> cc_todo s"
      using Some nc nd
      by (cases l) (simp_all add: cc_sender_def chan_close_def cc_handoff_def)
    then have "cc_sender s \<noteq> s" by auto
    then have "cc_step s ProducerStep \<noteq> s" using np by (simp add: cc_step_def)
    then show ?thesis by blast
  qed
qed

lemma cc_measure_handoff:
  "cc_todo s = Some (v # rest) \<Longrightarrow> cc_measure (cc_handoff v rest s) < cc_measure s"
  by (simp add: cc_measure_def cc_handoff_def)

lemma cc_measure_main:
  assumes inv: "cc_inv xs s" and ch: "cc_main s \<noteq> s"
  shows "cc_measure (cc_main s) < cc_measure s"
proof -
  from ch have nd: "\<not> cc_done s" by (auto simp: cc_main_def)
  from inv have e: "buf (cc_ch s) = []" by (simp add: cc_inv_def)
  show ?thesis
  proof (cases "closed (cc_ch s)")
    case True
    with e nd show ?thesis by (simp add: cc_main_def chan_recv_def cc_measure_def)
  next
    case False
    with inv obtain l where l: "cc_todo s = Some l" by (auto simp: cc_inv_def)
    show ?thesis
    proof (cases l)
      case Nil
      with l False e nd ch show ?thesis by (simp add: cc_main_def chan_recv_def)
    next
      case (Cons v rest)
      with l False e nd have "cc_main s = cc_handoff v rest s"
        by (simp add: cc_main_def chan_recv_def)
      with cc_measure_handoff [of s v rest] l Cons show ?thesis by simp
    qed
  qed
qed

lemma cc_measure_sender:
  assumes inv: "cc_inv xs s" and ch: "cc_sender s \<noteq> s"
  shows "cc_measure (cc_sender s) < cc_measure s"
proof (cases "cc_todo s")
  case None
  with ch show ?thesis by (simp add: cc_sender_def)
next
  case (Some l)
  with inv have nc: "\<not> closed (cc_ch s)" and nd: "\<not> cc_done s" by (auto simp: cc_inv_def)
  show ?thesis
  proof (cases l)
    case Nil
    with Some nc show ?thesis by (simp add: cc_sender_def chan_close_def cc_measure_def)
  next
    case (Cons v rest)
    with Some nc nd have "cc_sender s = cc_handoff v rest s"
      by (simp add: cc_sender_def)
    with cc_measure_handoff [of s v rest] Some Cons show ?thesis by simp
  qed
qed

lemma cc_measure_step:
  assumes inv: "cc_inv xs s" and ch: "cc_step s e \<noteq> s"
  shows "cc_measure (cc_step s e) < cc_measure s"
proof (cases e)
  case MainStep
  with ch cc_measure_main [OF inv] show ?thesis
    by (auto simp: cc_step_def split: if_splits)
next
  case (WorkerStep w)
  with ch show ?thesis by (simp add: cc_step_def)
next
  case ProducerStep
  with ch cc_measure_sender [OF inv] show ?thesis
    by (auto simp: cc_step_def split: if_splits)
next
  case TimerFires
  with ch show ?thesis by (simp add: cc_step_def)
qed

section \<open>GoroutineWithPanicRecovery: the panic is recovered and the goroutine ends\<close>

lemma pr_inv_init: "pr_inv pr_init"
  by (simp add: pr_inv_def pr_init_def)

lemma pr_inv_goroutine: "pr_inv s \<Longrightarrow> pr_inv (pr_goroutine_step s)"
  by (cases "pr_goroutine s")
    (auto simp: pr_inv_def pr_goroutine_step_def pr_recover_def pr_lines_def)

lemma pr_inv_main: "pr_inv s \<Longrightarrow> pr_inv (pr_main_step s)"
  by (cases "pr_goroutine s") (auto simp: pr_inv_def pr_main_step_def pr_lines_def)

lemma pr_inv_step: "pr_inv s \<Longrightarrow> pr_inv (pr_step s e)"
  by (cases e) (simp_all add: pr_step_def pr_inv_goroutine pr_inv_main)

lemma pr_inv_foldl: "pr_inv s \<Longrightarrow> pr_inv (foldl pr_step s sched)"
  by (induction sched arbitrary: s) (simp_all add: pr_inv_step)

lemma pr_inv_run: "pr_inv (GoroutineWithPanicRecovery sched)"
  unfolding GoroutineWithPanicRecovery_def by (rule pr_inv_foldl [OF pr_inv_init])

lemma pr_done:
  assumes "pr_inv s" "pr_maindone s"
  shows "pr_goroutine s = PrEnded \<and> pr_output s = pr_lines"
  using assms by (cases "pr_goroutine s") (auto simp: pr_inv_def)

lemma pr_progress:
  assumes inv: "pr_inv s" and nd: "\<not> pr_maindone s"
  shows "\<exists>e. pr_step s e \<noteq> s"
proof (cases "pr_goroutine s = PrEnded")
  case True
  with inv have "pr_wg s = 0" "\<not> pr_panicked s" by (simp_all add: pr_inv_def)
  with nd have "pr_maindone (pr_step s MainStep)" by (simp add: pr_step_def pr_main_step_def)
  with nd have "pr_step s MainStep \<noteq> s" by auto
  then show ?thesis by blast
next
  case False
  with inv have "pr_goroutine (pr_step s (WorkerStep 0)) \<noteq> pr_goroutine s"
    by (cases "pr_goroutine s") (auto simp: pr_inv_def pr_step_def pr_goroutine_step_def)
  then have "pr_step s (WorkerStep 0) \<noteq> s" by auto
  then show ?thesis by blast
qed

lemma pr_measure_step:
  assumes inv: "pr_inv s" and ch: "pr_step s e \<noteq> s"
  shows "pr_measure (pr_step s e) < pr_measure s"
proof (cases e)
  case MainStep
  with ch show ?thesis
    by (auto simp: pr_step_def pr_main_step_def pr_measure_def split: if_splits)
next
  case (WorkerStep w)
  with ch inv show ?thesis
    by (cases "pr_goroutine s")
      (auto simp: pr_step_def pr_goroutine_step_def pr_measure_def pr_inv_def split: if_splits)
next
  case ProducerStep
  with ch show ?thesis by (simp add: pr_step_def)
next
  case TimerFires
  with ch show ?thesis by (simp add: pr_step_def)
qed

section \<open>WaitGroupWithPanicRecovery: the panic is recovered and the siblings finish\<close>

lemma map_fst_update:
  "w < length gs \<Longrightarrow> fst (gs ! w) = a \<Longrightarrow> map fst (gs[w := (a, b)]) = map fst gs"
  by (induction gs arbitrary: w) (auto simp: nth_Cons split: nat.splits)

lemma list_all_update: "list_all P xs \<Longrightarrow> P x \<Longrightarrow> list_all P (xs[w := x])"
  using set_update_subset_insert [of xs w x] by (auto simp: list_all_iff)

lemma wr_alive_0: "wr_alive g = 0 \<Longrightarrow> snd g = WrEnded"
  by (cases g rule: wr_alive.cases) simp_all

lemma wr_main_inv_update:
  "w < length gs \<Longrightarrow> fst (gs ! w) = a \<Longrightarrow> wr_main_inv pc gs
     \<Longrightarrow> wr_main_inv pc (gs[w := (a, b)])"
  by (cases pc) (simp_all add: map_fst_update)

lemma wr_inv_init: "wr_inv wr_init"
  by (simp add: wr_inv_def wr_init_def)

lemma wr_inv_wg: "wr_inv s \<Longrightarrow> wr_wg s = sum_list (map wr_alive (wr_goroutines s))"
  unfolding wr_inv_def by (elim conjE)

lemma wr_inv_returned_wg: "wr_inv s \<Longrightarrow> wr_mainpc s = WrReturned \<Longrightarrow> wr_wg s = 0"
  unfolding wr_inv_def by blast

lemma wr_returned_alive:
  "wr_inv s \<Longrightarrow> wr_mainpc s = WrReturned \<Longrightarrow> sum_list (map wr_alive (wr_goroutines s)) = 0"
  using wr_inv_wg [of s] wr_inv_returned_wg [of s] by arith

lemma wr_goroutine_cases:
  assumes inv: "wr_inv s" and len: "w < length (wr_goroutines s)"
  shows "(\<exists>gid. wr_goroutines s ! w = (gid, WrStart)
           \<and> wr_goroutine_step w s
             = s\<lparr>wr_output := wr_output s @ [WrStarting gid],
                 wr_goroutines := (wr_goroutines s)
                   [w := (gid, if gid = 2 then WrLeaving (Some ''Something went wrong!'')
                               else WrSleeping)]\<rparr>)
       \<or> (\<exists>gid. wr_goroutines s ! w = (gid, WrSleeping) \<and> gid \<noteq> 2
           \<and> wr_goroutine_step w s
             = s\<lparr>wr_output := wr_output s @ [WrFinished gid],
                 wr_goroutines := (wr_goroutines s)[w := (gid, WrLeaving None)]\<rparr>)
       \<or> (\<exists>gid r. wr_goroutines s ! w = (gid, WrLeaving r)
           \<and> r = (if gid = 2 then Some ''Something went wrong!'' else None)
           \<and> wr_goroutine_step w s
             = s\<lparr>wr_output := wr_output s @ wr_recover gid r,
                 wr_goroutines := (wr_goroutines s)[w := (gid, WrDone)]\<rparr>)
       \<or> (\<exists>gid. wr_goroutines s ! w = (gid, WrDone) \<and> wr_wg s \<noteq> 0
           \<and> wr_goroutine_step w s
             = s\<lparr>wr_wg := wr_wg s - 1,
                 wr_goroutines := (wr_goroutines s)[w := (gid, WrEnded)]\<rparr>)
       \<or> (\<exists>gid. wr_goroutines s ! w = (gid, WrEnded) \<and> wr_goroutine_step w s = s)"
proof -
  obtain gid pc where g: "wr_goroutines s ! w = (gid, pc)" by (cases "wr_goroutines s ! w")
  have ok: "wr_ok (gid, pc)"
    using inv len g by (auto simp: wr_inv_def list_all_length)
  have wg: "wr_wg s = sum_list (map wr_alive (wr_goroutines s))"
    using inv by (simp add: wr_inv_def)
  show ?thesis
  proof (cases pc)
    case WrStart
    with g len show ?thesis by (simp add: wr_goroutine_step_def)
  next
    case WrSleeping
    with g len ok show ?thesis by (simp add: wr_goroutine_step_def)
  next
    case (WrLeaving r)
    with g len ok show ?thesis by (simp add: wr_goroutine_step_def)
  next
    case WrDone
    have "0 < wr_wg s"
    proof (rule ccontr)
      assume "\<not> 0 < wr_wg s"
      with wg have "sum_list (map wr_alive (wr_goroutines s)) = 0" by simp
      from sum_list_zero_nth [OF this len] g WrDone show False by simp
    qed
    with g len WrDone show ?thesis by (simp add: wr_goroutine_step_def)
  next
    case WrEnded
    with g len show ?thesis by (simp add: wr_goroutine_step_def)
  qed
qed

lemma wr_returned_frozen:
  assumes inv: "wr_inv s" and ret: "wr_mainpc s = WrReturned"
  shows "wr_goroutine_step w s = s"
proof (cases "w < length (wr_goroutines s)")
  case False
  then show ?thesis by (simp add: wr_goroutine_step_def)
next
  case True
  from wr_alive_0 [OF sum_list_zero_nth [OF wr_returned_alive [OF inv ret] True]]
  have "snd (wr_goroutines s ! w) = WrEnded" .
  then obtain gid where "wr_goroutines s ! w = (gid, WrEnded)"
    by (cases "wr_goroutines s ! w") simp
  with True show ?thesis by (simp add: wr_goroutine_step_def)
qed

lemma wr_inv_goroutine:
  assumes inv: "wr_inv s"
  shows "wr_inv (wr_goroutine_step w s)"
proof (cases "wr_mainpc s = WrReturned")
  case True
  with inv show ?thesis by (simp add: wr_returned_frozen)
next
  case nr: False
  show ?thesis
  proof (cases "w < length (wr_goroutines s)")
    case False
    with inv show ?thesis by (simp add: wr_goroutine_step_def)
  next
    case len: True
    let ?gs = "wr_goroutines s"
    have np: "\<not> wr_panicked s" and mi: "wr_main_inv (wr_mainpc s) ?gs"
      and ok: "list_all wr_ok ?gs" and wg: "wr_wg s = sum_list (map wr_alive ?gs)"
      and out: "mset (wr_output s) = sum_list (map wr_printed ?gs)"
      using inv nr by (simp_all add: wr_inv_def)
    note al = sum_list_map_update [OF len, of wr_alive]
    note pr = sum_list_map_update [OF len, of wr_printed]
    consider
      (start) gid where "?gs ! w = (gid, WrStart)"
        "wr_goroutine_step w s
           = s\<lparr>wr_output := wr_output s @ [WrStarting gid],
               wr_goroutines := ?gs
                 [w := (gid, if gid = 2 then WrLeaving (Some ''Something went wrong!'')
                             else WrSleeping)]\<rparr>"
      | (sleep) gid where "?gs ! w = (gid, WrSleeping)" "gid \<noteq> 2"
        "wr_goroutine_step w s
           = s\<lparr>wr_output := wr_output s @ [WrFinished gid],
               wr_goroutines := ?gs[w := (gid, WrLeaving None)]\<rparr>"
      | (leave) gid r where "?gs ! w = (gid, WrLeaving r)"
        "r = (if gid = 2 then Some ''Something went wrong!'' else None)"
        "wr_goroutine_step w s
           = s\<lparr>wr_output := wr_output s @ wr_recover gid r,
               wr_goroutines := ?gs[w := (gid, WrDone)]\<rparr>"
      | (dn) gid where "?gs ! w = (gid, WrDone)" "wr_wg s \<noteq> 0"
        "wr_goroutine_step w s
           = s\<lparr>wr_wg := wr_wg s - 1, wr_goroutines := ?gs[w := (gid, WrEnded)]\<rparr>"
      | (ended) "wr_goroutine_step w s = s"
      using wr_goroutine_cases [OF inv len] by (elim disjE exE conjE) blast+
    then show ?thesis
    proof cases
      case start
      let ?g = "(gid, if gid = 2 then WrLeaving (Some ''Something went wrong!'') else WrSleeping)"
      have "wr_main_inv (wr_mainpc s) (?gs[w := ?g])"
        using wr_main_inv_update [OF len _ mi] start(1) by simp
      moreover have "list_all wr_ok (?gs[w := ?g])"
        by (rule list_all_update [OF ok]) simp
      moreover have "sum_list (map wr_alive (?gs[w := ?g])) = sum_list (map wr_alive ?gs)"
        using al [of ?g] start(1) by (auto split: if_splits)
      moreover have "sum_list (map wr_printed (?gs[w := ?g]))
          = add_mset (WrStarting gid) (sum_list (map wr_printed ?gs))"
        using pr [of ?g] start(1) by (auto split: if_splits)
      ultimately show ?thesis
        using np wg out nr by (simp add: wr_inv_def start(2))
    next
      case sleep
      let ?g = "(gid, WrLeaving None)"
      have "wr_main_inv (wr_mainpc s) (?gs[w := ?g])"
        using wr_main_inv_update [OF len _ mi] sleep(1) by simp
      moreover have "list_all wr_ok (?gs[w := ?g])"
        by (rule list_all_update [OF ok]) (simp add: sleep(2))
      moreover have "sum_list (map wr_alive (?gs[w := ?g])) = sum_list (map wr_alive ?gs)"
        using al [of ?g] sleep(1) by simp
      moreover have "sum_list (map wr_printed (?gs[w := ?g]))
          = add_mset (WrFinished gid) (sum_list (map wr_printed ?gs))"
        using pr [of ?g] sleep(1) by simp
      ultimately show ?thesis
        using np wg out nr by (simp add: wr_inv_def sleep(3))
    next
      case leave
      let ?g = "(gid, WrDone)"
      have "wr_main_inv (wr_mainpc s) (?gs[w := ?g])"
        using wr_main_inv_update [OF len _ mi] leave(1) by simp
      moreover have "list_all wr_ok (?gs[w := ?g])"
        by (rule list_all_update [OF ok]) simp
      moreover have "sum_list (map wr_alive (?gs[w := ?g])) = sum_list (map wr_alive ?gs)"
        using al [of ?g] leave(1) by simp
      moreover have "sum_list (map wr_printed (?gs[w := ?g]))
          = sum_list (map wr_printed ?gs) + mset (wr_recover gid r)"
        using pr [of ?g] leave(1, 2) by (auto simp: wr_recover_def)
      ultimately show ?thesis
        using np wg out nr by (simp add: wr_inv_def leave(3))
    next
      case dn
      let ?g = "(gid, WrEnded)"
      have "wr_main_inv (wr_mainpc s) (?gs[w := ?g])"
        using wr_main_inv_update [OF len _ mi] dn(1) by simp
      moreover have "list_all wr_ok (?gs[w := ?g])"
        by (rule list_all_update [OF ok]) simp
      moreover have "Suc (sum_list (map wr_alive (?gs[w := ?g]))) = sum_list (map wr_alive ?gs)"
        using al [of ?g] dn(1) by simp
      moreover have "sum_list (map wr_printed (?gs[w := ?g])) = sum_list (map wr_printed ?gs)"
        using pr [of ?g] dn(1) by simp
      ultimately show ?thesis
        using np wg out nr by (simp add: wr_inv_def dn(3))
    next
      case ended
      with inv show ?thesis by simp
    qed
  qed
qed

lemma wr_inv_main:
  assumes inv: "wr_inv s"
  shows "wr_inv (wr_main_step s)"
proof (cases "wr_mainpc s")
  case (WrSpawning i)
  show ?thesis
  proof (cases "i \<le> 3")
    case True
    from inv WrSpawning have "1 \<le> i" "map fst (wr_goroutines s) = [1..i - 1]"
      by (simp_all add: wr_inv_def)
    then have "map fst (wr_goroutines s) @ [i] = [1..i]"
      using upto_rec2 [of 1 i] by simp
    with inv WrSpawning True show ?thesis
      by (auto simp: wr_inv_def wr_main_step_def)
  next
    case False
    with inv WrSpawning have "i = 4" by (simp add: wr_inv_def)
    moreover have "[1..3] = [1, 2, 3::int]" by (simp add: upto.simps)
    ultimately show ?thesis
      using inv WrSpawning by (auto simp: wr_inv_def wr_main_step_def)
  qed
next
  case WrWaiting
  with inv show ?thesis by (auto simp: wr_inv_def wr_main_step_def)
next
  case WrReturned
  with inv show ?thesis by (simp add: wr_main_step_def)
qed

lemma wr_inv_step: "wr_inv s \<Longrightarrow> wr_inv (wr_step s e)"
  by (cases e) (simp_all add: wr_step_def wr_inv_goroutine wr_inv_main)

lemma wr_inv_foldl: "wr_inv s \<Longrightarrow> wr_inv (foldl wr_step s sched)"
  by (induction sched arbitrary: s) (simp_all add: wr_inv_step)

lemma wr_inv_run: "wr_inv (WaitGroupWithPanicRecovery sched)"
  unfolding WaitGroupWithPanicRecovery_def by (rule wr_inv_foldl [OF wr_inv_init])

lemma wr_returned:
  assumes inv: "wr_inv s" and ret: "wr_mainpc s = WrReturned"
  shows "wr_goroutines s = [(1, WrEnded), (2, WrEnded), (3, WrEnded)]
     \<and> mset (wr_output s) = wr_lines \<and> last (wr_output s) = WrAllCompleted"
proof -
  let ?gs = "wr_goroutines s"
  from inv ret have ids: "map fst ?gs = [1, 2, 3]"
    and out: "mset (wr_output s) = sum_list (map wr_printed ?gs) + {#WrAllCompleted#}"
    and lst: "last (wr_output s) = WrAllCompleted"
    by (simp_all add: wr_inv_def)
  note z = wr_returned_alive [OF inv ret]
  from ids have len: "length ?gs = 3" using length_map [of fst ?gs] by simp
  have e: "k < 3 \<Longrightarrow> snd (?gs ! k) = WrEnded" for k
    using wr_alive_0 [OF sum_list_zero_nth [OF z, of k]] len by simp
  have f: "k < 3 \<Longrightarrow> fst (?gs ! k) = [1, 2, 3] ! k" for k
    using nth_map [of k ?gs fst] len ids by simp
  have "?gs = [?gs ! 0, ?gs ! 1, ?gs ! 2]"
    using len by (auto simp: list_eq_iff_nth_eq nth_Cons numeral_2_eq_2 split: nat.splits)
  moreover have "?gs ! 0 = (1, WrEnded)" using e [of 0] f [of 0] by (simp add: prod_eq_iff)
  moreover have "?gs ! 1 = (2, WrEnded)" using e [of 1] f [of 1] by (simp add: prod_eq_iff)
  moreover have "?gs ! 2 = (3, WrEnded)" using e [of 2] f [of 2] by (simp add: prod_eq_iff)
  ultimately have gs: "?gs = [(1, WrEnded), (2, WrEnded), (3, WrEnded)]" by simp
  from out have "mset (wr_output s) = wr_lines" by (simp add: gs wr_lines_def)
  with gs lst show ?thesis by simp
qed

lemma wr_progress:
  assumes inv: "wr_inv s" and nr: "wr_mainpc s \<noteq> WrReturned"
  shows "\<exists>e. wr_step s e \<noteq> s"
proof -
  have np: "\<not> wr_panicked s" using inv by (simp add: wr_inv_def)
  show ?thesis
  proof (cases "wr_mainpc s")
    case (WrSpawning i)
    with np have "wr_mainpc (wr_step s MainStep) \<noteq> wr_mainpc s"
      by (simp add: wr_step_def wr_main_step_def)
    then have "wr_step s MainStep \<noteq> s" by auto
    then show ?thesis by blast
  next
    case WrWaiting
    show ?thesis
    proof (cases "wr_wg s = 0")
      case True
      with np WrWaiting have "wr_mainpc (wr_step s MainStep) \<noteq> wr_mainpc s"
        by (simp add: wr_step_def wr_main_step_def)
      then have "wr_step s MainStep \<noteq> s" by auto
      then show ?thesis by blast
    next
      case False
      with wr_inv_wg [OF inv] have "0 < sum_list (map wr_alive (wr_goroutines s))" by arith
      from sum_list_pos_ex [OF this] obtain w where len: "w < length (wr_goroutines s)"
        and al: "0 < wr_alive (wr_goroutines s ! w)" by blast
      have "wr_goroutines (wr_goroutine_step w s) ! w \<noteq> wr_goroutines s ! w"
        using wr_goroutine_cases [OF inv len] al len by (elim disjE exE conjE) auto
      then have "wr_goroutine_step w s \<noteq> s" by auto
      with np have "wr_step s (WorkerStep w) \<noteq> s" by (simp add: wr_step_def)
      then show ?thesis by blast
    qed
  next
    case WrReturned
    with nr show ?thesis by simp
  qed
qed

lemma wr_measure_goroutine:
  assumes inv: "wr_inv s" and ch: "wr_goroutine_step w s \<noteq> s"
  shows "wr_measure (wr_goroutine_step w s) < wr_measure s"
proof -
  have len: "w < length (wr_goroutines s)"
  proof (rule ccontr)
    assume "\<not> w < length (wr_goroutines s)"
    then have "wr_goroutine_step w s = s" by (simp add: wr_goroutine_step_def)
    with ch show False by simp
  qed
  note rk = sum_list_map_update [OF len, of wr_rank]
  from wr_goroutine_cases [OF inv len] ch show ?thesis
  proof (elim disjE exE conjE)
    fix gid
    assume a: "wr_goroutines s ! w = (gid, WrStart)"
      and b: "wr_goroutine_step w s
        = s\<lparr>wr_output := wr_output s @ [WrStarting gid],
            wr_goroutines := (wr_goroutines s)
              [w := (gid, if gid = 2 then WrLeaving (Some ''Something went wrong!'')
                          else WrSleeping)]\<rparr>"
    from rk [of "(gid, if gid = 2 then WrLeaving (Some ''Something went wrong!'')
        else WrSleeping)"] a
    show ?thesis by (auto simp: wr_measure_def b split: if_splits)
  next
    fix gid
    assume a: "wr_goroutines s ! w = (gid, WrSleeping)"
      and b: "wr_goroutine_step w s
        = s\<lparr>wr_output := wr_output s @ [WrFinished gid],
            wr_goroutines := (wr_goroutines s)[w := (gid, WrLeaving None)]\<rparr>"
    from rk [of "(gid, WrLeaving None)"] a
    show ?thesis by (simp add: wr_measure_def b)
  next
    fix gid r
    assume a: "wr_goroutines s ! w = (gid, WrLeaving r)"
      and b: "wr_goroutine_step w s
        = s\<lparr>wr_output := wr_output s @ wr_recover gid r,
            wr_goroutines := (wr_goroutines s)[w := (gid, WrDone)]\<rparr>"
    from rk [of "(gid, WrDone)"] a
    show ?thesis by (simp add: wr_measure_def b)
  next
    fix gid
    assume a: "wr_goroutines s ! w = (gid, WrDone)"
      and b: "wr_goroutine_step w s
        = s\<lparr>wr_wg := wr_wg s - 1,
            wr_goroutines := (wr_goroutines s)[w := (gid, WrEnded)]\<rparr>"
    from rk [of "(gid, WrEnded)"] a
    show ?thesis by (simp add: wr_measure_def b)
  next
    assume "wr_goroutine_step w s = s"
    with ch show ?thesis by simp
  qed
qed

lemma wr_measure_main:
  assumes inv: "wr_inv s" and ch: "wr_main_step s \<noteq> s"
  shows "wr_measure (wr_main_step s) < wr_measure s"
proof (cases "wr_mainpc s")
  case (WrSpawning i)
  with inv have "1 \<le> i" "i \<le> 4" by (simp_all add: wr_inv_def)
  with WrSpawning show ?thesis
    by (auto simp: wr_measure_def wr_main_step_def nat_diff_distrib)
next
  case WrWaiting
  with ch show ?thesis
    by (auto simp: wr_measure_def wr_main_step_def split: if_splits)
next
  case WrReturned
  with ch show ?thesis by (simp add: wr_main_step_def)
qed

lemma wr_measure_step:
  assumes inv: "wr_inv s" and ch: "wr_step s e \<noteq> s"
  shows "wr_measure (wr_step s e) < wr_measure s"
proof (cases e)
  case MainStep
  with ch wr_measure_main [OF inv] show ?thesis
    by (auto simp: wr_step_def split: if_splits)
next
  case (WorkerStep w)
  with ch wr_measure_goroutine [OF inv] show ?thesis
    by (auto simp: wr_step_def split: if_splits)
next
  case ProducerStep
  with ch show ?thesis by (simp add: wr_step_def)
next
  case TimerFires
  with ch show ?thesis by (simp add: wr_step_def)
qed

section \<open>Cancellation tokens: propagation, deadlines, monotonicity\<close>

lemma tk_err_cancel_all: "tk_err (cancel_all e t) \<noteq> None"
  by (cases t) simp

lemma tk_children_cancel_all: "tk_children (cancel_all e t) = map (cancel_all e) (tk_children t)"
  by (cases t) simp

lemma tk_deadline_cancel_all: "tk_deadline (cancel_all e t) = tk_deadline t"
  by (cases t) simp

lemma lookup_cancel_all:
  "lookup (cancel_all e t) q = map_option (cancel_all e) (lookup t q)"
proof (induction q arbitrary: t)
  case Nil
  show ?case by simp
next
  case (Cons i q)
  show ?case by (simp add: tk_children_cancel_all Cons.IH)
qed

lemma lookup_append:
  "lookup t (p @ q) = (case lookup t p of Some n \<Rightarrow> lookup n q | None \<Rightarrow> None)"
  by (induction p arbitrary: t) simp_all

lemma lookup_update_at_same:
  "lookup t p = Some n \<Longrightarrow> lookup (update_at f p t) p = Some (f n)"
proof (induction p arbitrary: t)
  case Nil
  then show ?case by simp
next
  case (Cons i p)
  then show ?case by (auto split: if_splits)
qed

lemma lookup_update_at_below:
  "lookup t p = Some n \<Longrightarrow> lookup (update_at f p t) (p @ q) = lookup (f n) q"
  using lookup_update_at_same [of t p n f] by (simp add: lookup_append)

text \<open>Cancelling a token: every token at or below it has an error.\<close>

lemma cancel_descendants:
  assumes "lookup t p = Some n" and "lookup (cancel p t) (p @ q) = Some m"
  shows "tk_err m \<noteq> None"
proof -
  from assms have "lookup (cancel_all Cancelled n) q = Some m"
    by (simp add: cancel_def lookup_update_at_below)
  then obtain m' where "m = cancel_all Cancelled m'"
    by (auto simp: lookup_cancel_all)
  then show ?thesis by (simp add: tk_err_cancel_all)
qed

lemma cancel_keeps_shape:
  "lookup (cancel_all e t) q = None \<longleftrightarrow> lookup t q = None"
  by (simp add: lookup_cancel_all)

text \<open>An operation that keeps errors on every subtree keeps them when applied at a path.\<close>

lemma keeps_errors_update_at:
  assumes f: "keeps_errors f"
  shows "keeps_errors (update_at f p)"
  unfolding keeps_errors_def
proof (intro allI impI)
  fix t r n
  assume a: "lookup t r = Some n \<and> tk_err n \<noteq> None"
  then show "\<exists>n'. lookup (update_at f p t) r = Some n' \<and> tk_err n' = tk_err n"
  proof (induction p arbitrary: t r)
    case Nil
    with f show ?case by (simp add: keeps_errors_def)
  next
    case (Cons i p)
    show ?case
    proof (cases "i < length (tk_children t)")
      case False
      with Cons.prems show ?thesis by simp
    next
      case True
      show ?thesis
      proof (cases r)
        case Nil
        with Cons.prems True show ?thesis by simp
      next
        case (Cons j r')
        show ?thesis
        proof (cases "j = i")
          case False
          with Cons.prems Cons True show ?thesis by (auto split: if_splits)
        next
          case same: True
          from Cons.prems Cons same True
          have "lookup (tk_children t ! i) r' = Some n \<and> tk_err n \<noteq> None" by simp
          from Cons.IH [OF this] Cons same True show ?thesis by simp
        qed
      qed
    qed
  qed
qed

lemma keeps_errors_cancel_all: "keeps_errors (cancel_all e)"
  unfolding keeps_errors_def
proof (intro allI impI)
  fix t r n
  assume "lookup t r = Some n \<and> tk_err n \<noteq> None"
  then have "lookup (cancel_all e t) r = Some (cancel_all e n) \<and> tk_err (cancel_all e n) = tk_err n"
    by (cases n) (auto simp: lookup_cancel_all)
  then show "\<exists>n'. lookup (cancel_all e t) r = Some n' \<and> tk_err n' = tk_err n" by blast
qed

lemma keeps_errors_add_child: "keeps_errors (add_child d now)"
  unfolding keeps_errors_def
proof (intro allI impI)
  fix t r n
  assume a: "lookup t r = Some n \<and> tk_err n \<noteq> None"
  show "\<exists>n'. lookup (add_child d now t) r = Some n' \<and> tk_err n' = tk_err n"
  proof (cases r)
    case Nil
    with a show ?thesis by (simp add: add_child_def)
  next
    case (Cons j r')
    with a show ?thesis by (auto simp: add_child_def nth_append split: if_splits)
  qed
qed

lemma keeps_errors_expire: "keeps_errors (expire now)"
  unfolding keeps_errors_def
proof (intro allI impI)
  fix t r n
  assume "lookup t r = Some n \<and> tk_err n \<noteq> None"
  then show "\<exists>n'. lookup (expire now t) r = Some n' \<and> tk_err n' = tk_err n"
  proof (induction r arbitrary: t)
    case Nil
    then show ?case by (cases t) auto
  next
    case (Cons j r)
    obtain d err cs where t: "t = Token d err cs" by (cases t)
    show ?case
    proof (cases "reached d now")
      case True
      from Cons.prems keeps_errors_cancel_all [of DeadlineExceeded]
      have "\<exists>n'. lookup (cancel_all DeadlineExceeded t) (j # r) = Some n' \<and> tk_err n' = tk_err n"
        unfolding keeps_errors_def by blast
      with True t show ?thesis by simp
    next
      case False
      from Cons.prems t have j: "j < length cs" and "lookup (cs ! j) r = Some n \<and> tk_err n \<noteq> None"
        by (auto split: if_splits)
      from Cons.IH [OF this(2)] False t j show ?thesis by simp
    qed
  qed
qed

lemma keeps_errorsD:
  "keeps_errors f \<Longrightarrow> Err t r \<noteq> None \<Longrightarrow> Err (f t) r = Err t r"
  unfolding keeps_errors_def Err_def
  by (cases "lookup t r") fastforce+

lemma keeps_errors_cancel: "keeps_errors (cancel p)"
  unfolding cancel_def [abs_def] by (rule keeps_errors_update_at [OF keeps_errors_cancel_all])

lemma keeps_errors_WithCancel: "keeps_errors (WithCancel p now)"
  unfolding WithCancel_def [abs_def] by (rule keeps_errors_update_at [OF keeps_errors_add_child])

lemma keeps_errors_WithDeadline: "keeps_errors (WithDeadline p d now)"
  unfolding WithDeadline_def [abs_def]
  by (rule keeps_errors_update_at [OF keeps_errors_add_child])

lemma reached_min_deadline: "reached (min_deadline a b) now \<longleftrightarrow> reached a now \<or> reached b now"
  by (cases a; cases b) (auto simp: reached_def)

lemma min_deadline_assoc:
  "min_deadline a (min_deadline b c) = min_deadline (min_deadline a b) c"
  by (cases a; cases b; cases c) (simp_all add: min.assoc)

lemma fresh_lookup: "fresh t \<Longrightarrow> lookup t p = Some n \<Longrightarrow> fresh n"
proof (induction p arbitrary: t)
  case Nil
  then show ?case by simp
next
  case (Cons i p)
  obtain d err cs where t: "t = Token d err cs" by (cases t)
  with Cons.prems have "i < length cs" "fresh (cs ! i)" "lookup (cs ! i) p = Some n"
    by (auto simp: list_all_length split: if_splits)
  with Cons.IH show ?case by blast
qed

lemma fresh_err: "fresh n \<Longrightarrow> tk_err n = None"
  by (cases n) simp

lemma Err_cancel_all_fresh:
  "fresh t \<Longrightarrow> lookup t p = Some n \<Longrightarrow> Err (cancel_all e t) p = Some e"
proof -
  assume a: "fresh t" "lookup t p = Some n"
  then have "tk_err n = None" using fresh_lookup fresh_err by blast
  with a(2) show ?thesis by (cases n) (simp add: Err_def lookup_cancel_all)
qed

text \<open>A token fires exactly when its effective deadline has been reached.\<close>

lemma expire_effective_deadline:
  assumes "fresh t" and "lookup t p = Some n"
  shows "Err (expire now t) p
    = (if reached (effective_deadline t p) now then Some DeadlineExceeded else None)"
  using assms
proof (induction p arbitrary: t)
  case Nil
  obtain d err cs where t: "t = Token d err cs" by (cases t)
  with Nil.prems have "err = None" by simp
  with t show ?case by (simp add: Err_def)
next
  case (Cons i p)
  obtain d err cs where t: "t = Token d err cs" by (cases t)
  with Cons.prems have i: "i < length cs" and fr: "fresh (cs ! i)"
    and lk: "lookup (cs ! i) p = Some n" and e: "err = None"
    by (auto simp: list_all_length split: if_splits)
  show ?case
  proof (cases "reached d now")
    case True
    from Err_cancel_all_fresh [OF Cons.prems, of DeadlineExceeded] True t i
    show ?thesis by (simp add: reached_min_deadline)
  next
    case False
    have "Err (expire now t) (i # p) = Err (expire now (cs ! i)) p"
      using False t i by (simp add: Err_def)
    with Cons.IH [OF fr lk] False t i show ?thesis
      by (simp add: reached_min_deadline)
  qed
qed

lemma effective_deadline_child:
  "lookup t p = Some n \<Longrightarrow> i < length (tk_children n)
   \<Longrightarrow> effective_deadline t (p @ [i])
       = min_deadline (effective_deadline t p) (tk_deadline (tk_children n ! i))"
proof (induction p arbitrary: t)
  case Nil
  then show ?case by simp
next
  case (Cons j p)
  from Cons.prems(1) have j: "j < length (tk_children t)"
    and lk: "lookup (tk_children t ! j) p = Some n"
    by (auto split: if_splits)
  from Cons.IH [OF lk Cons.prems(2)] j show ?case
    by (simp add: min_deadline_assoc)
qed

text \<open>A child derived from a cancelled token is cancelled from the start.\<close>

lemma add_child_cancelled:
  assumes "lookup t p = Some n" and "tk_err n \<noteq> None"
  shows "Err (update_at (add_child d now) p t) (p @ [length (tk_children n)]) = tk_err n"
proof -
  from assms(2) obtain e where e: "tk_err n = Some e" by auto
  have "lookup (add_child d now n) [length (tk_children n)] = Some (Token d (Some e) [])"
    by (simp add: add_child_def e)
  with lookup_update_at_below [OF assms(1), of "add_child d now" "[length (tk_children n)]"] e
  show ?thesis by (simp add: Err_def)
qed

text \<open>Below a cancelled token everything is cancelled, in every tree a program can build.\<close>

lemma tk_err_cancel_all_Some: "\<exists>x. tk_err (cancel_all e t) = Some x"
  by (cases t) simp

lemma down_closed_cancel_all: "down_closed (cancel_all e t)"
proof (induction t)
  case (Token d err cs)
  then show ?case by (auto simp: list_all_iff tk_err_cancel_all_Some)
qed

lemma tk_err_keeps: "keeps_errors f \<Longrightarrow> tk_err t \<noteq> None \<Longrightarrow> tk_err (f t) \<noteq> None"
proof -
  assume k: "keeps_errors f" and e: "tk_err t \<noteq> None"
  then have "lookup t [] = Some t \<and> tk_err t \<noteq> None" by simp
  with k obtain n' where "lookup (f t) [] = Some n' \<and> tk_err n' = tk_err t"
    unfolding keeps_errors_def by blast
  with e show ?thesis by simp
qed

lemma down_closed_update_at:
  assumes f: "\<And>t. down_closed t \<Longrightarrow> down_closed (f t)" and k: "keeps_errors f"
  shows "down_closed t \<Longrightarrow> down_closed (update_at f p t)"
proof (induction p arbitrary: t)
  case Nil
  with f show ?case by simp
next
  case (Cons i p)
  obtain d err cs where t: "t = Token d err cs" by (cases t)
  show ?case
  proof (cases "i < length cs")
    case False
    with Cons.prems t show ?thesis by simp
  next
    case True
    from Cons.prems t True have dc: "down_closed (cs ! i)" by (simp add: list_all_length)
    have new: "down_closed (update_at f p (cs ! i))" using Cons.IH [OF dc] .
    have kerr: "tk_err (cs ! i) \<noteq> None \<Longrightarrow> tk_err (update_at f p (cs ! i)) \<noteq> None"
      using tk_err_keeps [OF keeps_errors_update_at [OF k]] by blast
    have "list_all down_closed (cs[i := update_at f p (cs ! i)])"
      using Cons.prems t new True by (auto simp: list_all_length nth_list_update)
    moreover have "err \<noteq> None
        \<longrightarrow> list_all (\<lambda>c. tk_err c \<noteq> None) (cs[i := update_at f p (cs ! i)])"
      using Cons.prems t kerr True by (auto simp: list_all_length nth_list_update)
    ultimately show ?thesis using t True by simp
  qed
qed

lemma down_closed_add_child: "down_closed t \<Longrightarrow> down_closed (add_child d now t)"
  by (cases t) (auto simp: add_child_def split: option.splits)

lemma down_closed_expire: "down_closed t \<Longrightarrow> down_closed (expire now t)"
proof (induction t)
  case (Token d err cs)
  show ?case
  proof (cases "reached d now")
    case True
    then show ?thesis using down_closed_cancel_all [of DeadlineExceeded "Token d err cs"] by simp
  next
    case False
    have "list_all down_closed (map (expire now) cs)"
      using Token by (auto simp: list_all_iff)
    moreover have "err \<noteq> None \<longrightarrow> list_all (\<lambda>c. tk_err c \<noteq> None) (map (expire now) cs)"
      using Token.prems tk_err_keeps [OF keeps_errors_expire]
      by (auto simp: list_all_iff)
    ultimately show ?thesis using False by simp
  qed
qed

lemma down_closed_apply: "down_closed (ctx_tree s) \<Longrightarrow> down_closed (ctx_tree (ctx_apply s op))"
proof (cases op)
  case (OpWithCancel p)
  assume "down_closed (ctx_tree s)"
  with OpWithCancel show ?thesis
    by (simp add: WithCancel_def down_closed_update_at down_closed_add_child keeps_errors_add_child)
next
  case (OpWithDeadline p d)
  assume "down_closed (ctx_tree s)"
  with OpWithDeadline show ?thesis
    by (simp add: WithDeadline_def down_closed_update_at down_closed_add_child
        keeps_errors_add_child)
next
  case (OpWithTimeout p d)
  assume "down_closed (ctx_tree s)"
  with OpWithTimeout show ?thesis
    by (simp add: WithTimeout_def WithDeadline_def down_closed_update_at down_closed_add_child
        keeps_errors_add_child)
next
  case (OpCancel p)
  assume "down_closed (ctx_tree s)"
  with OpCancel show ?thesis
    by (simp add: cancel_def down_closed_update_at down_closed_cancel_all keeps_errors_cancel_all)
next
  case (OpSleep dt)
  assume "down_closed (ctx_tree s)"
  with OpSleep show ?thesis by (simp add: down_closed_expire)
qed

lemma down_closed_foldl:
  "down_closed (ctx_tree s) \<Longrightarrow> down_closed (ctx_tree (foldl ctx_apply s ops))"
  by (induction ops arbitrary: s) (simp_all add: down_closed_apply)

lemma down_closed_run: "down_closed (ctx_tree (ctx_run ops))"
  unfolding ctx_run_def
  by (rule down_closed_foldl) (simp add: ctx_init_def Background_def)

lemma down_closed_lookup: "down_closed t \<Longrightarrow> lookup t p = Some n \<Longrightarrow> down_closed n"
proof (induction p arbitrary: t)
  case Nil
  then show ?case by simp
next
  case (Cons i p)
  obtain d err cs where t: "t = Token d err cs" by (cases t)
  with Cons.prems have "i < length cs" "down_closed (cs ! i)" "lookup (cs ! i) p = Some n"
    by (auto simp: list_all_length split: if_splits)
  with Cons.IH show ?case by blast
qed

lemma down_closed_below:
  "down_closed n \<Longrightarrow> tk_err n \<noteq> None \<Longrightarrow> lookup n q = Some m \<Longrightarrow> tk_err m \<noteq> None"
proof (induction q arbitrary: n)
  case Nil
  then show ?case by simp
next
  case (Cons i q)
  obtain d err cs where n: "n = Token d err cs" by (cases n)
  with Cons.prems have "i < length cs" "down_closed (cs ! i)" "tk_err (cs ! i) \<noteq> None"
    "lookup (cs ! i) q = Some m"
    by (auto simp: list_all_length split: if_splits)
  with Cons.IH show ?case by blast
qed

lemma cancelled_descendants:
  assumes "down_closed t" and "Err t p \<noteq> None" and "lookup t (p @ q) = Some m"
  shows "tk_err m \<noteq> None"
proof -
  from assms(2) obtain n where n: "lookup t p = Some n" "tk_err n \<noteq> None"
    by (cases "lookup t p") (auto simp: Err_def)
  from assms(3) n(1) have "lookup n q = Some m" by (simp add: lookup_append)
  with down_closed_below [OF down_closed_lookup [OF assms(1) n(1)] n(2)] show ?thesis by blast
qed

lemma keeps_errors_apply:
  "Err (ctx_tree s) r \<noteq> None \<Longrightarrow> Err (ctx_tree (ctx_apply s op)) r = Err (ctx_tree s) r"
proof (cases op)
  case (OpWithCancel p)
  assume "Err (ctx_tree s) r \<noteq> None"
  with OpWithCancel keeps_errorsD [OF keeps_errors_WithCancel] show ?thesis by simp
next
  case (OpWithDeadline p d)
  assume "Err (ctx_tree s) r \<noteq> None"
  with OpWithDeadline keeps_errorsD [OF keeps_errors_WithDeadline] show ?thesis by simp
next
  case (OpWithTimeout p d)
  assume "Err (ctx_tree s) r \<noteq> None"
  with OpWithTimeout keeps_errorsD [OF keeps_errors_WithDeadline] show ?thesis
    by (simp add: WithTimeout_def)
next
  case (OpCancel p)
  assume "Err (ctx_tree s) r \<noteq> None"
  with OpCancel keeps_errorsD [OF keeps_errors_cancel] show ?thesis by simp
next
  case (OpSleep dt)
  assume "Err (ctx_tree s) r \<noteq> None"
  with OpSleep keeps_errorsD [OF keeps_errors_expire] show ?thesis by simp
qed

lemma keeps_errors_foldl:
  "Err (ctx_tree s) r \<noteq> None \<Longrightarrow> Err (ctx_tree (foldl ctx_apply s ops)) r = Err (ctx_tree s) r"
proof (induction ops arbitrary: s)
  case Nil
  show ?case by simp
next
  case (Cons op ops)
  have "Err (ctx_tree (ctx_apply s op)) r = Err (ctx_tree s) r"
    using keeps_errors_apply [OF Cons.prems] .
  with Cons.prems Cons.IH [of "ctx_apply s op"] show ?case by simp
qed

section \<open>Claims\<close>

subsection \<open>C1: one result per submitted job\<close>

text \<open>
  C1 as stated fails for the metrics-collecting pool.  In the run \<open>mt_schedule\<close> of
  \<^verbatim>\<open>WorkerPoolWithMetrics\<close> every worker has ended, main has returned and nothing
  panicked; nine jobs were submitted, and the results stream carried seven results:
  none for job 4 and none for job 8.
\<close>

theorem C1_metrics_pool_counterexample:
  "mt_mainpc (WorkerPoolWithMetrics mt_schedule) = MtReturned
   \<and> mt_workers (WorkerPoolWithMetrics mt_schedule) = [Exited, Exited, Exited]
   \<and> \<not> mt_panicked (WorkerPoolWithMetrics mt_schedule)
   \<and> mt_printed (WorkerPoolWithMetrics mt_schedule) = [5, 10, 15, 25, 30, 35, 45]
   \<and> buf (mt_results (WorkerPoolWithMetrics mt_schedule)) = []
   \<and> mt_printed_metrics (WorkerPoolWithMetrics mt_schedule)
       = [\<lparr>JobsProcessed = 7, Errors = 2\<rparr>, \<lparr>JobsProcessed = 0, Errors = 0\<rparr>,
          \<lparr>JobsProcessed = 0, Errors = 0\<rparr>]"
  by code_simp

text \<open>
  C1 (amended).  In the error-handling pool with at least one worker, for every list of
  submitted jobs and every schedule: the results delivered so far together with the
  results of the jobs still unsent, queued or held by a worker are exactly the results
  of the submitted jobs, one per job (no duplicate, no drop); as long as main has not
  returned some goroutine can take a step; every step that changes the state lowers
  \<open>eh_measure\<close>, so main returns after finitely many steps; and when it has returned it
  has received exactly one result per job.  In the metrics-collecting pool, for every
  schedule, the same accounting holds for the jobs with \<^verbatim>\<open>job%4 != 0\<close> only: a job whose
  ID is divisible by 4 never yields a result, and once no job is unsent, queued or held
  the stream has carried exactly \<^verbatim>\<open>job*5\<close> for every other job.
\<close>

theorem C1_results_per_job:
  assumes "0 < numWorkers"
  shows "eh_delivered (eh_run numWorkers js sched)
           + image_mset processJob (eh_pending (eh_run numWorkers js sched))
         = image_mset processJob (mset js)
    \<and> (eh_mainpc (eh_run numWorkers js sched) \<noteq> Returned
         \<longrightarrow> (\<exists>e. eh_step (length js) (eh_run numWorkers js sched) e
                    \<noteq> eh_run numWorkers js sched))
    \<and> (eh_step (length js) (eh_run numWorkers js sched) e \<noteq> eh_run numWorkers js sched
         \<longrightarrow> eh_measure (eh_step (length js) (eh_run numWorkers js sched) e)
               < eh_measure (eh_run numWorkers js sched))
    \<and> (eh_mainpc (eh_run numWorkers js sched) = Returned
         \<longrightarrow> mset (eh_printed (eh_run numWorkers js sched)) = image_mset processJob (mset js))
    \<and> mt_delivered (mt_run numWorkers ks sched)
           + mt_expected (mt_pending (mt_run numWorkers ks sched))
         = mt_expected (mset ks)
    \<and> (go_rem k 4 = 0 \<longrightarrow> k * 5 \<notin># mt_delivered (mt_run numWorkers ks sched))
    \<and> (mt_pending (mt_run numWorkers ks sched) = {#}
         \<longrightarrow> mt_delivered (mt_run numWorkers ks sched)
               = image_mset (\<lambda>job. job * 5) (filter_mset (\<lambda>job. go_rem job 4 \<noteq> 0) (mset ks)))"
proof -
  let ?s = "eh_run numWorkers js sched"
  let ?t = "mt_run numWorkers ks sched"
  have inv: "eh_inv js ?s" by (rule eh_inv_run)
  have minv: "mt_inv ks ?t" by (rule mt_inv_run)
  have p1: "eh_delivered ?s + image_mset processJob (eh_pending ?s)
      = image_mset processJob (mset js)"
    using inv by (simp add: eh_inv_def)
  have "eh_workers ?s \<noteq> []"
    using eh_run_length [of numWorkers js sched] assms by auto
  then have p2: "eh_mainpc ?s \<noteq> Returned \<longrightarrow> (\<exists>e. eh_step (length js) ?s e \<noteq> ?s)"
    using eh_progress [OF inv] by blast
  have p3: "eh_step (length js) ?s e \<noteq> ?s
      \<longrightarrow> eh_measure (eh_step (length js) ?s e) < eh_measure ?s"
    using eh_measure_step [OF inv] by blast
  have p4: "eh_mainpc ?s = Returned
      \<longrightarrow> mset (eh_printed ?s) = image_mset processJob (mset js)"
    using eh_returned [OF inv] by blast
  have p5: "mt_delivered ?t + mt_expected (mt_pending ?t) = mt_expected (mset ks)"
    using minv by (simp add: mt_inv_def)
  have p6: "go_rem k 4 = 0 \<longrightarrow> k * 5 \<notin># mt_delivered ?t"
  proof
    assume "go_rem k 4 = 0"
    then have "k * 5 \<notin># mt_expected (mset ks)" by (rule mt_failed_not_expected)
    with p5 show "k * 5 \<notin># mt_delivered ?t"
      by (metis union_iff)
  qed
  have p7: "mt_pending ?t = {#}
      \<longrightarrow> mt_delivered ?t
            = image_mset (\<lambda>job. job * 5) (filter_mset (\<lambda>job. go_rem job 4 \<noteq> 0) (mset ks))"
  proof
    assume "mt_pending ?t = {#}"
    with p5 have "mt_delivered ?t = mt_expected (mset ks)"
      by (simp add: mt_expected_empty)
    then show "mt_delivered ?t
        = image_mset (\<lambda>job. job * 5) (filter_mset (\<lambda>job. go_rem job 4 \<noteq> 0) (mset ks))"
      by (simp add: mt_expected_def mt_succeeds_def [abs_def])
  qed
  show ?thesis
    by (intro conjI p1 p2 p3 p4 p5 p6 p7)
qed

theorem C1_results_per_job_witness:
  "(0::nat) < 3
   \<and> eh_mainpc (WorkerPoolWithErrorHandling []) \<noteq> Returned
   \<and> (\<exists>e. eh_step 6 (WorkerPoolWithErrorHandling []) e \<noteq> WorkerPoolWithErrorHandling [])
   \<and> eh_step 6 (WorkerPoolWithErrorHandling []) MainStep \<noteq> WorkerPoolWithErrorHandling []
   \<and> eh_measure (eh_step 6 (WorkerPoolWithErrorHandling []) MainStep)
       < eh_measure (WorkerPoolWithErrorHandling [])
   \<and> eh_mainpc (WorkerPoolWithErrorHandling eh_schedule) = Returned
   \<and> mset (eh_printed (WorkerPoolWithErrorHandling eh_schedule))
       = image_mset processJob (mset eh_source_jobs)
   \<and> go_rem 4 4 = 0
   \<and> 4 * 5 \<notin># mt_delivered (WorkerPoolWithMetrics mt_schedule)
   \<and> mt_pending (WorkerPoolWithMetrics mt_schedule) = {#}
   \<and> mt_delivered (WorkerPoolWithMetrics mt_schedule)
       = image_mset (\<lambda>job. job * 5)
           (filter_mset (\<lambda>job. go_rem job 4 \<noteq> 0) (mset [1, 2, 3, 4, 5, 6, 7, 8, 9]))"
proof -
  have n: "(0::nat) < 3" by simp
  have len: "length eh_source_jobs = 6" by (simp add: eh_source_jobs_def)
  have a: "eh_mainpc (WorkerPoolWithErrorHandling []) \<noteq> Returned"
    by (simp add: WorkerPoolWithErrorHandling_def eh_run_def eh_init_def)
  have b: "eh_step 6 (WorkerPoolWithErrorHandling []) MainStep \<noteq> WorkerPoolWithErrorHandling []"
  proof
    assume "eh_step 6 (WorkerPoolWithErrorHandling []) MainStep = WorkerPoolWithErrorHandling []"
    then have "eh_mainpc (eh_step 6 (WorkerPoolWithErrorHandling []) MainStep)
        = eh_mainpc (WorkerPoolWithErrorHandling [])"
      by simp
    then show False
      by (simp add: WorkerPoolWithErrorHandling_def eh_run_def eh_init_def eh_step_def
          eh_main_step_def eh_source_jobs_def chan_send_def make_chan_def)
  qed
  have c: "eh_mainpc (WorkerPoolWithErrorHandling eh_schedule) = Returned"
    by code_simp
  have d: "go_rem 4 4 = 0" by (simp add: go_rem_def)
  have e: "mt_pending (WorkerPoolWithMetrics mt_schedule) = {#}"
    unfolding mt_pending_def by code_simp
  note w1 = C1_results_per_job [OF n, where js = eh_source_jobs and sched = "[]"
      and e = MainStep and ks = "[]" and k = 0,
      folded WorkerPoolWithErrorHandling_def, unfolded len]
  note w2 = C1_results_per_job [OF n, where js = eh_source_jobs and sched = eh_schedule
      and e = MainStep and ks = "[]" and k = 0,
      folded WorkerPoolWithErrorHandling_def, unfolded len]
  note w3 = C1_results_per_job [OF n, where js = "[]" and sched = mt_schedule
      and e = MainStep and ks = "[1, 2, 3, 4, 5, 6, 7, 8, 9]" and k = 4,
      folded WorkerPoolWithMetrics_def]
  show ?thesis
    using n a b c d e w1 w2 w3 by blast
qed

subsection \<open>C2: the priority worker\<close>




subsection \<open>C3: the worker count of the scaling pool\<close>

text \<open>
  C3 as stated fails on both sides.  \<^verbatim>\<open>workerCount\<close> is 0 before any worker has
  registered, so no floor above 0 holds; and in the run \<open>ds_schedule\<close>, where the workers
  the producer starts register only after its last scaling step, every one of the five
  scaling checks at jobs 3, 6, 9, 12 and 15 reads 0 and starts a worker, and
  \<^verbatim>\<open>workerCount\<close> reaches 7 with \<^verbatim>\<open>maxWorkers = 5\<close>.
\<close>

theorem C3_worker_count_counterexample:
  "ds_workerCount (WorkerPoolWithDynamicScaling []) = 0
   \<and> ds_workers (WorkerPoolWithDynamicScaling []) = [DsSpawned, DsSpawned]
   \<and> ds_workerCount (WorkerPoolWithDynamicScaling ds_schedule) = 7
   \<and> ds_workers (WorkerPoolWithDynamicScaling ds_schedule)
       = [DsIdle, DsIdle, DsIdle, DsIdle, DsIdle, DsIdle, DsIdle]
   \<and> \<not> ds_panicked (WorkerPoolWithDynamicScaling ds_schedule)"
  by code_simp

text \<open>
  C3 (amended).  For every list of jobs, every \<^verbatim>\<open>maxWorkers\<close> and every schedule,
  \<^verbatim>\<open>workerCount\<close> is the number of workers that have registered and not ended; it is
  never negative; it is 0 at the start and 0 again whenever all workers have ended
  (there is no floor \<^verbatim>\<open>minWorkers\<close>).  A scaling step starts a worker exactly when it
  reads \<^verbatim>\<open>workerCount < maxWorkers\<close> at a job with \<^verbatim>\<open>j%3 == 0\<close>.  With \<^verbatim>\<open>maxWorkers\<close> at
  least 2 (the two initial workers), in every schedule in which the workers already
  started have registered at each scaling step that could start another,
  \<^verbatim>\<open>workerCount\<close> never exceeds \<^verbatim>\<open>maxWorkers\<close>.
\<close>

theorem C3_worker_count:
  "ds_workerCount (ds_run maxWorkers js sched) = ds_active (ds_workers (ds_run maxWorkers js sched))
   \<and> 0 \<le> ds_workerCount (ds_run maxWorkers js sched)
   \<and> ds_workerCount (ds_run maxWorkers js []) = 0
   \<and> ((\<forall>w \<in> set (ds_workers (ds_run maxWorkers js sched)). w = DsExited)
      \<longrightarrow> ds_workerCount (ds_run maxWorkers js sched) = 0)
   \<and> (ds_producerpc s = DsScale j rest
      \<longrightarrow> ds_workers (ds_producer_step maxWorkers s)
          = (if ds_workerCount s < maxWorkers \<and> go_rem j 3 = 0 then ds_workers s @ [DsSpawned]
             else ds_workers s))
   \<and> (2 \<le> maxWorkers \<and> ds_prompt maxWorkers (ds_init js) sched
      \<longrightarrow> ds_workerCount (ds_run maxWorkers js sched) \<le> maxWorkers)"
proof -
  let ?s = "ds_run maxWorkers js sched"
  have p1: "ds_workerCount ?s = ds_active (ds_workers ?s)" by (rule ds_run_count)
  have p2: "0 \<le> ds_workerCount ?s" using p1 ds_active_nonneg [of "ds_workers ?s"] by simp
  have p3: "ds_workerCount (ds_run maxWorkers js []) = 0"
    by (simp add: ds_run_def ds_init_def)
  have p4: "(\<forall>w \<in> set (ds_workers ?s). w = DsExited) \<longrightarrow> ds_workerCount ?s = 0"
    using p1 ds_active_all_Exited [of "ds_workers ?s"] by simp
  have p5: "ds_producerpc s = DsScale j rest
      \<longrightarrow> ds_workers (ds_producer_step maxWorkers s)
          = (if ds_workerCount s < maxWorkers \<and> go_rem j 3 = 0 then ds_workers s @ [DsSpawned]
             else ds_workers s)"
    using ds_producer_spawns [of s j rest maxWorkers] by blast
  have p6: "2 \<le> maxWorkers \<and> ds_prompt maxWorkers (ds_init js) sched
      \<longrightarrow> ds_workerCount ?s \<le> maxWorkers"
    using ds_run_bound [of maxWorkers js sched] by blast
  show ?thesis
    by (intro conjI p1 p2 p3 p4 p5 p6)
qed

theorem C3_worker_count_witness:
  "(2::int) \<le> 5
   \<and> ds_prompt 5 (ds_init [1, 2, 3, 4, 5, 6, 7, 8, 9, 10, 11, 12, 13, 14, 15]) ds_prompt_schedule
   \<and> ds_workerCount (WorkerPoolWithDynamicScaling ds_prompt_schedule) \<le> 5
   \<and> ds_workerCount (WorkerPoolWithDynamicScaling ds_prompt_schedule) = 5
   \<and> ds_workers (ds_run 5 [] [DsProducer, DsWorker 0, DsWorker 1, DsWorker 0, DsWorker 1])
       = [DsExited, DsExited]
   \<and> ds_workerCount (ds_run 5 [] [DsProducer, DsWorker 0, DsWorker 1, DsWorker 0, DsWorker 1]) = 0
   \<and> ds_producerpc (WorkerPoolWithDynamicScaling (replicate 5 DsProducer))
       = DsScale 3 [4, 5, 6, 7, 8, 9, 10, 11, 12, 13, 14, 15]
   \<and> ds_workers (ds_producer_step 5 (WorkerPoolWithDynamicScaling (replicate 5 DsProducer)))
       = ds_workers (WorkerPoolWithDynamicScaling (replicate 5 DsProducer)) @ [DsSpawned]"
proof -
  let ?js = "[1, 2, 3, 4, 5, 6, 7, 8, 9, 10, 11, 12, 13, 14, 15] :: int list"
  let ?e = "[DsProducer, DsWorker 0, DsWorker 1, DsWorker 0, DsWorker 1]"
  let ?t = "WorkerPoolWithDynamicScaling (replicate 5 DsProducer)"
  have a: "(2::int) \<le> 5" by simp
  have b: "ds_prompt 5 (ds_init ?js) ds_prompt_schedule"
    by code_simp
  have c: "ds_workerCount (WorkerPoolWithDynamicScaling ds_prompt_schedule) = 5"
    by code_simp
  have d: "ds_workers (ds_run 5 [] ?e) = [DsExited, DsExited]"
    by code_simp
  have e: "ds_producerpc ?t = DsScale 3 [4, 5, 6, 7, 8, 9, 10, 11, 12, 13, 14, 15]"
    by code_simp
  have f: "ds_workerCount ?t < 5 \<and> go_rem 3 3 = 0"
    by code_simp
  note w1 = C3_worker_count [where maxWorkers = 5 and js = ?js and sched = ds_prompt_schedule
      and s = ?t and j = 3 and rest = "[4, 5, 6, 7, 8, 9, 10, 11, 12, 13, 14, 15]",
      folded WorkerPoolWithDynamicScaling_def]
  note w2 = C3_worker_count [where maxWorkers = 5 and js = "[]" and sched = ?e
      and s = ?t and j = 3 and rest = "[4, 5, 6, 7, 8, 9, 10, 11, 12, 13, 14, 15]"]
  from w1 a b have r1: "ds_workerCount (WorkerPoolWithDynamicScaling ds_prompt_schedule) \<le> 5"
    by blast
  from w2 d have r2: "ds_workerCount (ds_run 5 [] ?e) = 0" by simp
  from w1 e f have r3: "ds_workers (ds_producer_step 5 ?t) = ds_workers ?t @ [DsSpawned]"
    by simp
  show ?thesis
    by (intro conjI a b r1 c d r2 e r3)
qed

subsection \<open>C4: cancellation tokens\<close>

text \<open>
  C4.  For every token tree and every token in it, cancelling the token leaves every
  token at or below it with a non-nil \<^verbatim>\<open>Err()\<close>; and in every tree a program builds, by
  deriving tokens, cancelling and letting time pass in any order, a token with a non-nil
  \<^verbatim>\<open>Err()\<close> has only such tokens below it.  The effective deadline of a child is the
  earlier of its own deadline and its parent's effective deadline, hence the earliest of
  its own and its ancestors'; and in a tree with nothing cancelled, a token has fired
  by a given time exactly when its effective deadline has been reached, with
  \<^verbatim>\<open>DeadlineExceeded\<close>.  Once a token's \<^verbatim>\<open>Err()\<close> is non-nil, no further calls and no passing
  of time change it.
\<close>

theorem C4_cancellation_tokens:
  "(lookup t p = Some n \<and> lookup (cancel p t) (p @ q) = Some m \<longrightarrow> tk_err m \<noteq> None)
   \<and> (Err (ctx_tree (ctx_run ops)) p \<noteq> None \<and> lookup (ctx_tree (ctx_run ops)) (p @ q) = Some m
      \<longrightarrow> tk_err m \<noteq> None)
   \<and> (lookup t p = Some n \<and> i < length (tk_children n)
      \<longrightarrow> effective_deadline t (p @ [i])
          = min_deadline (effective_deadline t p) (tk_deadline (tk_children n ! i)))
   \<and> (fresh t \<and> lookup t p = Some n
      \<longrightarrow> Err (expire now t) p
          = (if reached (effective_deadline t p) now then Some DeadlineExceeded else None))
   \<and> (Err (ctx_tree (ctx_run ops)) p \<noteq> None
      \<longrightarrow> Err (ctx_tree (ctx_run (ops @ later))) p = Err (ctx_tree (ctx_run ops)) p)"
proof -
  have p1: "lookup t p = Some n \<and> lookup (cancel p t) (p @ q) = Some m \<longrightarrow> tk_err m \<noteq> None"
    using cancel_descendants [of t p n q m] by blast
  have p2: "Err (ctx_tree (ctx_run ops)) p \<noteq> None
      \<and> lookup (ctx_tree (ctx_run ops)) (p @ q) = Some m \<longrightarrow> tk_err m \<noteq> None"
    using cancelled_descendants [OF down_closed_run, of ops p q m] by blast
  have p3: "lookup t p = Some n \<and> i < length (tk_children n)
      \<longrightarrow> effective_deadline t (p @ [i])
          = min_deadline (effective_deadline t p) (tk_deadline (tk_children n ! i))"
    using effective_deadline_child [of t p n i] by blast
  have p4: "fresh t \<and> lookup t p = Some n
      \<longrightarrow> Err (expire now t) p
          = (if reached (effective_deadline t p) now then Some DeadlineExceeded else None)"
    using expire_effective_deadline [of t p n now] by blast
  have p5: "Err (ctx_tree (ctx_run ops)) p \<noteq> None
      \<longrightarrow> Err (ctx_tree (ctx_run (ops @ later))) p = Err (ctx_tree (ctx_run ops)) p"
    using keeps_errors_foldl [of "foldl ctx_apply ctx_init ops" p later]
    by (simp add: ctx_run_def)
  show ?thesis
    by (intro conjI p1 p2 p3 p4 p5)
qed

theorem C4_cancellation_tokens_witness:
  "lookup two_deadlines [0] = Some (Token (Some 300) None [Token (Some 500) None []])
   \<and> lookup (cancel [0] two_deadlines) ([0] @ [0]) = Some (Token (Some 500) (Some Cancelled) [])
   \<and> tk_err (Token (Some 500) (Some Cancelled) []) \<noteq> None
   \<and> Err (ctx_tree ContextWithNestedCancellation) [0] = Some Cancelled
   \<and> lookup (ctx_tree ContextWithNestedCancellation) ([0] @ [0])
       = Some (Token (Some 500) (Some DeadlineExceeded) [])
   \<and> tk_err (Token (Some 500) (Some DeadlineExceeded) []) \<noteq> None
   \<and> (0::nat) < length (tk_children (Token (Some 300) None [Token (Some 500) None []]))
   \<and> effective_deadline two_deadlines ([0] @ [0]) = min_deadline (Some 300) (Some 500)
   \<and> effective_deadline two_deadlines [0, 0] = Some 300
   \<and> fresh two_deadlines
   \<and> Err (expire 300 two_deadlines) [0, 0] = Some DeadlineExceeded
   \<and> Err (expire 299 two_deadlines) [0, 0] = None
   \<and> Err (ctx_tree (ctx_run nested_calls)) [0, 0] = Some DeadlineExceeded
   \<and> Err (ctx_tree (ctx_run nested_calls)) [0] = None
   \<and> Err (ctx_tree ContextWithNestedCancellation) [0, 0] = Some DeadlineExceeded
   \<and> Err (ctx_tree ContextWithCancellation) [0] = Some Cancelled"
proof -
  let ?par = "Token (Some 300) None [Token (Some 500) None []]"
  let ?c = "Token (Some 500) (Some Cancelled) []"
  let ?d = "Token (Some 500) (Some DeadlineExceeded) []"
  have a: "lookup two_deadlines [0] = Some ?par"
    "lookup (cancel [0] two_deadlines) ([0] @ [0]) = Some ?c"
    by code_simp+
  have b: "Err (ctx_tree ContextWithNestedCancellation) [0] = Some Cancelled"
    "lookup (ctx_tree ContextWithNestedCancellation) ([0] @ [0]) = Some ?d"
    by code_simp+
  have c: "(0::nat) < length (tk_children ?par)" by simp
  have d: "fresh two_deadlines" "effective_deadline two_deadlines [0] = Some 300"
    "lookup two_deadlines [0, 0] = Some (Token (Some 500) None [])"
    "effective_deadline two_deadlines [0, 0] = Some 300"
    by code_simp+
  have e: "Err (ctx_tree (ctx_run nested_calls)) [0, 0] = Some DeadlineExceeded"
    "Err (ctx_tree (ctx_run nested_calls)) [0] = None"
    by code_simp+
  have f: "Err (ctx_tree ContextWithCancellation) [0] = Some Cancelled"
    by code_simp
  note w1 = C4_cancellation_tokens [where t = two_deadlines and p = "[0]" and n = ?par
      and q = "[0]" and m = ?c and ops = "nested_calls @ nested_deferred" and i = 0
      and now = 300 and later = "[]", folded ContextWithNestedCancellation_def]
  note w2 = C4_cancellation_tokens [where t = two_deadlines and p = "[0]" and n = ?par
      and q = "[0]" and m = ?d and ops = "nested_calls @ nested_deferred" and i = 0
      and now = 300 and later = "[]", folded ContextWithNestedCancellation_def]
  note w3 = C4_cancellation_tokens [where t = two_deadlines and p = "[0, 0]"
      and n = "Token (Some 500) None []" and q = "[]" and m = ?c and ops = nested_calls
      and i = 0 and now = 300 and later = nested_deferred,
      folded ContextWithNestedCancellation_def]
  note w4 = C4_cancellation_tokens [where t = two_deadlines and p = "[0, 0]"
      and n = "Token (Some 500) None []" and q = "[]" and m = ?c and ops = nested_calls
      and i = 0 and now = 299 and later = nested_deferred,
      folded ContextWithNestedCancellation_def]
  from w1 a have r1: "tk_err ?c \<noteq> None" by blast
  from w2 b have r2: "tk_err ?d \<noteq> None" by simp
  from w1 a(1) c d(2) have r3: "effective_deadline two_deadlines ([0] @ [0])
      = min_deadline (Some 300) (Some 500)"
    by simp
  from w3 d have r4: "Err (expire 300 two_deadlines) [0, 0] = Some DeadlineExceeded"
    by (simp add: reached_def)
  from w4 d have r5: "Err (expire 299 two_deadlines) [0, 0] = None"
    by (simp add: reached_def)
  from w3 e(1) have r6: "Err (ctx_tree ContextWithNestedCancellation) [0, 0]
      = Some DeadlineExceeded"
    by simp
  show ?thesis
    by (intro conjI a r1 b r2 c r3 d(4) d(1) r4 r5 e r6 f)
qed

subsection \<open>C5: batches of the batching worker\<close>

text \<open>
  C5.  For a positive \<^verbatim>\<open>batchSize\<close> and every sequence of jobs a batching worker
  receives: every batch it sends has more than zero and at most \<^verbatim>\<open>batchSize\<close> jobs; the
  batches, in order, are the received jobs, each job in exactly one batch; receiving one
  job sends at most one batch, and a send empties the accumulator; an empty accumulator
  sends nothing at the final flush, and a worker that received nothing sends nothing.
\<close>

theorem C5_batch_sizes:
  assumes "0 < batchSize"
  shows "(\<forall>b \<in> set (batching_worker batchSize js). 0 < length b \<and> length b \<le> batchSize)
    \<and> concat (batching_worker batchSize js) = js
    \<and> (emitted (batch_step batchSize s job) = emitted s
         \<or> (emitted (batch_step batchSize s job) = emitted s @ [batch s @ [job]]
             \<and> batch (batch_step batchSize s job) = []))
    \<and> (batch s = [] \<longrightarrow> batch_flush s = emitted s)
    \<and> (batch s \<noteq> [] \<longrightarrow> batch_flush s = emitted s @ [batch s])
    \<and> batching_worker batchSize [] = []"
proof -
  have p1: "\<forall>b \<in> set (batching_worker batchSize js). 0 < length b \<and> length b \<le> batchSize"
    using batching_worker_sizes [OF assms] by blast
  have p2: "concat (batching_worker batchSize js) = js"
    by (rule batching_worker_concat)
  have p3: "emitted (batch_step batchSize s job) = emitted s
      \<or> (emitted (batch_step batchSize s job) = emitted s @ [batch s @ [job]]
          \<and> batch (batch_step batchSize s job) = [])"
    by (rule batch_step_emits)
  have p4: "batch s = [] \<longrightarrow> batch_flush s = emitted s"
    by (simp add: batch_flush_def)
  have p5: "batch s \<noteq> [] \<longrightarrow> batch_flush s = emitted s @ [batch s]"
    by (simp add: batch_flush_def)
  have p6: "batching_worker batchSize [] = []"
    by (simp add: batching_worker_def batch_flush_def batch_init_def)
  show ?thesis
    by (intro conjI p1 p2 p3 p4 p5 p6)
qed

theorem C5_batch_sizes_witness:
  "(0::nat) < 3
   \<and> batching_worker 3 [1, 2, 3, 4, 5, 6, 7] = [[1, 2, 3], [4, 5, 6], [7]]
   \<and> [7] \<in> set (batching_worker 3 [1, 2, 3, 4, 5, 6, 7])
   \<and> 0 < length [7::int] \<and> length [7::int] \<le> 3
   \<and> concat (batching_worker 3 [1, 2, 3, 4, 5, 6, 7]) = [1, 2, 3, 4, 5, 6, 7]
   \<and> batch batch_init = []
   \<and> batch_flush batch_init = emitted batch_init
   \<and> batch \<lparr>batch = [7], emitted = [[1, 2, 3], [4, 5, 6]]\<rparr> \<noteq> []
   \<and> batch_flush \<lparr>batch = [7], emitted = [[1, 2, 3], [4, 5, 6]]\<rparr> = [[1, 2, 3], [4, 5, 6], [7]]"
proof -
  have n: "(0::nat) < 3" by simp
  have ev: "batching_worker 3 [1, 2, 3, 4, 5, 6, 7] = [[1, 2, 3], [4, 5, 6], [7]]"
    by (simp add: batching_worker_def batch_step_def batch_flush_def batch_init_def Let_def)
  have e1: "batch batch_init = []" by (simp add: batch_init_def)
  have e2: "batch \<lparr>batch = [7], emitted = [[1, 2, 3], [4, 5, 6]]\<rparr> \<noteq> []" by simp
  note w1 = C5_batch_sizes [OF n, where js = "[1, 2, 3, 4, 5, 6, 7]" and s = batch_init
      and job = 1]
  note w2 = C5_batch_sizes [OF n, where js = "[1, 2, 3, 4, 5, 6, 7]"
      and s = "\<lparr>batch = [7], emitted = [[1, 2, 3], [4, 5, 6]]\<rparr>" and job = 1]
  show ?thesis
    using n ev e1 e2 w1 w2 by simp
qed

subsection \<open>C6: panics and failing jobs\<close>

text \<open>
  C6 as stated fails.  Where a goroutine recovers a panic, in
  \<^verbatim>\<open>GoroutineWithPanicRecovery\<close> and in \<^verbatim>\<open>WaitGroupWithPanicRecovery\<close>, the deferred
  function prints the panic value and the goroutine ends: it builds no result and serves
  nothing further (in the run \<open>wr_schedule\<close> the second goroutine ends without its
  \<^verbatim>\<open>finished\<close> line).  The workers of \<^verbatim>\<open>WorkerPoolWithMetrics\<close> defer no recovering
  function: in the run \<open>mt_early_close_schedule\<close> the first worker panics while it holds
  job 1 (its send finds \<^verbatim>\<open>results\<close> closed); no result is built for job 1, jobs 2 to 9
  stay in the queue, and no goroutine takes a further step.
\<close>

theorem C6_no_fault_result_counterexample:
  "pr_goroutine (GoroutineWithPanicRecovery pr_schedule) = PrEnded
   \<and> pr_output (GoroutineWithPanicRecovery pr_schedule)
       = [''Goroutine starting...'', ''Recovered from panic: Something went wrong!'',
          ''Main function continues after panic recovery'']
   \<and> pr_step (GoroutineWithPanicRecovery pr_schedule) (WorkerStep 0)
       = GoroutineWithPanicRecovery pr_schedule
   \<and> wr_goroutines (WaitGroupWithPanicRecovery wr_schedule) ! 1 = (2, WrEnded)
   \<and> wr_output (WaitGroupWithPanicRecovery wr_schedule)
       = [WrStarting 2, WrRecoveredFromPanic 2 ''Something went wrong!'', WrStarting 1,
          WrFinished 1, WrStarting 3, WrFinished 3, WrAllCompleted]
   \<and> wr_step (WaitGroupWithPanicRecovery wr_schedule) (WorkerStep 1)
       = WaitGroupWithPanicRecovery wr_schedule
   \<and> mt_workers (WorkerPoolWithMetrics mt_early_close_schedule) ! 0 = Busy 1
   \<and> mt_panicked (WorkerPoolWithMetrics mt_early_close_schedule)
   \<and> buf (mt_jobs (WorkerPoolWithMetrics mt_early_close_schedule)) = [2, 3, 4, 5, 6, 7, 8, 9]
   \<and> mt_printed (WorkerPoolWithMetrics mt_early_close_schedule)
        @ buf (mt_results (WorkerPoolWithMetrics mt_early_close_schedule)) = []
   \<and> WorkerPoolWithMetrics (mt_early_close_schedule @ [WorkerStep 1, WorkerStep 2, MainStep])
       = WorkerPoolWithMetrics mt_early_close_schedule"
  by code_simp

text \<open>
  C6 (amended).  Where a goroutine defers a function that calls \<^verbatim>\<open>recover()\<close>, a panic
  is recovered and does not end the program, and the goroutine that panicked ends
  without going on.
  \<^item> In \<^verbatim>\<open>GoroutineWithPanicRecovery\<close>, under every schedule, nothing ends the program;
    the goroutine prints the recovered value, calls \<^verbatim>\<open>wg.Done()\<close> and ends, and main then
    prints its last line: when main is done the goroutine has ended and the output is
    the three lines of \<open>pr_lines\<close>; until then some step is possible, and every step
    that changes the state lowers \<open>pr_measure\<close>.
  \<^item> In \<^verbatim>\<open>WaitGroupWithPanicRecovery\<close>, under every schedule, nothing ends the program;
    when main has returned the three goroutines have ended, the lines printed are those
    of \<open>wr_lines\<close>, each once (goroutine 2 its recovered panic and no \<^verbatim>\<open>finished\<close> line,
    goroutines 1 and 3 their \<^verbatim>\<open>finished\<close> lines), and main's line is the last; until
    then some step is possible, and every step that changes the state lowers
    \<open>wr_measure\<close>.
  \<^item> In the metrics pool, whose workers defer no such function, a panic in a worker is
    not recovered: under every schedule, a worker's step that panics is the send of a
    worker that holds a job on the closed \<^verbatim>\<open>results\<close>, it changes nothing else (no result
    is built for the job), and after it no step of any goroutine changes the state.
  \<^item> In the error-handling pool a failing job is not a panic: under every schedule nothing
    panics, a worker that holds a job sends that job's result, failed or not, and is
    idle again, ready for the next job; the result of a job whose ID is divisible by 3
    carries the error for that job's ID; and the results delivered, with those of the
    jobs still in the pool, are the results of the submitted jobs, each a function of
    its own job alone.
\<close>

theorem C6_recovery_and_job_failure:
  "\<not> pr_panicked (GoroutineWithPanicRecovery sched)
   \<and> (pr_maindone (GoroutineWithPanicRecovery sched)
      \<longrightarrow> pr_goroutine (GoroutineWithPanicRecovery sched) = PrEnded
          \<and> pr_output (GoroutineWithPanicRecovery sched) = pr_lines)
   \<and> (\<not> pr_maindone (GoroutineWithPanicRecovery sched)
      \<longrightarrow> (\<exists>e. pr_step (GoroutineWithPanicRecovery sched) e \<noteq> GoroutineWithPanicRecovery sched))
   \<and> (pr_step (GoroutineWithPanicRecovery sched) e \<noteq> GoroutineWithPanicRecovery sched
      \<longrightarrow> pr_measure (pr_step (GoroutineWithPanicRecovery sched) e)
            < pr_measure (GoroutineWithPanicRecovery sched))
   \<and> \<not> wr_panicked (WaitGroupWithPanicRecovery wsched)
   \<and> (wr_mainpc (WaitGroupWithPanicRecovery wsched) = WrReturned
      \<longrightarrow> wr_goroutines (WaitGroupWithPanicRecovery wsched)
            = [(1, WrEnded), (2, WrEnded), (3, WrEnded)]
          \<and> mset (wr_output (WaitGroupWithPanicRecovery wsched)) = wr_lines
          \<and> last (wr_output (WaitGroupWithPanicRecovery wsched)) = WrAllCompleted)
   \<and> (wr_mainpc (WaitGroupWithPanicRecovery wsched) \<noteq> WrReturned
      \<longrightarrow> (\<exists>e. wr_step (WaitGroupWithPanicRecovery wsched) e
                \<noteq> WaitGroupWithPanicRecovery wsched))
   \<and> (wr_step (WaitGroupWithPanicRecovery wsched) we \<noteq> WaitGroupWithPanicRecovery wsched
      \<longrightarrow> wr_measure (wr_step (WaitGroupWithPanicRecovery wsched) we)
            < wr_measure (WaitGroupWithPanicRecovery wsched))
   \<and> (\<not> mt_panicked (mt_run mn mjs msched)
        \<and> mt_panicked (mt_run mn mjs (msched @ [WorkerStep mw]))
      \<longrightarrow> mt_run mn mjs (msched @ [WorkerStep mw])
            = (mt_run mn mjs msched)\<lparr>mt_panicked := True\<rparr>
          \<and> (\<exists>job. mt_workers (mt_run mn mjs msched) ! mw = Busy job)
          \<and> closed (mt_results (mt_run mn mjs msched)))
   \<and> (mt_panicked (mt_run mn mjs msched)
      \<longrightarrow> mt_run mn mjs (msched @ mevs) = mt_run mn mjs msched)
   \<and> \<not> eh_panicked (eh_run numWorkers js evs)
   \<and> (w < numWorkers \<and> eh_workers (eh_run numWorkers js evs) ! w = Busy job
      \<longrightarrow> eh_workers (eh_worker w (eh_run numWorkers js evs)) ! w = Idle
          \<and> \<not> eh_panicked (eh_worker w (eh_run numWorkers js evs))
          \<and> buf (eh_results (eh_worker w (eh_run numWorkers js evs)))
              = buf (eh_results (eh_run numWorkers js evs)) @ [processJob job])
   \<and> (3 dvd ID job
      \<longrightarrow> Error (processJob job) = Some (JobFailed (ID job)) \<and> JobID (processJob job) = ID job)
   \<and> eh_delivered (eh_run numWorkers js evs)
        + image_mset processJob (eh_pending (eh_run numWorkers js evs))
      = image_mset processJob (mset js)"
proof -
  let ?g = "GoroutineWithPanicRecovery sched"
  let ?r = "WaitGroupWithPanicRecovery wsched"
  let ?m = "mt_run mn mjs msched"
  let ?s = "eh_run numWorkers js evs"
  have ginv: "pr_inv ?g" by (rule pr_inv_run)
  have rinv: "wr_inv ?r" by (rule wr_inv_run)
  have inv: "eh_inv js ?s" by (rule eh_inv_run)
  have p1: "\<not> pr_panicked ?g" using ginv by (simp add: pr_inv_def)
  have p2: "pr_maindone ?g \<longrightarrow> pr_goroutine ?g = PrEnded \<and> pr_output ?g = pr_lines"
    using pr_done [OF ginv] by blast
  have p3: "\<not> pr_maindone ?g \<longrightarrow> (\<exists>e. pr_step ?g e \<noteq> ?g)"
    using pr_progress [OF ginv] by blast
  have p4: "pr_step ?g e \<noteq> ?g \<longrightarrow> pr_measure (pr_step ?g e) < pr_measure ?g"
    using pr_measure_step [OF ginv] by blast
  have q1: "\<not> wr_panicked ?r" using rinv unfolding wr_inv_def by (elim conjE)
  have q2: "wr_mainpc ?r = WrReturned
      \<longrightarrow> wr_goroutines ?r = [(1, WrEnded), (2, WrEnded), (3, WrEnded)]
          \<and> mset (wr_output ?r) = wr_lines \<and> last (wr_output ?r) = WrAllCompleted"
    using wr_returned [OF rinv] by blast
  have q3: "wr_mainpc ?r \<noteq> WrReturned \<longrightarrow> (\<exists>e. wr_step ?r e \<noteq> ?r)"
    using wr_progress [OF rinv] by blast
  have q4: "wr_step ?r we \<noteq> ?r \<longrightarrow> wr_measure (wr_step ?r we) < wr_measure ?r"
    using wr_measure_step [OF rinv] by blast
  have m1: "\<not> mt_panicked ?m \<and> mt_panicked (mt_run mn mjs (msched @ [WorkerStep mw]))
      \<longrightarrow> mt_run mn mjs (msched @ [WorkerStep mw]) = ?m\<lparr>mt_panicked := True\<rparr>
          \<and> (\<exists>job. mt_workers ?m ! mw = Busy job) \<and> closed (mt_results ?m)"
  proof
    assume a: "\<not> mt_panicked ?m \<and> mt_panicked (mt_run mn mjs (msched @ [WorkerStep mw]))"
    then have st: "mt_run mn mjs (msched @ [WorkerStep mw]) = mt_worker mw ?m"
      by (simp add: mt_run_append mt_step_def)
    with a have "mt_panicked (mt_worker mw ?m)" by simp
    from mt_worker_panics [OF mt_metrics_open_run _ this] a st
    show "mt_run mn mjs (msched @ [WorkerStep mw]) = ?m\<lparr>mt_panicked := True\<rparr>
        \<and> (\<exists>job. mt_workers ?m ! mw = Busy job) \<and> closed (mt_results ?m)"
      by auto
  qed
  have m2: "mt_panicked ?m \<longrightarrow> mt_run mn mjs (msched @ mevs) = ?m"
    by (simp add: mt_run_append mt_panicked_foldl)
  have p5: "\<not> eh_panicked ?s" using inv by (simp add: eh_inv_def)
  have p6: "w < numWorkers \<and> eh_workers ?s ! w = Busy job
      \<longrightarrow> eh_workers (eh_worker w ?s) ! w = Idle \<and> \<not> eh_panicked (eh_worker w ?s)
          \<and> buf (eh_results (eh_worker w ?s)) = buf (eh_results ?s) @ [processJob job]"
  proof
    assume a: "w < numWorkers \<and> eh_workers ?s ! w = Busy job"
    then have len: "w < length (eh_workers ?s)" by (simp add: eh_run_length)
    from eh_worker_Busy [OF inv len] a
    have "eh_worker w ?s
        = ?s\<lparr>eh_results := (eh_results ?s)\<lparr>buf := buf (eh_results ?s) @ [processJob job]\<rparr>,
             eh_workers := (eh_workers ?s)[w := Idle]\<rparr>"
      by simp
    then show "eh_workers (eh_worker w ?s) ! w = Idle \<and> \<not> eh_panicked (eh_worker w ?s)
        \<and> buf (eh_results (eh_worker w ?s)) = buf (eh_results ?s) @ [processJob job]"
      using len p5 by simp
  qed
  have p7: "3 dvd ID job
      \<longrightarrow> Error (processJob job) = Some (JobFailed (ID job)) \<and> JobID (processJob job) = ID job"
    by (simp add: processJob_def go_rem_eq_0_iff)
  have p8: "eh_delivered ?s + image_mset processJob (eh_pending ?s)
      = image_mset processJob (mset js)"
    using inv by (simp add: eh_inv_def)
  show ?thesis
    by (intro conjI p1 p2 p3 p4 q1 q2 q3 q4 m1 m2 p5 p6 p7 p8)
qed

theorem C6_recovery_and_job_failure_witness:
  "pr_maindone (GoroutineWithPanicRecovery pr_schedule)
   \<and> pr_goroutine (GoroutineWithPanicRecovery pr_schedule) = PrEnded
   \<and> pr_output (GoroutineWithPanicRecovery pr_schedule) = pr_lines
   \<and> \<not> pr_maindone (GoroutineWithPanicRecovery [])
   \<and> (\<exists>e. pr_step (GoroutineWithPanicRecovery []) e \<noteq> GoroutineWithPanicRecovery [])
   \<and> pr_step (GoroutineWithPanicRecovery []) (WorkerStep 0) \<noteq> GoroutineWithPanicRecovery []
   \<and> pr_measure (pr_step (GoroutineWithPanicRecovery []) (WorkerStep 0))
       < pr_measure (GoroutineWithPanicRecovery [])
   \<and> wr_mainpc (WaitGroupWithPanicRecovery wr_schedule) = WrReturned
   \<and> wr_goroutines (WaitGroupWithPanicRecovery wr_schedule)
       = [(1, WrEnded), (2, WrEnded), (3, WrEnded)]
   \<and> mset (wr_output (WaitGroupWithPanicRecovery wr_schedule)) = wr_lines
   \<and> last (wr_output (WaitGroupWithPanicRecovery wr_schedule)) = WrAllCompleted
   \<and> wr_mainpc (WaitGroupWithPanicRecovery []) \<noteq> WrReturned
   \<and> (\<exists>e. wr_step (WaitGroupWithPanicRecovery []) e \<noteq> WaitGroupWithPanicRecovery [])
   \<and> wr_step (WaitGroupWithPanicRecovery []) MainStep \<noteq> WaitGroupWithPanicRecovery []
   \<and> wr_measure (wr_step (WaitGroupWithPanicRecovery []) MainStep)
       < wr_measure (WaitGroupWithPanicRecovery [])
   \<and> \<not> mt_panicked (WorkerPoolWithMetrics (take 21 mt_early_close_schedule))
   \<and> mt_panicked (WorkerPoolWithMetrics (take 21 mt_early_close_schedule @ [WorkerStep 0]))
   \<and> WorkerPoolWithMetrics (take 21 mt_early_close_schedule @ [WorkerStep 0])
       = (WorkerPoolWithMetrics (take 21 mt_early_close_schedule))\<lparr>mt_panicked := True\<rparr>
   \<and> (\<exists>job. mt_workers (WorkerPoolWithMetrics (take 21 mt_early_close_schedule)) ! 0
         = Busy job)
   \<and> closed (mt_results (WorkerPoolWithMetrics (take 21 mt_early_close_schedule)))
   \<and> mt_panicked (WorkerPoolWithMetrics mt_early_close_schedule)
   \<and> WorkerPoolWithMetrics (mt_early_close_schedule @ [WorkerStep 1, MainStep])
       = WorkerPoolWithMetrics mt_early_close_schedule
   \<and> (0::nat) < 3
   \<and> eh_workers (WorkerPoolWithErrorHandling (take 12 eh_schedule)) ! 0
       = Busy \<lparr>ID = 3, Data = ''data-3''\<rparr>
   \<and> eh_workers (eh_worker 0 (WorkerPoolWithErrorHandling (take 12 eh_schedule))) ! 0 = Idle
   \<and> (3::int) dvd ID \<lparr>ID = 3, Data = ''data-3''\<rparr>
   \<and> Error (processJob \<lparr>ID = 3, Data = ''data-3''\<rparr>) = Some (JobFailed 3)"
proof -
  let ?g = "GoroutineWithPanicRecovery pr_schedule"
  let ?h = "GoroutineWithPanicRecovery []"
  let ?r = "WaitGroupWithPanicRecovery wr_schedule"
  let ?q = "WaitGroupWithPanicRecovery []"
  let ?m = "take 21 mt_early_close_schedule"
  let ?s = "WorkerPoolWithErrorHandling (take 12 eh_schedule)"
  let ?j = "\<lparr>ID = 3, Data = ''data-3''\<rparr>"
  have a: "pr_maindone ?g" by code_simp
  have b: "\<not> pr_maindone ?h" by (simp add: GoroutineWithPanicRecovery_def pr_init_def)
  have c: "pr_step ?h (WorkerStep 0) \<noteq> ?h"
  proof
    assume "pr_step ?h (WorkerStep 0) = ?h"
    then have "pr_goroutine (pr_step ?h (WorkerStep 0)) = pr_goroutine ?h" by simp
    then show False
      by (simp add: GoroutineWithPanicRecovery_def pr_init_def pr_step_def pr_goroutine_step_def)
  qed
  have ra: "wr_mainpc ?r = WrReturned" by code_simp
  have rb: "wr_mainpc ?q \<noteq> WrReturned"
    by (simp add: WaitGroupWithPanicRecovery_def wr_init_def)
  have rc: "wr_step ?q MainStep \<noteq> ?q"
  proof
    assume "wr_step ?q MainStep = ?q"
    then have "wr_mainpc (wr_step ?q MainStep) = wr_mainpc ?q" by simp
    then show False
      by (simp add: WaitGroupWithPanicRecovery_def wr_init_def wr_step_def wr_main_step_def)
  qed
  have ma: "\<not> mt_panicked (WorkerPoolWithMetrics ?m)" by code_simp
  have mb: "mt_panicked (WorkerPoolWithMetrics (?m @ [WorkerStep 0]))" by code_simp
  have mc: "mt_panicked (WorkerPoolWithMetrics mt_early_close_schedule)" by code_simp
  have n: "(0::nat) < 3" by simp
  have d: "eh_workers ?s ! 0 = Busy ?j" by code_simp
  have e: "(3::int) dvd ID ?j" by simp
  note w1 = C6_recovery_and_job_failure [where sched = pr_schedule and e = "WorkerStep 0"
      and wsched = wr_schedule and we = MainStep
      and mn = 3 and mjs = "[1, 2, 3, 4, 5, 6, 7, 8, 9]" and msched = ?m and mw = 0
      and mevs = "[]"
      and numWorkers = 3 and js = eh_source_jobs and evs = "take 12 eh_schedule" and w = 0
      and job = ?j, folded WorkerPoolWithErrorHandling_def WorkerPoolWithMetrics_def]
  note w2 = C6_recovery_and_job_failure [where sched = "[]" and e = "WorkerStep 0"
      and wsched = "[]" and we = MainStep
      and mn = 3 and mjs = "[1, 2, 3, 4, 5, 6, 7, 8, 9]" and msched = mt_early_close_schedule
      and mw = 0 and mevs = "[WorkerStep 1, MainStep]"
      and numWorkers = 3 and js = eh_source_jobs and evs = "take 12 eh_schedule" and w = 0
      and job = ?j, folded WorkerPoolWithErrorHandling_def WorkerPoolWithMetrics_def]
  from w1 a have r1: "pr_goroutine ?g = PrEnded" and r2: "pr_output ?g = pr_lines"
    by blast+
  from w2 b c have r3: "\<exists>e. pr_step ?h e \<noteq> ?h"
    and r4: "pr_measure (pr_step ?h (WorkerStep 0)) < pr_measure ?h"
    by blast+
  from w1 ra have s1: "wr_goroutines ?r = [(1, WrEnded), (2, WrEnded), (3, WrEnded)]"
    and s2: "mset (wr_output ?r) = wr_lines" and s3: "last (wr_output ?r) = WrAllCompleted"
    by blast+
  from w2 rb rc have s4: "\<exists>e. wr_step ?q e \<noteq> ?q"
    and s5: "wr_measure (wr_step ?q MainStep) < wr_measure ?q"
    by blast+
  from w1 ma mb
  have t1: "WorkerPoolWithMetrics (?m @ [WorkerStep 0])
      = (WorkerPoolWithMetrics ?m)\<lparr>mt_panicked := True\<rparr>"
    and t2: "\<exists>job. mt_workers (WorkerPoolWithMetrics ?m) ! 0 = Busy job"
    and t3: "closed (mt_results (WorkerPoolWithMetrics ?m))"
    by blast+
  from w2 mc
  have t4: "WorkerPoolWithMetrics (mt_early_close_schedule @ [WorkerStep 1, MainStep])
      = WorkerPoolWithMetrics mt_early_close_schedule"
    by blast
  from w1 n d have r5: "eh_workers (eh_worker 0 ?s) ! 0 = Idle" by blast
  from w1 e have r6: "Error (processJob ?j) = Some (JobFailed 3)" by simp
  show ?thesis
    by (intro conjI a r1 r2 b r3 c r4 ra s1 s2 s3 rb s4 rc s5 ma mb t1 t2 t3 mc t4 n d r5 e r6)
qed

subsection \<open>C7: closed channels\<close>

text \<open>
  C7 as stated fails in its first part: a send on a closed channel does not fail with an
  error the sender can handle, it panics.  In the run \<open>mt_early_close_schedule\<close> of
  \<^verbatim>\<open>WorkerPoolWithMetrics\<close> main has closed \<^verbatim>\<open>results\<close> while the first worker holds
  job 1; the worker's send panics, nothing is delivered and no goroutine takes a further
  step.
\<close>

theorem C7_send_on_closed_panics_counterexample:
  "chan_send ((make_chan 1)\<lparr>closed := True\<rparr>) (1::int) = SendPanics
   \<and> closed (mt_results (WorkerPoolWithMetrics (butlast mt_early_close_schedule)))
   \<and> mt_workers (WorkerPoolWithMetrics (butlast mt_early_close_schedule)) = [Busy 1, Idle, Idle]
   \<and> \<not> mt_panicked (WorkerPoolWithMetrics (butlast mt_early_close_schedule))
   \<and> mt_panicked (WorkerPoolWithMetrics mt_early_close_schedule)
   \<and> buf (mt_results (WorkerPoolWithMetrics mt_early_close_schedule)) = []
   \<and> mt_printed (WorkerPoolWithMetrics mt_early_close_schedule) = []
   \<and> mt_step 3 9 (WorkerPoolWithMetrics mt_early_close_schedule) (WorkerStep 1)
       = WorkerPoolWithMetrics mt_early_close_schedule"
  by code_simp

text \<open>
  C7 (amended).  A send on a closed channel panics.  A receive on an empty closed
  channel yields the closed indication, which is not an error.  In
  \<^verbatim>\<open>ChannelCloseDetection\<close>, for every list of values and every schedule, nothing panics;
  the sender closes the channel only after its last send; main's loop ends, after
  finitely many steps, having printed every value in order and then
  \<^verbatim>\<open>Channel is closed\<close>.  In \<^verbatim>\<open>BasicWorkerPool\<close> with at least one worker, for every list
  of jobs and every schedule, nothing panics, main returns after finitely many steps
  with one result per job, and then every worker's \<^verbatim>\<open>range\<close> loop ends at its next step.
\<close>

theorem C7_closed_channel:
  assumes "0 < numWorkers"
  shows "(closed c \<longrightarrow> chan_send c v = SendPanics)
    \<and> (closed c \<and> buf c = [] \<longrightarrow> chan_recv c = RecvClosed)
    \<and> \<not> cc_panicked (cc_run xs sched)
    \<and> (closed (cc_ch (cc_run xs sched)) \<longleftrightarrow> cc_todo (cc_run xs sched) = None)
    \<and> (cc_done (cc_run xs sched)
        \<longrightarrow> cc_output (cc_run xs sched) = map ReceivedLine xs @ [ChannelIsClosed])
    \<and> (\<not> cc_done (cc_run xs sched)
        \<longrightarrow> (\<exists>e. cc_step (cc_run xs sched) e \<noteq> cc_run xs sched))
    \<and> (cc_step (cc_run xs sched) e \<noteq> cc_run xs sched
        \<longrightarrow> cc_measure (cc_step (cc_run xs sched) e) < cc_measure (cc_run xs sched))
    \<and> \<not> bw_panicked (bw_run numWorkers js sched)
    \<and> (bw_mainpc (bw_run numWorkers js sched) \<noteq> BwReturned
        \<longrightarrow> (\<exists>e. bw_step (length js) (bw_run numWorkers js sched) e
                   \<noteq> bw_run numWorkers js sched))
    \<and> (bw_step (length js) (bw_run numWorkers js sched) e \<noteq> bw_run numWorkers js sched
        \<longrightarrow> bw_measure (bw_step (length js) (bw_run numWorkers js sched) e)
              < bw_measure (bw_run numWorkers js sched))
    \<and> (bw_mainpc (bw_run numWorkers js sched) = BwReturned
        \<longrightarrow> mset (bw_printed (bw_run numWorkers js sched)) = image_mset bw_result (mset js))
    \<and> (bw_mainpc (bw_run numWorkers js sched) = BwReturned \<and> w < numWorkers
        \<longrightarrow> bw_workers (bw_worker w (bw_run numWorkers js sched)) ! w = Exited
            \<and> \<not> bw_panicked (bw_worker w (bw_run numWorkers js sched)))"
proof -
  let ?s = "cc_run xs sched"
  let ?t = "bw_run numWorkers js sched"
  have inv: "cc_inv xs ?s" by (rule cc_inv_run)
  have binv: "bw_inv js ?t" by (rule bw_inv_run)
  have p1: "closed c \<longrightarrow> chan_send c v = SendPanics"
    by (simp add: chan_send_def)
  have p2: "closed c \<and> buf c = [] \<longrightarrow> chan_recv c = RecvClosed"
    by (simp add: chan_recv_def)
  have p3: "\<not> cc_panicked ?s" using inv by (simp add: cc_inv_def)
  have p4: "closed (cc_ch ?s) \<longleftrightarrow> cc_todo ?s = None" using inv by (simp add: cc_inv_def)
  have p5: "cc_done ?s \<longrightarrow> cc_output ?s = map ReceivedLine xs @ [ChannelIsClosed]"
    using cc_done_output [OF inv] by blast
  have p6: "\<not> cc_done ?s \<longrightarrow> (\<exists>e. cc_step ?s e \<noteq> ?s)"
    using cc_progress [OF inv] by blast
  have p7: "cc_step ?s e \<noteq> ?s \<longrightarrow> cc_measure (cc_step ?s e) < cc_measure ?s"
    using cc_measure_step [OF inv] by blast
  have p8: "\<not> bw_panicked ?t" using binv by (simp add: bw_inv_def)
  have "bw_workers ?t \<noteq> []"
    using bw_run_length [of numWorkers js sched] assms by auto
  then have p9: "bw_mainpc ?t \<noteq> BwReturned \<longrightarrow> (\<exists>e. bw_step (length js) ?t e \<noteq> ?t)"
    using bw_progress [OF binv] by blast
  have p10: "bw_step (length js) ?t e \<noteq> ?t
      \<longrightarrow> bw_measure (bw_step (length js) ?t e) < bw_measure ?t"
    using bw_measure_step [OF binv] by blast
  have p11: "bw_mainpc ?t = BwReturned
      \<longrightarrow> mset (bw_printed ?t) = image_mset bw_result (mset js)"
    using bw_returned [OF binv] by blast
  have p12: "bw_mainpc ?t = BwReturned \<and> w < numWorkers
      \<longrightarrow> bw_workers (bw_worker w ?t) ! w = Exited \<and> \<not> bw_panicked (bw_worker w ?t)"
    using bw_worker_exits [OF binv, of w] bw_run_length [of numWorkers js sched] by simp
  show ?thesis
    by (intro conjI p1 p2 p3 p4 p5 p6 p7 p8 p9 p10 p11 p12)
qed

theorem C7_closed_channel_witness:
  "(0::nat) < 3
   \<and> closed ((make_chan 0)\<lparr>closed := True\<rparr> :: int chan)
   \<and> buf ((make_chan 0)\<lparr>closed := True\<rparr> :: int chan) = []
   \<and> chan_send ((make_chan 0)\<lparr>closed := True\<rparr>) (1::int) = SendPanics
   \<and> chan_recv ((make_chan 0)\<lparr>closed := True\<rparr> :: int chan) = RecvClosed
   \<and> cc_done (ChannelCloseDetection cc_schedule)
   \<and> cc_output (ChannelCloseDetection cc_schedule)
       = [ReceivedLine 1, ReceivedLine 2, ReceivedLine 3, ChannelIsClosed]
   \<and> \<not> cc_done (ChannelCloseDetection [])
   \<and> (\<exists>e. cc_step (ChannelCloseDetection []) e \<noteq> ChannelCloseDetection [])
   \<and> cc_step (ChannelCloseDetection []) MainStep \<noteq> ChannelCloseDetection []
   \<and> cc_measure (cc_step (ChannelCloseDetection []) MainStep) < cc_measure (ChannelCloseDetection [])
   \<and> bw_mainpc (BasicWorkerPool bw_schedule) = BwReturned
   \<and> mset (bw_printed (BasicWorkerPool bw_schedule))
       = image_mset bw_result (mset [1, 2, 3, 4, 5, 6, 7, 8, 9, 10])
   \<and> bw_workers (bw_worker 1 (BasicWorkerPool bw_schedule)) ! 1 = Exited
   \<and> bw_mainpc (BasicWorkerPool []) \<noteq> BwReturned
   \<and> (\<exists>e. bw_step 10 (BasicWorkerPool []) e \<noteq> BasicWorkerPool [])
   \<and> bw_step 10 (BasicWorkerPool []) MainStep \<noteq> BasicWorkerPool []
   \<and> bw_measure (bw_step 10 (BasicWorkerPool []) MainStep) < bw_measure (BasicWorkerPool [])"
proof -
  let ?c = "(make_chan 0)\<lparr>closed := True\<rparr> :: int chan"
  let ?js = "[1, 2, 3, 4, 5, 6, 7, 8, 9, 10] :: int list"
  have n: "(0::nat) < 3" by simp
  have k: "(1::nat) < 3" by simp
  have len: "length ?js = 10" by simp
  have a: "closed ?c" "buf ?c = []" by (simp_all add: make_chan_def)
  have b: "cc_done (ChannelCloseDetection cc_schedule)"
    by code_simp
  have c: "\<not> cc_done (ChannelCloseDetection [])"
    by (simp add: ChannelCloseDetection_def cc_run_def cc_init_def)
  have d: "cc_step (ChannelCloseDetection []) MainStep \<noteq> ChannelCloseDetection []"
  proof
    assume "cc_step (ChannelCloseDetection []) MainStep = ChannelCloseDetection []"
    then have "cc_output (cc_step (ChannelCloseDetection []) MainStep)
        = cc_output (ChannelCloseDetection [])"
      by simp
    then show False
      by (simp add: ChannelCloseDetection_def cc_run_def cc_init_def cc_step_def cc_main_def
          chan_recv_def make_chan_def cc_handoff_def)
  qed
  have e: "bw_mainpc (BasicWorkerPool bw_schedule) = BwReturned"
    by code_simp
  have f: "bw_mainpc (BasicWorkerPool []) \<noteq> BwReturned"
    by (simp add: BasicWorkerPool_def bw_run_def bw_init_def)
  have g: "bw_step 10 (BasicWorkerPool []) MainStep \<noteq> BasicWorkerPool []"
  proof
    assume "bw_step 10 (BasicWorkerPool []) MainStep = BasicWorkerPool []"
    then have "bw_mainpc (bw_step 10 (BasicWorkerPool []) MainStep)
        = bw_mainpc (BasicWorkerPool [])"
      by simp
    then show False
      by (simp add: BasicWorkerPool_def bw_run_def bw_init_def bw_step_def bw_main_step_def
          chan_send_def make_chan_def)
  qed
  have h: "cc_output (ChannelCloseDetection cc_schedule)
      = [ReceivedLine 1, ReceivedLine 2, ReceivedLine 3, ChannelIsClosed]"
    by code_simp
  note w1 = C7_closed_channel [OF n, where c = ?c and v = 1 and xs = "[1, 2, 3]"
      and sched = cc_schedule and e = MainStep and js = ?js and w = 1,
      folded ChannelCloseDetection_def BasicWorkerPool_def]
  note w2 = C7_closed_channel [OF n, where c = ?c and v = 1 and xs = "[1, 2, 3]"
      and sched = "[]" and e = MainStep and js = ?js and w = 1,
      folded ChannelCloseDetection_def BasicWorkerPool_def, unfolded len]
  note w3 = C7_closed_channel [OF n, where c = ?c and v = 1 and xs = "[1, 2, 3]"
      and sched = bw_schedule and e = MainStep and js = ?js and w = 1,
      folded ChannelCloseDetection_def BasicWorkerPool_def, unfolded len]
  from w1 a have r1: "chan_send ?c (1::int) = SendPanics" and r2: "chan_recv ?c = RecvClosed"
    by blast+
  from w2 c d have r3: "\<exists>e. cc_step (ChannelCloseDetection []) e \<noteq> ChannelCloseDetection []"
    and r4: "cc_measure (cc_step (ChannelCloseDetection []) MainStep)
        < cc_measure (ChannelCloseDetection [])"
    by blast+
  from w3 e k have r5: "mset (bw_printed (BasicWorkerPool bw_schedule))
        = image_mset bw_result (mset ?js)"
    and r6: "bw_workers (bw_worker 1 (BasicWorkerPool bw_schedule)) ! 1 = Exited"
    by blast+
  from w2 f g have r7: "\<exists>e. bw_step 10 (BasicWorkerPool []) e \<noteq> BasicWorkerPool []"
    and r8: "bw_measure (bw_step 10 (BasicWorkerPool []) MainStep) < bw_measure (BasicWorkerPool [])"
    by blast+
  show ?thesis
    by (intro conjI n a r1 r2 b h c r3 d r4 e r5 r6 f r7 g r8)
qed

subsection \<open>C8: graceful shutdown of the wait-group pool\<close>

text \<open>
  C8.  In \<^verbatim>\<open>WorkerPoolWithWaitGroup\<close> with at least one worker, for every list of jobs
  and every schedule:
  \<^item> \<^verbatim>\<open>jobs\<close> is closed exactly when the producer has returned, and a send on a closed
    channel panics instead of enqueueing;
  \<^item> the results delivered so far and the results of the jobs still unsent, queued or
    held are exactly the results of the submitted jobs;
  \<^item> if \<^verbatim>\<open>results\<close> is closed, every worker has ended, no job is unsent, queued or held,
    and the stream has carried the result of every job;
  \<^item> when main has returned it has received the result of every job;
  \<^item> until then some goroutine can take a step, and every step that changes the state
    lowers \<open>wg_measure\<close>, so main does return.
\<close>

theorem C8_shutdown_drains:
  assumes "0 < numWorkers"
  shows "(closed (wg_jobs (wg_run numWorkers js sched))
            \<longleftrightarrow> wg_todo (wg_run numWorkers js sched) = None)
    \<and> (closed c \<longrightarrow> chan_send c v = SendPanics)
    \<and> wg_delivered (wg_run numWorkers js sched)
          + image_mset (\<lambda>j. j * j) (wg_pending (wg_run numWorkers js sched))
        = image_mset (\<lambda>j. j * j) (mset js)
    \<and> (closed (wg_results (wg_run numWorkers js sched))
        \<longrightarrow> live (wg_workers (wg_run numWorkers js sched)) = 0
            \<and> wg_pending (wg_run numWorkers js sched) = {#}
            \<and> wg_delivered (wg_run numWorkers js sched) = image_mset (\<lambda>j. j * j) (mset js))
    \<and> (wg_mainpc (wg_run numWorkers js sched) = WgReturned
        \<longrightarrow> mset (wg_printed (wg_run numWorkers js sched)) = image_mset (\<lambda>j. j * j) (mset js))
    \<and> (wg_mainpc (wg_run numWorkers js sched) \<noteq> WgReturned
        \<longrightarrow> (\<exists>e. wg_step (wg_run numWorkers js sched) e \<noteq> wg_run numWorkers js sched))
    \<and> (wg_step (wg_run numWorkers js sched) e \<noteq> wg_run numWorkers js sched
        \<longrightarrow> wg_measure (wg_step (wg_run numWorkers js sched) e)
              < wg_measure (wg_run numWorkers js sched))"
proof -
  let ?s = "wg_run numWorkers js sched"
  have inv: "wg_inv js ?s" using assms by (rule wg_inv_run)
  have p1: "closed (wg_jobs ?s) \<longleftrightarrow> wg_todo ?s = None"
    using inv by (simp add: wg_inv_def)
  have p2: "closed c \<longrightarrow> chan_send c v = SendPanics"
    by (simp add: chan_send_def)
  have p3: "wg_delivered ?s + image_mset (\<lambda>j. j * j) (wg_pending ?s)
      = image_mset (\<lambda>j. j * j) (mset js)"
    using inv by (simp add: wg_inv_def)
  have p4: "closed (wg_results ?s)
      \<longrightarrow> live (wg_workers ?s) = 0 \<and> wg_pending ?s = {#}
          \<and> wg_delivered ?s = image_mset (\<lambda>j. j * j) (mset js)"
    using wg_closed_results [OF inv] wg_drained [OF inv] by blast
  have p5: "wg_mainpc ?s = WgReturned
      \<longrightarrow> mset (wg_printed ?s) = image_mset (\<lambda>j. j * j) (mset js)"
    using wg_returned [OF inv] by blast
  have p6: "wg_mainpc ?s \<noteq> WgReturned \<longrightarrow> (\<exists>e. wg_step ?s e \<noteq> ?s)"
    using wg_progress [OF inv] by blast
  have p7: "wg_step ?s e \<noteq> ?s \<longrightarrow> wg_measure (wg_step ?s e) < wg_measure ?s"
    using wg_measure_step [OF inv] by blast
  show ?thesis
    by (intro conjI p1 p2 p3 p4 p5 p6 p7)
qed

theorem C8_shutdown_drains_witness:
  "(0::nat) < 4
   \<and> closed (wg_results (WorkerPoolWithWaitGroup wg_schedule))
   \<and> live (wg_workers (WorkerPoolWithWaitGroup wg_schedule)) = 0
   \<and> wg_mainpc (WorkerPoolWithWaitGroup wg_schedule) = WgReturned
   \<and> mset (wg_printed (WorkerPoolWithWaitGroup wg_schedule))
       = image_mset (\<lambda>j. j * j) (mset [1, 2, 3, 4, 5, 6, 7, 8])
   \<and> wg_printed (WorkerPoolWithWaitGroup wg_schedule) = [1, 4, 9, 16, 25, 36, 49, 64]
   \<and> wg_mainpc (WorkerPoolWithWaitGroup []) \<noteq> WgReturned
   \<and> (\<exists>e. wg_step (WorkerPoolWithWaitGroup []) e \<noteq> WorkerPoolWithWaitGroup [])
   \<and> wg_step (WorkerPoolWithWaitGroup []) ProducerStep \<noteq> WorkerPoolWithWaitGroup []
   \<and> wg_measure (wg_step (WorkerPoolWithWaitGroup []) ProducerStep)
       < wg_measure (WorkerPoolWithWaitGroup [])
   \<and> closed (make_chan 1 \<lparr>closed := True\<rparr> :: int chan)
   \<and> chan_send (make_chan 1 \<lparr>closed := True\<rparr>) (1::int) = SendPanics"
proof -
  let ?s = "WorkerPoolWithWaitGroup wg_schedule"
  let ?t = "WorkerPoolWithWaitGroup []"
  have n: "(0::nat) < 4" by simp
  have a: "closed (wg_results ?s)" "wg_mainpc ?s = WgReturned"
    "wg_printed ?s = [1, 4, 9, 16, 25, 36, 49, 64]"
    by code_simp+
  have b: "wg_mainpc ?t \<noteq> WgReturned"
    by (simp add: WorkerPoolWithWaitGroup_def wg_run_def wg_init_def)
  have c: "wg_step ?t ProducerStep \<noteq> ?t"
  proof
    assume "wg_step ?t ProducerStep = ?t"
    then have "wg_todo (wg_step ?t ProducerStep) = wg_todo ?t" by simp
    then show False
      by (simp add: WorkerPoolWithWaitGroup_def wg_run_def wg_init_def wg_step_def
          wg_producer_def chan_send_def make_chan_def)
  qed
  have d: "closed (make_chan 1 \<lparr>closed := True\<rparr> :: int chan)" by simp
  note w1 = C8_shutdown_drains [OF n, where js = "[1, 2, 3, 4, 5, 6, 7, 8]"
      and sched = wg_schedule and e = ProducerStep
      and c = "make_chan 1 \<lparr>closed := True\<rparr>" and v = "1::int",
      folded WorkerPoolWithWaitGroup_def]
  note w2 = C8_shutdown_drains [OF n, where js = "[1, 2, 3, 4, 5, 6, 7, 8]"
      and sched = "[]" and e = ProducerStep
      and c = "make_chan 1 \<lparr>closed := True\<rparr>" and v = "1::int",
      folded WorkerPoolWithWaitGroup_def]
  show ?thesis
    using n a b c d w1 w2 by blast
qed

subsection \<open>C9: fan-out\<close>

text \<open>
  C9 as stated fails: a lane does not carry the jobs it is given but each job times the
  lane's factor, and the input has no error signal.  In the run \<open>fo_schedule\<close> of
  \<^verbatim>\<open>FanOutBasic\<close> main has returned; the inputs were 1 to 6, the first lane took 1 and
  4, the second 2 and 5, the third 3 and 6, and the values read from the three lanes are
  2, 8, 6, 15, 12 and 24.
\<close>

theorem C9_lanes_carry_products_counterexample:
  "fo_returned (FanOutBasic fo_schedule)
   \<and> map snd (fo_printed (FanOutBasic fo_schedule)) = [2, 8, 6, 15, 12, 24]
   \<and> fo_lane 0 (fo_processing (FanOutBasic fo_schedule)) = [1, 4]
   \<and> fo_lane 1 (fo_processing (FanOutBasic fo_schedule)) = [2, 5]
   \<and> fo_lane 2 (fo_processing (FanOutBasic fo_schedule)) = [3, 6]
   \<and> fo_lane 0 (fo_printed (FanOutBasic fo_schedule)) = [2, 8]
   \<and> fo_lane 1 (fo_printed (FanOutBasic fo_schedule)) = [6, 15]
   \<and> fo_lane 2 (fo_printed (FanOutBasic fo_schedule)) = [12, 24]"
  by code_simp

text \<open>
  C9 (amended).  In \<^verbatim>\<open>FanOutBasic\<close> with at least one lane, for every list of inputs and
  every schedule:
  \<^item> every input is taken by at most one lane, and by a lane that exists: the inputs
    taken so far, those buffered in \<^verbatim>\<open>input\<close> and those not yet sent are together the
    inputs, each once;
  \<^item> what a lane's consumer has read, then what its output channel holds, then what
    its goroutine is about to send, is the sequence of inputs the lane took, each times
    the lane's factor, in the order taken;
  \<^item> a lane's output is closed exactly when the lane's goroutine has ended, which it
    does only when \<^verbatim>\<open>input\<close> is closed and drained (the close of the input is passed
    on to every lane; there is no error signal);
  \<^item> when main has returned every input has been taken by one lane, every lane's
    consumer has read exactly the lane's inputs times its factor, and every output is
    closed;
  \<^item> until then some goroutine can take a step, and every step that changes the state
    lowers \<open>fo_measure\<close>, so main does return.
\<close>

theorem C9_each_input_on_one_lane:
  assumes "factors \<noteq> []"
  shows "mset (map snd (fo_processing (fo_run factors js sched)))
           + mset (buf (fo_input (fo_run factors js sched)))
           + mset (remaining (fo_todo (fo_run factors js sched))) = mset js
    \<and> (\<forall>x \<in> set (fo_processing (fo_run factors js sched)). fst x < length factors)
    \<and> (\<forall>k < length factors.
          fo_lane k (fo_printed (fo_run factors js sched))
            @ buf (fo_outputs (fo_run factors js sched) ! k)
            @ held (fo_routers (fo_run factors js sched) ! k) (factors ! k)
          = map (\<lambda>d. d * factors ! k) (fo_lane k (fo_processing (fo_run factors js sched))))
    \<and> (\<forall>k < length factors.
          closed (fo_outputs (fo_run factors js sched) ! k)
            \<longleftrightarrow> fo_routers (fo_run factors js sched) ! k = Exited)
    \<and> (Exited \<in> set (fo_routers (fo_run factors js sched))
        \<longrightarrow> closed (fo_input (fo_run factors js sched))
            \<and> buf (fo_input (fo_run factors js sched)) = [])
    \<and> (fo_returned (fo_run factors js sched)
        \<longrightarrow> mset (map snd (fo_processing (fo_run factors js sched))) = mset js
            \<and> (\<forall>k < length factors.
                  fo_lane k (fo_printed (fo_run factors js sched))
                    = map (\<lambda>d. d * factors ! k)
                        (fo_lane k (fo_processing (fo_run factors js sched)))
                  \<and> closed (fo_outputs (fo_run factors js sched) ! k)))
    \<and> (\<not> fo_returned (fo_run factors js sched)
        \<longrightarrow> (\<exists>e. fo_step factors (fo_run factors js sched) e \<noteq> fo_run factors js sched))
    \<and> (fo_step factors (fo_run factors js sched) e \<noteq> fo_run factors js sched
        \<longrightarrow> fo_measure (fo_step factors (fo_run factors js sched) e)
              < fo_measure (fo_run factors js sched))"
proof -
  let ?s = "fo_run factors js sched"
  have inv: "fo_inv factors js ?s" using assms by (rule fo_inv_run)
  have p1: "mset (map snd (fo_processing ?s)) + mset (buf (fo_input ?s))
      + mset (remaining (fo_todo ?s)) = mset js"
    using inv by (simp add: fo_inv_def)
  have p2: "\<forall>x \<in> set (fo_processing ?s). fst x < length factors"
    using inv by (simp add: fo_inv_def)
  have lane: "fo_lane_inv factors ?s k" if "k < length factors" for k
    using inv that by (simp add: fo_inv_def)
  have p3: "\<forall>k < length factors.
      fo_lane k (fo_printed ?s) @ buf (fo_outputs ?s ! k)
        @ held (fo_routers ?s ! k) (factors ! k)
      = map (\<lambda>d. d * factors ! k) (fo_lane k (fo_processing ?s))"
    using lane by (simp add: fo_lane_inv_def)
  have p4: "\<forall>k < length factors. closed (fo_outputs ?s ! k) \<longleftrightarrow> fo_routers ?s ! k = Exited"
    using lane by (simp add: fo_lane_inv_def)
  have p5: "Exited \<in> set (fo_routers ?s) \<longrightarrow> closed (fo_input ?s) \<and> buf (fo_input ?s) = []"
    using inv by (auto simp: fo_inv_def)
  have p6: "fo_returned ?s
      \<longrightarrow> mset (map snd (fo_processing ?s)) = mset js
          \<and> (\<forall>k < length factors.
                fo_lane k (fo_printed ?s)
                  = map (\<lambda>d. d * factors ! k) (fo_lane k (fo_processing ?s))
                \<and> closed (fo_outputs ?s ! k))"
    using fo_returned_all [OF inv] by blast
  have p7: "\<not> fo_returned ?s \<longrightarrow> (\<exists>e. fo_step factors ?s e \<noteq> ?s)"
    using fo_progress [OF inv] by blast
  have p8: "fo_step factors ?s e \<noteq> ?s \<longrightarrow> fo_measure (fo_step factors ?s e) < fo_measure ?s"
    using fo_measure_step [OF inv] by blast
  show ?thesis
    by (intro conjI p1 p2 p3 p4 p5 p6 p7 p8)
qed

theorem C9_each_input_on_one_lane_witness:
  "[2, 3, 4] \<noteq> ([] :: int list)
   \<and> fo_returned (FanOutBasic fo_schedule)
   \<and> mset (map snd (fo_processing (FanOutBasic fo_schedule))) = mset [1, 2, 3, 4, 5, 6]
   \<and> fo_lane 1 (fo_printed (FanOutBasic fo_schedule))
       = map (\<lambda>d. d * [2, 3, 4] ! 1) (fo_lane 1 (fo_processing (FanOutBasic fo_schedule)))
   \<and> closed (fo_outputs (FanOutBasic fo_schedule) ! 1)
   \<and> fo_routers (FanOutBasic fo_schedule) ! 1 = Exited
   \<and> Exited \<in> set (fo_routers (FanOutBasic fo_schedule))
   \<and> closed (fo_input (FanOutBasic fo_schedule))
   \<and> (1, 2) \<in> set (fo_processing (FanOutBasic fo_schedule))
   \<and> fst (1::nat, 2::int) < length [2, 3, 4 :: int]
   \<and> \<not> fo_returned (FanOutBasic [])
   \<and> (\<exists>e. fo_step [2, 3, 4] (FanOutBasic []) e \<noteq> FanOutBasic [])
   \<and> fo_step [2, 3, 4] (FanOutBasic []) FoProducer \<noteq> FanOutBasic []
   \<and> fo_measure (fo_step [2, 3, 4] (FanOutBasic []) FoProducer) < fo_measure (FanOutBasic [])"
proof -
  let ?s = "FanOutBasic fo_schedule"
  let ?t = "FanOutBasic []"
  have n: "[2, 3, 4] \<noteq> ([] :: int list)" by simp
  have k: "(1::nat) < length [2, 3, 4 :: int]" by simp
  have a: "fo_returned ?s" "fo_routers ?s ! 1 = Exited" "(1, 2) \<in> set (fo_processing ?s)"
    by code_simp+
  have a': "Exited \<in> set (fo_routers ?s)"
    by code_simp
  have b: "\<not> fo_returned ?t"
    by (simp add: FanOutBasic_def fo_run_def fo_init_def)
  have c: "fo_step [2, 3, 4] ?t FoProducer \<noteq> ?t"
  proof
    assume "fo_step [2, 3, 4] ?t FoProducer = ?t"
    then have "fo_todo (fo_step [2, 3, 4] ?t FoProducer) = fo_todo ?t" by simp
    then show False
      by (simp add: FanOutBasic_def fo_run_def fo_init_def fo_step_def fo_producer_def
          chan_send_def make_chan_def)
  qed
  note w1 = C9_each_input_on_one_lane [OF n, where js = "[1, 2, 3, 4, 5, 6]"
      and sched = fo_schedule and e = FoProducer, folded FanOutBasic_def]
  note w2 = C9_each_input_on_one_lane [OF n, where js = "[1, 2, 3, 4, 5, 6]"
      and sched = "[]" and e = FoProducer, folded FanOutBasic_def]
  from w1 a(1) have r1: "mset (map snd (fo_processing ?s)) = mset [1, 2, 3, 4, 5, 6]"
    and r2: "\<forall>k < length [2, 3, 4 :: int].
        fo_lane k (fo_printed ?s) = map (\<lambda>d. d * [2, 3, 4] ! k) (fo_lane k (fo_processing ?s))
        \<and> closed (fo_outputs ?s ! k)"
    by blast+
  from r2 k have r3: "fo_lane 1 (fo_printed ?s)
      = map (\<lambda>d. d * [2, 3, 4] ! 1) (fo_lane 1 (fo_processing ?s))"
    and r4: "closed (fo_outputs ?s ! 1)"
    by blast+
  from w1 a' have r5: "closed (fo_input ?s)" by blast
  from w1 a(3) have r6: "fst (1::nat, 2::int) < length [2, 3, 4 :: int]" by blast
  from w2 b c have r7: "\<exists>e. fo_step [2, 3, 4] ?t e \<noteq> ?t"
    and r8: "fo_measure (fo_step [2, 3, 4] ?t FoProducer) < fo_measure ?t"
    by blast+
  show ?thesis
    by (intro conjI n a(1) r1 r3 r4 a(2) a' r5 a(3) r6 b r7 c r8)
qed

subsection \<open>C10: failure is a function of the job ID\<close>

text \<open>
  C10.  In the error-handling pool the result built for a job has a non-nil \<^verbatim>\<open>Error\<close>
  if and only if the job's ID is divisible by 3 (Go's \<^verbatim>\<open>job.ID%3 == 0\<close>); otherwise its
  \<^verbatim>\<open>Value\<close> is \<^verbatim>\<open>"processed-"\<close> followed by the job's \<^verbatim>\<open>Data\<close>.  The result carries the
  job's ID, and under every schedule and for every number of workers each result on the
  stream is the result so built for one of the submitted jobs: neither the worker nor
  the schedule enters it.
\<close>

theorem C10_error_iff_ID_divisible_by_3:
  "(Error (processJob job) \<noteq> None \<longleftrightarrow> go_rem (ID job) 3 = 0)
    \<and> (Error (processJob job) \<noteq> None \<longleftrightarrow> 3 dvd ID job)
    \<and> (Error (processJob job) = None \<longrightarrow> Value (processJob job) = ''processed-'' @ Data job)
    \<and> JobID (processJob job) = ID job
    \<and> (\<forall>r \<in># eh_delivered (eh_run numWorkers js sched). \<exists>j \<in> set js. r = processJob j)"
proof -
  have p1: "Error (processJob job) \<noteq> None \<longleftrightarrow> go_rem (ID job) 3 = 0"
    by (simp add: processJob_def)
  have p2: "Error (processJob job) \<noteq> None \<longleftrightarrow> 3 dvd ID job"
    by (simp add: processJob_def go_rem_eq_0_iff)
  have p3: "Error (processJob job) = None \<longrightarrow> Value (processJob job) = ''processed-'' @ Data job"
    by (simp add: processJob_def)
  have p4: "JobID (processJob job) = ID job"
    by (simp add: processJob_def)
  have p5: "\<forall>r \<in># eh_delivered (eh_run numWorkers js sched). \<exists>j \<in> set js. r = processJob j"
  proof
    fix r
    assume "r \<in># eh_delivered (eh_run numWorkers js sched)"
    with eh_delivered_subset [OF eh_inv_run [of js numWorkers sched]]
    have "r \<in># image_mset processJob (mset js)"
      by (rule mset_subset_eqD)
    then show "\<exists>j \<in> set js. r = processJob j" by auto
  qed
  show ?thesis
    by (intro conjI p1 p2 p3 p4 p5)
qed

theorem C10_error_iff_ID_divisible_by_3_witness:
  "Error (processJob \<lparr>ID = 4, Data = ''data-4''\<rparr>) = None
   \<and> Value (processJob \<lparr>ID = 4, Data = ''data-4''\<rparr>) = ''processed-data-4''
   \<and> Error (processJob \<lparr>ID = 3, Data = ''data-3''\<rparr>) \<noteq> None
   \<and> processJob \<lparr>ID = 3, Data = ''data-3''\<rparr> \<in># eh_delivered (WorkerPoolWithErrorHandling eh_schedule)
   \<and> (\<exists>j \<in> set eh_source_jobs. processJob \<lparr>ID = 3, Data = ''data-3''\<rparr> = processJob j)"
proof -
  have a: "Error (processJob \<lparr>ID = 4, Data = ''data-4''\<rparr>) = None"
    by (simp add: processJob_def go_rem_def)
  have b: "(3::int) dvd ID \<lparr>ID = 3, Data = ''data-3''\<rparr>" by simp
  have c: "processJob \<lparr>ID = 3, Data = ''data-3''\<rparr>
      \<in># eh_delivered (WorkerPoolWithErrorHandling eh_schedule)"
    unfolding eh_delivered_def by code_simp
  note w1 = C10_error_iff_ID_divisible_by_3 [where job = "\<lparr>ID = 4, Data = ''data-4''\<rparr>"
      and numWorkers = 3 and js = eh_source_jobs and sched = eh_schedule,
      folded WorkerPoolWithErrorHandling_def]
  note w2 = C10_error_iff_ID_divisible_by_3 [where job = "\<lparr>ID = 3, Data = ''data-3''\<rparr>"
      and numWorkers = 3 and js = eh_source_jobs and sched = eh_schedule,
      folded WorkerPoolWithErrorHandling_def]
  show ?thesis
    using a b c w1 w2 by auto
qed

end
